(* ===== verification/GoPrelude.thy ===== *)
theory GoPrelude
  imports Main "HOL-Library.Word" "HOL-Library.Code_Target_Nat"
begin

text \<open>
  Shared vocabulary of the development: bytes, Go errors, the three ways a Go call can end,
  big-endian numbers (the part of \<open>math/big\<close> the allocator uses), decimal and hexadecimal
  printing and scanning, and the functions of Go's \<open>strings\<close> package that the repository calls.
  The collections \<open>go_bytes\<close> and \<open>go_text\<close> gather the facts that the component proofs
  hand to the simplifier.
\<close>

unbundle bit_operations_syntax

named_theorems go_bytes \<open>lengths and values of byte lists\<close>
named_theorems go_text \<open>scanning what was printed\<close>

section \<open>Types\<close>

type_synonym byte = "8 word"
type_synonym u32 = "32 word"

text \<open>
  An error made by \<open>errors.New\<close>, by \<open>fmt.Errorf\<close> (the format and the arguments, not the
  rendered text) or by \<open>fmt.Errorf\<close> around another error.
\<close>

datatype go_error =
    ErrNew string
  | Errorf string "string list"
  | Wrapf string "string list" go_error

text \<open>
  A call returns or panics; a call that may also run forever is wrapped in \<open>option\<close>,
  with \<open>None\<close> for "never returns".
\<close>

datatype 'a outcome = Panics | Returns 'a

fun bind_outcome :: "'a outcome \<Rightarrow> ('a \<Rightarrow> 'b outcome) \<Rightarrow> 'b outcome" where
  "bind_outcome Panics f = Panics"
| "bind_outcome (Returns x) f = f x"

lemma find_Some_mem: "find P xs = Some x \<Longrightarrow> x \<in> set xs \<and> P x"
  by (auto simp: find_Some_iff)

lemma find_None_all: "find P xs = None \<longleftrightarrow> (\<forall>x \<in> set xs. \<not> P x)"
  by (auto simp: find_None_iff)

lemma length_4_cases: "length xs = 4 \<Longrightarrow> \<exists>a b c d. xs = [a, b, c, d]"
  by (auto simp: numeral_eq_Suc length_Suc_conv)

section \<open>Big-endian numbers\<close>

text \<open>\<open>big.Int.SetBytes\<close> and \<open>big.Int.Bytes\<close> (the shortest big-endian form, empty for 0).\<close>

fun set_bytes_from :: "nat \<Rightarrow> byte list \<Rightarrow> nat" where
  "set_bytes_from acc [] = acc"
| "set_bytes_from acc (b # bs) = set_bytes_from (acc * 256 + unat b) bs"

definition SetBytes :: "byte list \<Rightarrow> nat" where
  "SetBytes bs = set_bytes_from 0 bs"

fun Bytes :: "nat \<Rightarrow> byte list" where
  "Bytes n = (if n = 0 then [] else Bytes (n div 256) @ [word_of_nat (n mod 256)])"

declare Bytes.simps [simp del]

lemma Bytes_0 [simp]: "Bytes 0 = []"
  by (subst Bytes.simps) simp

lemma Bytes_pos: "0 < n \<Longrightarrow> Bytes n = Bytes (n div 256) @ [word_of_nat (n mod 256)]"
  by (subst Bytes.simps) simp

lemma unat_byte_less [simp]: "unat (b :: byte) < 256"
  using unsigned_less [of b] by simp

lemma unat_byte_of_nat [simp]: "n < 256 \<Longrightarrow> unat (word_of_nat n :: byte) = n"
  by (simp add: unat_of_nat)

lemma set_bytes_from_eq: "set_bytes_from acc bs = acc * 256 ^ length bs + SetBytes bs"
proof (induction bs arbitrary: acc)
  case Nil
  then show ?case by (simp add: SetBytes_def)
next
  case (Cons b bs)
  have "SetBytes (b # bs) = unat b * 256 ^ length bs + SetBytes bs"
    using Cons.IH [of "unat b"] by (simp add: SetBytes_def)
  then show ?case using Cons.IH [of "acc * 256 + unat b"]
    by (simp add: algebra_simps)
qed

lemma SetBytes_Nil [simp]: "SetBytes [] = 0"
  by (simp add: SetBytes_def)

lemma SetBytes_Cons [go_bytes]:
  "SetBytes (b # bs) = unat b * 256 ^ length bs + SetBytes bs"
  using set_bytes_from_eq [of "unat b" bs] by (simp add: SetBytes_def)

lemma SetBytes_append [go_bytes]:
  "SetBytes (as @ bs) = SetBytes as * 256 ^ length bs + SetBytes bs"
  by (induction as) (simp_all add: SetBytes_Cons power_add algebra_simps)

lemma SetBytes_less: "SetBytes bs < 256 ^ length bs"
proof (induction bs)
  case Nil
  then show ?case by simp
next
  case (Cons b bs)
  have "unat b * 256 ^ length bs + SetBytes bs < unat b * 256 ^ length bs + 256 ^ length bs"
    using Cons by simp
  also have "\<dots> = (unat b + 1) * 256 ^ length bs"
    by simp
  also have "\<dots> \<le> 256 * 256 ^ length bs"
    using unat_byte_less [of b] by (intro mult_le_mono1) linarith
  finally show ?case by (simp add: SetBytes_Cons)
qed

lemma SetBytes_Bytes [simp]: "SetBytes (Bytes n) = n"
proof (induction n rule: Bytes.induct)
  case (1 n)
  then show ?case
    by (cases "n = 0") (simp_all add: Bytes_pos SetBytes_append SetBytes_Cons)
qed

lemma SetBytes_inj:
  "length as = length bs \<Longrightarrow> SetBytes as = SetBytes bs \<Longrightarrow> as = bs"
proof (induction as bs rule: list_induct2)
  case Nil
  then show ?case by simp
next
  case (Cons a as b bs)
  let ?n = "(256::nat) ^ length bs"
  have eq: "unat a * ?n + SetBytes as = unat b * ?n + SetBytes bs"
    using Cons by (simp add: SetBytes_Cons)
  have small: "SetBytes as < ?n" "SetBytes bs < ?n"
    using SetBytes_less [of as] SetBytes_less [of bs] Cons.hyps by simp_all
  have "unat a = (unat a * ?n + SetBytes as) div ?n" using small by simp
  also have "\<dots> = unat b" using small by (simp only: eq) simp
  finally have ab: "unat a = unat b" .
  with eq have "SetBytes as = SetBytes bs" by simp
  with Cons.IH ab show ?case by (simp add: word_unat_eq_iff)
qed

lemma length_Bytes_le: "length (Bytes n) \<le> k \<longleftrightarrow> n < 256 ^ k"
proof (induction k arbitrary: n)
  case 0
  then show ?case by (cases "n = 0") (simp_all add: Bytes_pos)
next
  case (Suc k)
  show ?case
  proof (cases "n = 0")
    case True
    then show ?thesis by simp
  next
    case False
    then have "length (Bytes n) \<le> Suc k \<longleftrightarrow> length (Bytes (n div 256)) \<le> k"
      by (simp add: Bytes_pos)
    also have "\<dots> \<longleftrightarrow> n div 256 < 256 ^ k" by (rule Suc.IH)
    also have "\<dots> \<longleftrightarrow> n < 256 ^ Suc k"
      by (simp add: div_less_iff_less_mult mult.commute)
    finally show ?thesis .
  qed
qed

lemma length_Bytes [go_bytes]:
  "256 ^ k \<le> n \<Longrightarrow> n < 256 ^ Suc k \<Longrightarrow> length (Bytes n) = Suc k"
  using length_Bytes_le [of n k] length_Bytes_le [of n "Suc k"] by simp

end
