(* ===== verification/GoStrings.thy ===== *)
theory GoStrings
  imports GoPrelude
begin

text \<open>
  The functions of Go's \<open>strings\<close> and \<open>strconv\<close> packages that the repository calls, and the
  decimal and hexadecimal scanners and printers of \<open>net\<close> (\<open>dtoi\<close>, \<open>xtoi\<close>, \<open>uitoa\<close>,
  \<open>appendHex\<close>). A string is a list of bytes (\<open>char\<close>); white space is the ASCII white space.
  The lemmas show that scanning a printed number gives the number back.
\<close>

section \<open>Characters\<close>

definition code :: "char \<Rightarrow> nat" where
  "code c = of_char c"

definition is_digit :: "char \<Rightarrow> bool" where
  "is_digit c \<longleftrightarrow> 48 \<le> code c \<and> code c \<le> 57"

definition is_space :: "char \<Rightarrow> bool" where
  "is_space c \<longleftrightarrow> code c = 32 \<or> (9 \<le> code c \<and> code c \<le> 13)"

definition hex_val :: "char \<Rightarrow> nat option" where
  "hex_val c =
     (if 48 \<le> code c \<and> code c \<le> 57 then Some (code c - 48)
      else if 97 \<le> code c \<and> code c \<le> 102 then Some (code c - 97 + 10)
      else if 65 \<le> code c \<and> code c \<le> 70 then Some (code c - 65 + 10)
      else None)"

definition digit_char :: "nat \<Rightarrow> char" where
  "digit_char n = char_of (48 + n)"

definition hex_char :: "nat \<Rightarrow> char" where
  "hex_char n = (if n < 10 then char_of (48 + n) else char_of (87 + n))"

lemma code_digit_char [go_text]: "n < 10 \<Longrightarrow> code (digit_char n) = 48 + n"
  by (simp add: code_def digit_char_def)

lemma code_hex_char [go_text]:
  "n < 16 \<Longrightarrow> code (hex_char n) = (if n < 10 then 48 + n else 87 + n)"
  by (simp add: code_def hex_char_def)

lemma is_digit_digit_char [go_text]: "n < 10 \<Longrightarrow> is_digit (digit_char n)"
  by (simp add: is_digit_def code_digit_char)

lemma hex_val_hex_char [go_text]: "n < 16 \<Longrightarrow> hex_val (hex_char n) = Some n"
  by (simp add: hex_val_def code_hex_char)

section \<open>Printing and scanning numbers\<close>

fun itoa :: "nat \<Rightarrow> string" where
  "itoa n = (if n < 10 then [digit_char n] else itoa (n div 10) @ [digit_char (n mod 10)])"

declare itoa.simps [simp del]

fun appendHex :: "nat \<Rightarrow> string" where
  "appendHex n = (if n < 16 then [hex_char n] else appendHex (n div 16) @ [hex_char (n mod 16)])"

declare appendHex.simps [simp del]

text \<open>
  \<open>dtoi\<close> returns the number, how many bytes it used and whether there was one; a number of
  \<open>0xFFFFFF\<close> or more is refused as soon as it is reached. \<open>xtoi\<close> is its hexadecimal twin.
\<close>

abbreviation big :: nat where
  "big \<equiv> 16777215"

fun dtoi_from :: "nat \<Rightarrow> nat \<Rightarrow> string \<Rightarrow> nat \<times> nat \<times> bool" where
  "dtoi_from n i [] = (if i = 0 then (0, 0, False) else (n, i, True))"
| "dtoi_from n i (c # s) =
     (if is_digit c
      then let n' = n * 10 + (code c - 48) in
           if big \<le> n' then (big, i, False) else dtoi_from n' (Suc i) s
      else if i = 0 then (0, 0, False) else (n, i, True))"

definition dtoi :: "string \<Rightarrow> nat \<times> nat \<times> bool" where
  "dtoi s = dtoi_from 0 0 s"

fun xtoi_from :: "nat \<Rightarrow> nat \<Rightarrow> string \<Rightarrow> nat \<times> nat \<times> bool" where
  "xtoi_from n i [] = (if i = 0 then (0, 0, False) else (n, i, True))"
| "xtoi_from n i (c # s) =
     (case hex_val c of
        Some v \<Rightarrow> let n' = n * 16 + v in
           if big \<le> n' then (0, i, False) else xtoi_from n' (Suc i) s
      | None \<Rightarrow> if i = 0 then (0, 0, False) else (n, i, True))"

definition xtoi :: "string \<Rightarrow> nat \<times> nat \<times> bool" where
  "xtoi s = xtoi_from 0 0 s"

lemma itoa_nonempty [simp]: "itoa n \<noteq> []"
  by (subst itoa.simps) simp

lemma itoa_digits: "c \<in> set (itoa n) \<Longrightarrow> is_digit c"
proof (induction n rule: itoa.induct)
  case (1 n)
  then show ?case
    by (cases "n < 10") (auto simp: itoa.simps [of n] is_digit_digit_char)
qed

definition stops_number :: "string \<Rightarrow> bool" where
  "stops_number s \<longleftrightarrow> s = [] \<or> \<not> is_digit (hd s)"

lemma stops_number_simps [simp]:
  "stops_number []" "stops_number (c # s) \<longleftrightarrow> \<not> is_digit c"
  by (simp_all add: stops_number_def)

lemma dtoi_from_stop:
  "stops_number s \<Longrightarrow> i \<noteq> 0 \<Longrightarrow> dtoi_from n i s = (n, i, True)"
  by (cases s) auto

lemma dtoi_from_itoa:
  assumes "acc * 10 ^ length (itoa n) + n < big"
  shows "dtoi_from acc i (itoa n @ s) =
         dtoi_from (acc * 10 ^ length (itoa n) + n) (i + length (itoa n)) s"
  using assms
proof (induction n arbitrary: acc i s rule: itoa.induct)
  case (1 n)
  show ?case
  proof (cases "n < 10")
    case True
    with "1.prems" show ?thesis
      by (simp add: itoa.simps [of n] is_digit_digit_char code_digit_char)
  next
    case False
    let ?l = "length (itoa (n div 10))"
    let ?m = "acc * 10 ^ ?l + n div 10"
    have step: "?m * 10 + n mod 10 = acc * 10 ^ Suc ?l + n"
      using div_mult_mod_eq [of n 10] by (simp add: algebra_simps)
    have lt: "acc * 10 ^ Suc ?l + n < big"
      using "1.prems" False by (simp add: itoa.simps [of n])
    then have "?m * 10 + n mod 10 < big" by (simp only: step)
    moreover have "?m \<le> ?m * 10 + n mod 10" by simp
    ultimately have "?m < big" by (rule le_less_trans [rotated])
    then have "dtoi_from acc i (itoa (n div 10) @ digit_char (n mod 10) # s) =
        dtoi_from ?m (i + ?l) (digit_char (n mod 10) # s)"
      using "1.IH" False by simp
    also have "\<dots> = dtoi_from (acc * 10 ^ Suc ?l + n) (Suc (i + ?l)) s"
      using lt step by (simp add: is_digit_digit_char code_digit_char Let_def ac_simps)
    finally show ?thesis using False by (simp add: itoa.simps [of n])
  qed
qed

lemma dtoi_itoa [go_text]:
  "n < big \<Longrightarrow> stops_number s \<Longrightarrow> dtoi (itoa n @ s) = (n, length (itoa n), True)"
  using dtoi_from_itoa [of 0 n 0 s] by (simp add: dtoi_def dtoi_from_stop)

section \<open>The strings package\<close>

definition TrimSpace :: "string \<Rightarrow> string" where
  "TrimSpace s = rev (dropWhile is_space (rev (dropWhile is_space s)))"

text \<open>\<open>strings.Split\<close> with a separator of one byte: n separators give n + 1 pieces.\<close>

fun Split :: "string \<Rightarrow> char \<Rightarrow> string list" where
  "Split [] sep = [[]]"
| "Split (c # s) sep =
     (if c = sep then [] # Split s sep
      else case Split s sep of [] \<Rightarrow> [[c]] | w # ws \<Rightarrow> (c # w) # ws)"

fun Join :: "string list \<Rightarrow> string \<Rightarrow> string" where
  "Join [] sep = []"
| "Join [w] sep = w"
| "Join (w # ws) sep = w @ sep @ Join ws sep"

fun HasPrefix :: "string \<Rightarrow> string \<Rightarrow> bool" where
  "HasPrefix s [] = True"
| "HasPrefix [] (p # ps) = False"
| "HasPrefix (c # s) (p # ps) = (c = p \<and> HasPrefix s ps)"

definition TrimPrefix :: "string \<Rightarrow> string \<Rightarrow> string" where
  "TrimPrefix s p = (if HasPrefix s p then drop (length p) s else s)"

fun ContainsStr :: "string \<Rightarrow> string \<Rightarrow> bool" where
  "ContainsStr [] p = HasPrefix [] p"
| "ContainsStr (c # s) p = (HasPrefix (c # s) p \<or> ContainsStr s p)"

text \<open>\<open>strings.Fields\<close>: the pieces between runs of white space, none of them empty.\<close>

fun fields_from :: "string \<Rightarrow> string \<Rightarrow> string list" where
  "fields_from w [] = (if w = [] then [] else [rev w])"
| "fields_from w (c # s) =
     (if is_space c then (if w = [] then fields_from [] s else rev w # fields_from [] s)
      else fields_from (c # w) s)"

definition Fields :: "string \<Rightarrow> string list" where
  "Fields s = fields_from [] s"

lemma Split_nonempty [simp]: "Split s sep \<noteq> []"
  by (cases s) (auto split: list.splits)

lemma Join_Split: "Join (Split s sep) [sep] = s"
proof (induction s)
  case Nil
  then show ?case by simp
next
  case (Cons c s)
  obtain w ws where s: "Split s sep = w # ws"
    by (cases "Split s sep") auto
  with Cons show ?case by (cases ws) auto
qed

lemma Split_no_sep: "sep \<notin> set s \<Longrightarrow> Split s sep = [s]"
  by (induction s) auto

lemma HasPrefix_iff: "HasPrefix s p \<longleftrightarrow> (\<exists>t. s = p @ t)"
  by (induction s p rule: HasPrefix.induct) auto

lemma TrimPrefix_append [simp]: "TrimPrefix (p @ s) p = s"
  by (auto simp: TrimPrefix_def HasPrefix_iff)

lemma fields_from_pieces:
  "\<forall>c \<in> set acc. \<not> is_space c \<Longrightarrow>
   w \<in> set (fields_from acc s) \<Longrightarrow> w \<noteq> [] \<and> (\<forall>c \<in> set w. \<not> is_space c)"
proof (induction s arbitrary: acc)
  case Nil
  then show ?case by (cases acc) auto
next
  case (Cons c s)
  show ?case
  proof (cases "is_space c")
    case True
    with Cons.prems have "w = rev acc \<and> acc \<noteq> [] \<or> w \<in> set (fields_from [] s)"
      by (cases acc) auto
    with Cons.IH [of "[]"] Cons.prems(1) show ?thesis by auto
  next
    case False
    with Cons.prems Cons.IH [of "c # acc"] show ?thesis by simp
  qed
qed

lemma Fields_pieces:
  "w \<in> set (Fields s) \<Longrightarrow> w \<noteq> [] \<and> (\<forall>c \<in> set w. \<not> is_space c)"
  using fields_from_pieces [of "[]" w s] by (simp add: Fields_def)

lemma dropWhile_id: "s = [] \<or> \<not> p (hd s) \<Longrightarrow> dropWhile p s = s"
  by (cases s) auto

lemma TrimSpace_Nil [simp]: "TrimSpace [] = []"
  by (simp add: TrimSpace_def)

lemma TrimSpace_id:
  assumes "s \<noteq> []" "\<not> is_space (hd s)" "\<not> is_space (last s)"
  shows "TrimSpace s = s"
  using assms by (simp add: TrimSpace_def dropWhile_id hd_rev)

lemma TrimSpace_cases:
  "TrimSpace s = [] \<or> (\<not> is_space (hd (TrimSpace s)) \<and> \<not> is_space (last (TrimSpace s)))"
proof (cases "TrimSpace s = []")
  case True
  then show ?thesis by simp
next
  case False
  let ?t = "dropWhile is_space s"
  let ?u = "dropWhile is_space (rev ?t)"
  have u: "TrimSpace s = rev ?u" by (simp add: TrimSpace_def)
  with False have "?u \<noteq> []" by simp
  then have l: "\<not> is_space (hd ?u)" by (rule hd_dropWhile)
  have t: "?t \<noteq> []" using \<open>?u \<noteq> []\<close> by (metis dropWhile.simps(1) rev.simps(1))
  then have h: "\<not> is_space (hd ?t)" by (rule hd_dropWhile)
  have "last ?u = last (rev ?t)"
    using \<open>?u \<noteq> []\<close> by (metis dropWhile_eq_drop last_drop length_drop length_greater_0_conv
        zero_less_diff)
  then have "hd (rev ?u) = hd ?t" using t \<open>?u \<noteq> []\<close> by (simp add: hd_rev last_rev)
  with l h u \<open>?u \<noteq> []\<close> show ?thesis by (simp add: last_rev)
qed

lemma TrimSpace_idem [simp]: "TrimSpace (TrimSpace s) = TrimSpace s"
proof (cases "TrimSpace s = []")
  case True
  then show ?thesis by (simp only: TrimSpace_Nil)
next
  case False
  with TrimSpace_cases [of s] show ?thesis by (intro TrimSpace_id) simp_all
qed

end
