(* ===== verification/GoNet.thy ===== *)
theory GoNet
  imports GoStrings
begin

text \<open>
  The part of Go's \<open>net\<close> package the repository computes with: \<open>net.IP\<close>, \<open>net.IPMask\<close> and
  \<open>net.IPNet\<close> as byte slices, with the operations \<open>To4\<close>, \<open>To16\<close>, \<open>Equal\<close>, \<open>Mask\<close>,
  \<open>Size\<close>, \<open>Contains\<close> and \<open>CIDRMask\<close> of the release the module is written for (Go 1.13).
  A nil slice is the empty list. The lemmas give each operation's value on 4-byte and 16-byte
  addresses and turn masked comparison with a prefix mask into division of the numbers.
\<close>

type_synonym ip = "byte list"
type_synonym ipmask = "byte list"

record ipnet =
  IP :: ip
  Mask :: ipmask

definition v4InV6Prefix :: "byte list" where
  "v4InV6Prefix = replicate 10 0 @ [255, 255]"

definition To4 :: "ip \<Rightarrow> ip" where
  "To4 a =
     (if length a = 4 then a
      else if length a = 16 \<and> take 12 a = v4InV6Prefix then drop 12 a
      else [])"

definition To16 :: "ip \<Rightarrow> ip" where
  "To16 a =
     (if length a = 4 then v4InV6Prefix @ a
      else if length a = 16 then a
      else [])"

definition ip_Equal :: "ip \<Rightarrow> ip \<Rightarrow> bool" where
  "ip_Equal a x =
     (if length a = length x then a = x
      else if length a = 4 \<and> length x = 16 then take 12 x = v4InV6Prefix \<and> a = drop 12 x
      else if length a = 16 \<and> length x = 4 then take 12 a = v4InV6Prefix \<and> drop 12 a = x
      else False)"

definition ip_Mask :: "ip \<Rightarrow> ipmask \<Rightarrow> ip" where
  "ip_Mask a m =
     (let m' = (if length m = 16 \<and> length a = 4 \<and> take 12 m = replicate 12 255
                then drop 12 m else m);
          a' = (if length m' = 4 \<and> length a = 16 \<and> take 12 a = v4InV6Prefix
                then drop 12 a else a)
      in if length a' \<noteq> length m' then [] else map2 (AND) a' m')"

text \<open>The ones of a mask that is ones followed by zeros, \<open>None\<close> for the code's -1.\<close>

fun leading_ones :: "nat \<Rightarrow> byte \<Rightarrow> nat \<Rightarrow> nat \<times> byte" where
  "leading_ones 0 v n = (n, v)"
| "leading_ones (Suc k) v n =
     (if v AND 128 \<noteq> 0 then leading_ones k (push_bit 1 v) (Suc n) else (n, v))"

fun simpleMaskLength_from :: "nat \<Rightarrow> ipmask \<Rightarrow> nat option" where
  "simpleMaskLength_from n [] = Some n"
| "simpleMaskLength_from n (v # m) =
     (if v = 255 then simpleMaskLength_from (n + 8) m
      else let (n', v') = leading_ones 8 v n in
        if v' \<noteq> 0 then None
        else if list_all (\<lambda>b. b = 0) m then Some n' else None)"

definition mask_Size :: "ipmask \<Rightarrow> int \<times> int" where
  "mask_Size m =
     (case simpleMaskLength_from 0 m of
        None \<Rightarrow> (0, 0)
      | Some ones \<Rightarrow> (int ones, int (length m * 8)))"

text \<open>\<open>net.CIDRMask(ones, 8 * l)\<close> for a mask of \<open>l\<close> bytes.\<close>

fun CIDRMask :: "nat \<Rightarrow> nat \<Rightarrow> ipmask" where
  "CIDRMask n 0 = []"
| "CIDRMask n (Suc l) =
     (if 8 \<le> n then 255 # CIDRMask (n - 8) l
      else (NOT (drop_bit n 255)) # CIDRMask 0 l)"

definition networkNumberAndMask :: "ipnet \<Rightarrow> ip \<times> ipmask" where
  "networkNumberAndMask n =
     (let a = (if To4 (IP n) \<noteq> [] then To4 (IP n) else IP n); m = Mask n in
      if To4 (IP n) = [] \<and> length a \<noteq> 16 then ([], [])
      else if length m = 4 then (if length a \<noteq> 4 then ([], []) else (a, m))
      else if length m = 16 then (if length a = 4 then (a, drop 12 m) else (a, m))
      else ([], []))"

definition net_Contains :: "ipnet \<Rightarrow> ip \<Rightarrow> bool" where
  "net_Contains n a =
     (let (nn, m) = networkNumberAndMask n;
          x = (if To4 a \<noteq> [] then To4 a else a)
      in length x = length nn \<and> map2 (AND) nn m = map2 (AND) x m)"

section \<open>Values on 4-byte and 16-byte addresses\<close>

lemma length_v4InV6Prefix [simp]: "length v4InV6Prefix = 12"
  by (simp add: v4InV6Prefix_def)

lemma To4_len4 [simp]: "length a = 4 \<Longrightarrow> To4 a = a"
  by (simp add: To4_def)

lemma To4_Nil [simp]: "To4 [] = []"
  by (simp add: To4_def)

lemma length_To4: "length (To4 a) = 4 \<or> To4 a = []"
  by (auto simp: To4_def)

lemma To4_nonempty_length: "To4 a \<noteq> [] \<Longrightarrow> length (To4 a) = 4"
  using length_To4 [of a] by auto

lemma To4_idem [simp]: "To4 (To4 a) = To4 a"
  using length_To4 [of a] by auto

lemma To16_len16 [simp]: "length a = 16 \<Longrightarrow> To16 a = a"
  by (simp add: To16_def)

lemma To4_mapped [simp]: "length a = 4 \<Longrightarrow> To4 (v4InV6Prefix @ a) = a"
  by (simp add: To4_def)

lemma ip_Equal_same_length [simp]: "length a = length b \<Longrightarrow> ip_Equal a b \<longleftrightarrow> a = b"
  by (simp add: ip_Equal_def)

lemma ip_Equal_refl [simp]: "ip_Equal a a"
  by simp

lemma ip_Equal_sym: "ip_Equal a b \<longleftrightarrow> ip_Equal b a"
  by (auto simp: ip_Equal_def)

text \<open>
  An address of a family that the allocator iterates over: \<open>L\<close> bytes, and not an IPv4 address
  written in 16 bytes. In such a family \<open>Equal\<close> is equality of the slices.
\<close>

definition proper_ip :: "nat \<Rightarrow> ip \<Rightarrow> bool" where
  "proper_ip L a \<longleftrightarrow> length a = L \<and> (L = 4 \<or> (L = 16 \<and> To4 a = []))"

lemma proper_ip_length: "proper_ip L a \<Longrightarrow> length a = L"
  by (simp add: proper_ip_def)

lemma proper_ip_To4: "proper_ip L a \<Longrightarrow> To4 a = (if L = 4 then a else [])"
  by (auto simp: proper_ip_def)

section \<open>Prefix masks\<close>

lemma length_CIDRMask [simp]: "length (CIDRMask n l) = l"
  by (induction n l rule: CIDRMask.induct) auto

lemma byte_255: "(255 :: byte) = - 1"
  by simp

lemma hi_and: "k \<le> 8 \<Longrightarrow> (v :: byte) AND NOT (drop_bit k 255) = push_bit (8 - k) (drop_bit (8 - k) v)"
  by (rule bit_eqI) (auto simp: byte_255 bit_simps)

lemma hi_and_eq:
  assumes "k \<le> 8"
  shows "(v :: byte) AND NOT (drop_bit k 255) = w AND NOT (drop_bit k 255) \<longleftrightarrow>
    unat v div 2 ^ (8 - k) = unat w div 2 ^ (8 - k)"
proof -
  have "v AND NOT (drop_bit k 255) = w AND NOT (drop_bit k 255) \<longleftrightarrow>
     drop_bit (8 - k) v = drop_bit (8 - k) w"
    unfolding hi_and [OF assms]
  proof
    assume "push_bit (8 - k) (drop_bit (8 - k) v) = push_bit (8 - k) (drop_bit (8 - k) w)"
    then have "drop_bit (8 - k) (push_bit (8 - k) (drop_bit (8 - k) v)) =
       drop_bit (8 - k) (push_bit (8 - k) (drop_bit (8 - k) w))" by simp
    moreover have "drop_bit (8 - k) (push_bit (8 - k) (drop_bit (8 - k) x)) = drop_bit (8 - k) x" for x :: byte
      by (rule bit_eqI) (auto simp: bit_simps dest: bit_imp_le_length)
    ultimately show "drop_bit (8 - k) v = drop_bit (8 - k) w" by simp
  qed simp
  also have "\<dots> \<longleftrightarrow> unat (drop_bit (8 - k) v) = unat (drop_bit (8 - k) w)"
    by (simp only: word_unat_eq_iff)
  finally show ?thesis by (simp only: unat_drop_bit_eq drop_bit_eq_div [where 'a = nat])
qed

lemma CIDRMask_0: "CIDRMask 0 l = replicate l 0"
  by (induction l) (simp_all add: byte_255)

lemma map2_and_zeros: "length xs = l \<Longrightarrow> map2 (AND) xs (replicate l (0 :: byte)) = replicate l 0"
  by (induction xs arbitrary: l) auto

lemma high_div:
  assumes "e \<le> 8 * l" "s < 256 ^ l"
  shows "(x * 256 ^ l + s) div 2 ^ e = x * 2 ^ (8 * l - e) + s div (2 :: nat) ^ e"
proof -
  have "(256 :: nat) ^ l = 2 ^ (8 * l)" by (simp add: power_mult)
  also have "\<dots> = 2 ^ (8 * l - e) * 2 ^ e"
    using assms(1) by (simp flip: power_add)
  finally have "x * 256 ^ l + s = x * 2 ^ (8 * l - e) * 2 ^ e + s" by (simp only: mult.assoc)
  then show ?thesis by (simp only:) simp
qed

lemma low_div:
  assumes "e \<le> 8 * l" "s < 256 ^ l"
  shows "s div (2 :: nat) ^ e < 2 ^ (8 * l - e)"
proof -
  have "(256 :: nat) ^ l = 2 ^ (8 * l)" by (simp add: power_mult)
  with assms show ?thesis
    by (simp add: div_less_iff_less_mult flip: power_add)
qed

lemma mult_add_eq_iff:
  fixes x y s t b :: nat
  assumes "s < b" "t < b"
  shows "x * b + s = y * b + t \<longleftrightarrow> x = y \<and> s = t"
proof
  assume eq: "x * b + s = y * b + t"
  have "x = (x * b + s) div b" using assms by simp
  also have "\<dots> = y" using assms by (simp only: eq) simp
  finally show "x = y \<and> s = t" using eq by simp
qed simp

lemma prefix_mask_eq:
  "length xs = l \<Longrightarrow> length ys = l \<Longrightarrow> n \<le> 8 * l \<Longrightarrow>
   map2 (AND) xs (CIDRMask n l) = map2 (AND) ys (CIDRMask n l) \<longleftrightarrow>
   SetBytes xs div 2 ^ (8 * l - n) = SetBytes ys div 2 ^ (8 * l - n)"
proof (induction l arbitrary: n xs ys)
  case 0
  then show ?case by simp
next
  case (Suc l)
  obtain x xs' y ys' where s: "xs = x # xs'" "ys = y # ys'" and l: "length xs' = l" "length ys' = l"
    using Suc.prems(1,2) by (auto simp: length_Suc_conv)
  have small: "SetBytes xs' < 256 ^ l" "SetBytes ys' < 256 ^ l"
    using SetBytes_less [of xs'] SetBytes_less [of ys'] l by simp_all
  show ?case
  proof (cases "8 \<le> n")
    case True
    let ?e = "8 * l - (n - 8)"
    have e: "8 * Suc l - n = ?e" "?e \<le> 8 * l" using True Suc.prems(3) by simp_all
    have "n - 8 \<le> 8 * l" using Suc.prems(3) by simp
    note IH = Suc.IH [OF l this]
    have "map2 (AND) xs (CIDRMask n (Suc l)) = map2 (AND) ys (CIDRMask n (Suc l)) \<longleftrightarrow>
        x = y \<and> SetBytes xs' div 2 ^ ?e = SetBytes ys' div 2 ^ ?e"
      using True IH by (simp add: s byte_255)
    also have "\<dots> \<longleftrightarrow> unat x = unat y \<and> SetBytes xs' div 2 ^ ?e = SetBytes ys' div 2 ^ ?e"
      by (simp only: word_unat_eq_iff)
    also have "\<dots> \<longleftrightarrow> SetBytes xs div 2 ^ ?e = SetBytes ys div 2 ^ ?e"
      using small e(2) l by (simp only: s SetBytes_Cons high_div low_div mult_add_eq_iff)
    finally show ?thesis by (simp only: e(1))
  next
    case False
    let ?k = "8 - n"
    have e: "8 * Suc l - n = 8 * l + ?k" using False by simp
    have top: "(unat z * 256 ^ l + t) div 2 ^ (8 * l + ?k) = unat z div 2 ^ ?k"
      if "t < 256 ^ l" for z :: byte and t
      using high_div [OF order.refl that, of "unat z"] that
      by (simp add: power_add div_mult2_eq power_mult)
    have "SetBytes xs div 2 ^ (8 * Suc l - n) = unat x div 2 ^ ?k"
      "SetBytes ys div 2 ^ (8 * Suc l - n) = unat y div 2 ^ ?k"
      using small l by (simp_all only: e s SetBytes_Cons top)
    then show ?thesis
      using False l hi_and_eq [of n x y] by (simp add: s CIDRMask_0 map2_and_zeros)
  qed
qed

lemma top_bit: "(v :: byte) AND 128 \<noteq> 0 \<longleftrightarrow> bit v 7"
  using bit_iff_and_push_bit_not_eq_0 [of v 7] by simp

lemma leading_ones_shape:
  "k \<le> 8 \<Longrightarrow> \<exists>t \<le> k. leading_ones k v n = (n + t, push_bit t v) \<and> (\<forall>i < t. bit v (7 - i))"
proof (induction k arbitrary: v n)
  case 0
  then show ?case by simp
next
  case (Suc k)
  show ?case
  proof (cases "bit v 7")
    case True
    from Suc obtain t where t: "t \<le> k"
      "leading_ones k (push_bit 1 v) (Suc n) = (Suc n + t, push_bit t (push_bit 1 v))"
      "\<forall>i < t. bit (push_bit 1 v) (7 - i)" by (metis Suc_leD)
    have "bit v (7 - i)" if "i < Suc t" for i
    proof (cases i)
      case 0
      with True show ?thesis by simp
    next
      case (Suc i')
      with that t(1,3) \<open>Suc k \<le> 8\<close> have "bit (push_bit 1 v) (7 - i')" "i' < 7" by auto
      then have "bit v (7 - i' - 1)" by (simp only: bit_push_bit_iff)
      then show ?thesis using Suc by simp
    qed
    with t True show ?thesis
      by (intro exI [of _ "Suc t"]) (simp add: top_bit ac_simps)
  next
    case False
    then show ?thesis by (intro exI [of _ 0]) (simp add: top_bit)
  qed
qed

lemma leading_ones_mask:
  assumes "leading_ones 8 v n = (n', 0)" "v \<noteq> 255"
  shows "\<exists>k < 8. n' = n + k \<and> v = NOT (drop_bit k 255)"
proof -
  obtain t where t: "t \<le> 8" "n' = n + t" "push_bit t v = 0" "\<forall>i < t. bit v (7 - i)"
    using leading_ones_shape [of 8 v n] assms(1) by auto
  have bits: "bit v j \<longleftrightarrow> 8 - t \<le> j" if "j < 8" for j
  proof
    assume "bit v j"
    show "8 - t \<le> j"
    proof (rule ccontr)
      assume "\<not> 8 - t \<le> j"
      then have "bit (push_bit t v) (j + t)" using \<open>bit v j\<close> by (simp add: bit_simps)
      with t(3) show False by simp
    qed
  next
    assume "8 - t \<le> j"
    then have "7 - j < t" "7 - (7 - j) = j" using that by simp_all
    with t(4) show "bit v j" by metis
  qed
  have "v = NOT (drop_bit t 255)"
    by (rule bit_word_eqI) (auto simp: bits byte_255 bit_simps)
  moreover have "t \<noteq> 8"
  proof
    assume "t = 8"
    then have "v = 255" by (intro bit_word_eqI) (simp add: bits byte_255)
    with assms(2) show False by simp
  qed
  ultimately show ?thesis using t by (intro exI [of _ t]) simp
qed

lemma simpleMaskLength_CIDRMask:
  "simpleMaskLength_from a m = Some n \<Longrightarrow>
   \<exists>k. n = a + k \<and> k \<le> 8 * length m \<and> m = CIDRMask k (length m)"
proof (induction a m rule: simpleMaskLength_from.induct)
  case (1 n)
  then show ?case by simp
next
  case (2 a v m)
  show ?case
  proof (cases "v = 255")
    case True
    with 2 obtain k where "n = a + 8 + k" "k \<le> 8 * length m" "m = CIDRMask k (length m)"
      by auto
    with True show ?thesis by (intro exI [of _ "8 + k"]) simp
  next
    case False
    obtain n' v' where lo: "leading_ones 8 v a = (n', v')" by (cases "leading_ones 8 v a")
    with "2.prems" False have v': "v' = 0" and n: "n = n'" and z: "list_all (\<lambda>b. b = 0) m"
      by (auto split: if_splits)
    from leading_ones_mask [OF _ False] lo v' obtain k where
      k: "k < 8" "n' = a + k" "v = NOT (drop_bit k 255)" by blast
    have "m = replicate (length m) 0" using z by (induction m) auto
    with k n show ?thesis by (intro exI [of _ k]) (simp add: CIDRMask_0)
  qed
qed

lemma unat_hi_and:
  assumes "k \<le> 8"
  shows "unat ((v :: byte) AND NOT (drop_bit k 255)) = unat v div 2 ^ (8 - k) * 2 ^ (8 - k)"
proof -
  have "unat v div 2 ^ (8 - k) * 2 ^ (8 - k) \<le> unat v" by simp
  also have "unat v < 2 ^ 8" using unat_byte_less [of v] by simp
  finally have "unat v div 2 ^ (8 - k) * 2 ^ (8 - k) < 2 ^ 8" .
  moreover have "unat (push_bit (8 - k) (drop_bit (8 - k) v)) =
      take_bit 8 (push_bit (8 - k) (drop_bit (8 - k) (unat v)))"
    by (simp only: unsigned_push_bit_eq unat_drop_bit_eq) simp
  ultimately show ?thesis
    by (simp only: hi_and [OF assms] push_bit_eq_mult drop_bit_eq_div [where 'a = nat]
        take_bit_eq_mod mod_less)
qed

lemma unat_low_ones:
  assumes "k \<le> 8"
  shows "unat (drop_bit k (255 :: byte)) = 2 ^ (8 - k) - 1"
proof -
  have "k \<in> set [0..<9]" using assms by simp
  moreover have "\<forall>k \<in> set [0..<9]. 255 div 2 ^ k = 2 ^ (8 - k) - (1 :: nat)"
    by (simp add: upt_rec)
  ultimately have "255 div 2 ^ k = 2 ^ (8 - k) - (1 :: nat)" by blast
  moreover have "unat (drop_bit k (255 :: byte)) = 255 div 2 ^ k"
    by (simp only: unat_drop_bit_eq drop_bit_eq_div [where 'a = nat]) simp
  ultimately show ?thesis by simp
qed

lemma unat_hi_or:
  assumes "k \<le> 8"
  shows "unat ((v :: byte) OR drop_bit k 255) =
    unat v div 2 ^ (8 - k) * 2 ^ (8 - k) + (2 ^ (8 - k) - 1)"
proof -
  let ?d = "drop_bit k (255 :: byte)"
  let ?a = "v AND NOT ?d"
  have "v OR ?d = ?a OR ?d" by (rule bit_eqI) (auto simp: bit_simps)
  then have "unat (v OR ?d) = unat ?a OR unat ?d" by (simp only: unsigned_or_eq)
  also have "unat ?a AND unat ?d = unat (?a AND ?d)" by (simp only: unsigned_and_eq)
  then have "unat ?a OR unat ?d = unat ?a + unat ?d"
    by (intro disjunctive_add_eq_or [symmetric]) (simp add: and.assoc)
  finally show ?thesis using assms by (simp only: unat_hi_and unat_low_ones)
qed

lemma SetBytes_zeros [simp]: "SetBytes (replicate l 0) = 0"
  by (induction l) (simp_all add: SetBytes_Cons)

lemma SetBytes_ones: "SetBytes (replicate l 255) = 256 ^ l - 1"
proof (induction l)
  case 0
  then show ?case by simp
next
  case (Suc l)
  have "(1::nat) \<le> 256 ^ l" by simp
  with Suc show ?case by (simp add: SetBytes_Cons) 
qed

lemma map2_or_ones: "length xs = l \<Longrightarrow> map2 (\<lambda>i m. i OR NOT m) xs (replicate l (0 :: byte)) = replicate l 255"
  by (induction xs arbitrary: l) (auto simp: byte_255)

lemma high_split:
  assumes "e \<le> 8 * l" "s < 256 ^ l"
  shows "(x * 256 ^ l + s) div (2::nat) ^ e * 2 ^ e = x * 256 ^ l + s div 2 ^ e * 2 ^ e"
proof -
  have "(256 :: nat) ^ l = 2 ^ (8 * l)" by (simp add: power_mult)
  also have "\<dots> = 2 ^ (8 * l - e) * 2 ^ e"
    using assms(1) by (simp flip: power_add)
  finally have p: "2 ^ (8 * l - e) * 2 ^ e = (256 :: nat) ^ l" ..
  have "(x * 256 ^ l + s) div (2::nat) ^ e * 2 ^ e = (x * 2 ^ (8 * l - e) + s div (2 :: nat) ^ e) * 2 ^ e"
    by (simp only: high_div [OF assms])
  also have "\<dots> = x * (2 ^ (8 * l - e) * 2 ^ e) + s div 2 ^ e * 2 ^ e"
    by (simp only: add_mult_distrib mult.assoc)
  finally show ?thesis by (simp only: p)
qed

lemma prefix_mask_value:
  "length xs = l \<Longrightarrow> n \<le> 8 * l \<Longrightarrow>
   SetBytes (map2 (AND) xs (CIDRMask n l)) = SetBytes xs div 2 ^ (8 * l - n) * 2 ^ (8 * l - n) \<and>
   SetBytes (map2 (\<lambda>i m. i OR NOT m) xs (CIDRMask n l)) =
   SetBytes xs div 2 ^ (8 * l - n) * 2 ^ (8 * l - n) + (2 ^ (8 * l - n) - 1)"
proof (induction l arbitrary: n xs)
  case 0
  then show ?case by simp
next
  case (Suc l)
  note len = Suc.prems(1) and n = Suc.prems(2)
  obtain x t where s: "xs = x # t" and l: "length t = l"
    using len by (auto simp: length_Suc_conv)
  have small: "SetBytes t < 256 ^ l" using SetBytes_less [of t] l by simp
  show ?case
  proof (cases "8 \<le> n")
    case True
    let ?e = "8 * l - (n - 8)"
    have e: "8 * Suc l - n = ?e" "?e \<le> 8 * l" "n - 8 \<le> 8 * l" using True n by simp_all
    have cons: "SetBytes (map2 (AND) xs (CIDRMask n (Suc l))) =
          unat x * 256 ^ l + SetBytes (map2 (AND) t (CIDRMask (n - 8) l))"
        "SetBytes (map2 (\<lambda>i m. i OR NOT m) xs (CIDRMask n (Suc l))) =
          unat x * 256 ^ l + SetBytes (map2 (\<lambda>i m. i OR NOT m) t (CIDRMask (n - 8) l))"
      using True l by (simp_all add: s byte_255 SetBytes_Cons)
    have "SetBytes xs = unat x * 256 ^ l + SetBytes t" by (simp add: s l SetBytes_Cons)
    then show ?thesis
      by (simp only: cons Suc.IH [OF l e(3)] e(1) high_split [OF e(2) small] add.assoc)
  next
    case False
    let ?k = "8 - n"
    have e: "8 * Suc l - n = 8 * l + ?k" using False by simp
    have p: "(2::nat) ^ (8 * l + ?k) = 256 ^ l * 2 ^ ?k" by (simp add: power_add power_mult)
    have d: "SetBytes xs div 2 ^ (8 * l + ?k) = unat x div 2 ^ ?k"
      using small l by (simp add: s SetBytes_Cons p div_mult2_eq)
    have a: "SetBytes (map2 (AND) xs (CIDRMask n (Suc l))) = unat x div 2 ^ ?k * 2 ^ ?k * 256 ^ l"
      "SetBytes (map2 (\<lambda>i m. i OR NOT m) xs (CIDRMask n (Suc l))) =
       (unat x div 2 ^ ?k * 2 ^ ?k + (2 ^ ?k - 1)) * 256 ^ l + (256 ^ l - 1)"
      using False l by (simp_all add: s CIDRMask_0 map2_and_zeros map2_or_ones SetBytes_Cons
          SetBytes_ones unat_hi_and unat_hi_or)
    have one: "(1::nat) \<le> 256 ^ l" "(1::nat) \<le> 2 ^ ?k" by simp_all
    have "(2 ^ ?k - 1) * 256 ^ l + (256 ^ l - 1) = 2 ^ ?k * 256 ^ l - (1::nat)"
      using one by (simp add: diff_mult_distrib)
    then have b: "(unat x div 2 ^ ?k * 2 ^ ?k + (2 ^ ?k - 1)) * 256 ^ l + (256 ^ l - 1) =
        unat x div 2 ^ ?k * 2 ^ ?k * 256 ^ l + (2 ^ ?k * 256 ^ l - 1)"
      by (simp only: add_mult_distrib add.assoc)
    show ?thesis unfolding e a b d unfolding p by (simp add: ac_simps)
  qed
qed

end
