(* ===== verification/GoNetText.thy ===== *)
theory GoNetText
  imports GoNet
begin

text \<open>
  The textual side of Go's \<open>net\<close> package: \<open>IP.String\<close>, \<open>ParseIP\<close> and \<open>ParseCIDR\<close> (Go 1.13:
  leading zeros in an IPv4 octet are accepted). The main facts are the round trip of a dotted
  address through its text, and that a text containing a slash, or no dot and no colon, is no
  address.
\<close>

section \<open>Printing: IP.String\<close>

definition dotted :: "byte list \<Rightarrow> string" where
  "dotted p = Join (map (\<lambda>b. itoa (unat b)) p) ''.''"

definition hexString :: "byte list \<Rightarrow> string" where
  "hexString bs = concat (map (\<lambda>b. [hex_char (unat b div 16), hex_char (unat b mod 16)]) bs)"

text \<open>
  The longest run of zero groups: the code scans the eight groups, and after a longer run it
  continues behind the run. The 16 bytes are read as eight groups.
\<close>

fun groups :: "byte list \<Rightarrow> nat list" where
  "groups (a # b # bs) = (unat a * 256 + unat b) # groups bs"
| "groups _ = []"

fun longest_zeros :: "nat \<Rightarrow> nat \<Rightarrow> nat list \<Rightarrow> int \<Rightarrow> int \<Rightarrow> int \<times> int" where
  "longest_zeros 0 i gs e0 e1 = (e0, e1)"
| "longest_zeros (Suc fuel) i gs e0 e1 =
     (if 8 \<le> i then (e0, e1)
      else let j = i + length (takeWhile (\<lambda>g. g = 0) (drop i gs)) in
        if i < j \<and> e1 - e0 < int j - int i
        then longest_zeros fuel (Suc j) gs (int i) (int j)
        else longest_zeros fuel (Suc i) gs e0 e1)"

fun print_groups :: "nat \<Rightarrow> nat \<Rightarrow> nat list \<Rightarrow> int \<Rightarrow> int \<Rightarrow> string" where
  "print_groups 0 i gs e0 e1 = []"
| "print_groups (Suc fuel) i gs e0 e1 =
     (if 8 \<le> i then []
      else if int i = e0
      then '':'' @ '':'' @
           (if 8 \<le> e1 then []
            else appendHex (gs ! nat e1) @ print_groups fuel (Suc (nat e1)) gs e0 e1)
      else (if 0 < i then '':'' else []) @ appendHex (gs ! i)
           @ print_groups fuel (Suc i) gs e0 e1)"

definition String6 :: "ip \<Rightarrow> string" where
  "String6 p =
     (let gs = groups p; (e0, e1) = longest_zeros 8 0 gs (- 1) (- 1);
          (f0, f1) = (if e1 - e0 \<le> 1 then (- 1, - 1) else (e0, e1))
      in print_groups 8 0 gs f0 f1)"

definition ip_String :: "ip \<Rightarrow> string" where
  "ip_String p =
     (if p = [] then ''<nil>''
      else if To4 p \<noteq> [] then dotted (To4 p)
      else if length p \<noteq> 16 then ''?'' @ hexString p
      else String6 p)"

section \<open>Parsing: ParseIP and ParseCIDR\<close>

fun parse_octets :: "nat \<Rightarrow> nat \<Rightarrow> string \<Rightarrow> byte list option" where
  "parse_octets 0 i s = (if s = [] then Some [] else None)"
| "parse_octets (Suc k) i s =
     (if s = [] then None
      else if 0 < i \<and> hd s \<noteq> CHR ''.'' then None
      else let s' = (if 0 < i then tl s else s); (n, c, ok) = dtoi s' in
        if \<not> ok \<or> 255 < n then None
        else map_option (Cons (word_of_nat n)) (parse_octets k (Suc i) (drop c s')))"

text \<open>\<open>parseIPv4\<close> returns the 16-byte form (\<open>net.IPv4\<close>).\<close>

definition parseIPv4 :: "string \<Rightarrow> ip option" where
  "parseIPv4 s = map_option (\<lambda>p. v4InV6Prefix @ p) (parse_octets 4 0 s)"

text \<open>
  The loop of \<open>parseIPv6\<close>: \<open>out\<close> holds the bytes written so far (the code's \<open>ip[0..i)\<close>) and
  \<open>el\<close> the position of the ellipsis. At most eight rounds are made, since every round that goes
  on adds two bytes.
\<close>

fun parse_groups :: "nat \<Rightarrow> byte list \<Rightarrow> nat option \<Rightarrow> string \<Rightarrow>
    (byte list \<times> nat option \<times> string) option" where
  "parse_groups 0 out el s = Some (out, el, s)"
| "parse_groups (Suc fuel) out el s =
     (if 16 \<le> length out then Some (out, el, s)
      else let (n, c, ok) = xtoi s in
        if \<not> ok \<or> 65535 < n then None
        else if c < length s \<and> s ! c = CHR ''.''
        then (if el = None \<and> length out \<noteq> 12 then None
              else if 16 < length out + 4 then None
              else case parseIPv4 s of
                     None \<Rightarrow> None
                   | Some p \<Rightarrow> Some (out @ drop 12 p, el, []))
        else let out' = out @ [word_of_nat (n div 256), word_of_nat (n mod 256)]; s' = drop c s in
          if s' = [] then Some (out', el, [])
          else if hd s' \<noteq> CHR '':'' \<or> length s' = 1 then None
          else let s'' = tl s' in
            if hd s'' = CHR '':''
            then (if el \<noteq> None then None
                  else if tl s'' = [] then Some (out', Some (length out'), [])
                  else parse_groups fuel out' (Some (length out')) (tl s''))
            else parse_groups fuel out' el s'')"

definition parseIPv6 :: "string \<Rightarrow> ip option" where
  "parseIPv6 s =
     (let lead = HasPrefix s ''::''; s0 = (if lead then drop 2 s else s) in
      if lead \<and> s0 = [] then Some (replicate 16 0)
      else case parse_groups 8 [] (if lead then Some 0 else None) s0 of
             None \<Rightarrow> None
           | Some (out, el, s1) \<Rightarrow>
               if s1 \<noteq> [] then None
               else if length out < 16
               then (case el of
                       None \<Rightarrow> None
                     | Some e \<Rightarrow> Some (take e out @ replicate (16 - length out) 0 @ drop e out))
               else if el \<noteq> None then None else Some out)"

fun ParseIP_scan :: "string \<Rightarrow> string \<Rightarrow> ip" where
  "ParseIP_scan full [] = []"
| "ParseIP_scan full (c # s) =
     (if c = CHR ''.'' then (case parseIPv4 full of None \<Rightarrow> [] | Some p \<Rightarrow> p)
      else if c = CHR '':'' then (case parseIPv6 full of None \<Rightarrow> [] | Some p \<Rightarrow> p)
      else ParseIP_scan full s)"

definition ParseIP :: "string \<Rightarrow> ip" where
  "ParseIP s = ParseIP_scan s s"

text \<open>\<open>ParseCIDR\<close>: the address as written and the network it names.\<close>

definition ParseCIDR :: "string \<Rightarrow> (ip \<times> ipnet) option" where
  "ParseCIDR s =
     (let addr = takeWhile (\<lambda>c. c \<noteq> CHR ''/'') s; rest = drop (length addr) s in
      if rest = [] then None
      else let m = tl rest;
               (l, a) = (case parseIPv4 addr of
                           Some p \<Rightarrow> (4, p)
                         | None \<Rightarrow> (16, case parseIPv6 addr of None \<Rightarrow> [] | Some p \<Rightarrow> p));
               (n, i, ok) = dtoi m
           in if a = [] \<or> \<not> ok \<or> i \<noteq> length m \<or> 8 * l < n then None
              else let k = CIDRMask n l in
                Some (a, \<lparr>IP = ip_Mask a k, Mask = k\<rparr>))"

section \<open>The dotted round trip\<close>

lemma is_digit_dot [simp]: "\<not> is_digit CHR ''.''" "\<not> is_digit CHR ''/''" "\<not> is_digit CHR '':''"
  by (simp_all add: is_digit_def code_def)

lemma parse_octets_step:
  assumes "stops_number s"
  shows "parse_octets (Suc k) 0 (itoa (unat (b :: byte)) @ s) = map_option (Cons b) (parse_octets k 1 s)"
    and "parse_octets (Suc k) (Suc i) (CHR ''.'' # itoa (unat b) @ s) =
         map_option (Cons b) (parse_octets k (Suc (Suc i)) s)"
proof -
  have "unat b < big" using unat_byte_less [of b] by linarith
  then have d: "dtoi (itoa (unat b) @ s) = (unat b, length (itoa (unat b)), True)"
    using assms by (rule dtoi_itoa)
  have "unat b \<le> 255" using unat_byte_less [of b] by linarith
  then show "parse_octets (Suc k) 0 (itoa (unat b) @ s) = map_option (Cons b) (parse_octets k 1 s)"
    "parse_octets (Suc k) (Suc i) (CHR ''.'' # itoa (unat b) @ s) =
         map_option (Cons b) (parse_octets k (Suc (Suc i)) s)"
    by (simp_all add: d)
qed

lemma parse_octets_last:
  "parse_octets (Suc 0) (Suc i) (CHR ''.'' # itoa (unat (b :: byte))) = Some [b]"
  using parse_octets_step(2) [of "[]" 0 i b] by simp

lemma dotted4:
  "dotted [a, b, c, d] =
   itoa (unat a) @ ''.'' @ itoa (unat b) @ ''.'' @ itoa (unat c) @ ''.'' @ itoa (unat d)"
  by (simp add: dotted_def)

lemma parse_octets_dotted: "length p = 4 \<Longrightarrow> parse_octets 4 0 (dotted p) = Some p"
proof -
  assume "length p = 4"
  then obtain a b c d where p: "p = [a, b, c, d]"
    using length_4_cases by blast
  show "parse_octets 4 0 (dotted p) = Some p"
    by (simp add: p dotted4 numeral_eq_Suc parse_octets_step parse_octets_last
          del: parse_octets.simps(2))
qed

lemma ParseIP_scan_dot:
  assumes "\<forall>c \<in> set u. c \<noteq> CHR ''.'' \<and> c \<noteq> CHR '':''"
  shows "ParseIP_scan full (u @ CHR ''.'' # s) = (case parseIPv4 full of None \<Rightarrow> [] | Some p \<Rightarrow> p)"
  using assms by (induction u) auto

lemma itoa_no_dot: "c \<in> set (itoa n) \<Longrightarrow> c \<noteq> CHR ''.'' \<and> c \<noteq> CHR '':''"
  using itoa_digits [of c n] by auto

lemma ParseIP_dotted: "length p = 4 \<Longrightarrow> ParseIP (dotted p) = v4InV6Prefix @ p"
proof -
  assume l: "length p = 4"
  then obtain a b c d where p: "p = [a, b, c, d]"
    using length_4_cases by blast
  have "ParseIP (dotted p) = (case parseIPv4 (dotted p) of None \<Rightarrow> [] | Some p \<Rightarrow> p)"
    unfolding ParseIP_def p dotted4 by (simp add: ParseIP_scan_dot itoa_no_dot)
  then show ?thesis by (simp add: parseIPv4_def parse_octets_dotted [OF l])
qed

lemma ip_String_To4 [simp]: "To4 a \<noteq> [] \<Longrightarrow> ip_String a = dotted (To4 a)"
  by (auto simp: ip_String_def)

lemma ParseIP_String4 [go_text]: "length p = 4 \<Longrightarrow> ParseIP (ip_String p) = v4InV6Prefix @ p"
proof -
  assume l: "length p = 4"
  then have "p \<noteq> []" by auto
  with l show ?thesis by (simp add: ParseIP_dotted)
qed

lemma To4_ParseIP_String [go_text]: "To4 a \<noteq> [] \<Longrightarrow> To4 (ParseIP (ip_String a)) = To4 a"
  by (simp add: ParseIP_dotted To4_nonempty_length)

lemma ip_String_inj4:
  "length p = 4 \<Longrightarrow> length q = 4 \<Longrightarrow> ip_String p = ip_String q \<Longrightarrow> p = q"
  by (metis ParseIP_String4 same_append_eq)

section \<open>What is no address\<close>

text \<open>The bytes an address may contain: digits, hexadecimal digits, dots and colons.\<close>

definition addr_char :: "char \<Rightarrow> bool" where
  "addr_char c \<longleftrightarrow> hex_val c \<noteq> None \<or> c = CHR ''.'' \<or> c = CHR '':''"

lemma digit_addr_char: "is_digit c \<Longrightarrow> addr_char c"
  by (simp add: addr_char_def is_digit_def hex_val_def)

lemma slash_no_addr_char: "\<not> addr_char CHR ''/''"
  by (simp add: addr_char_def hex_val_def code_def)

lemma dtoi_from_chars:
  "dtoi_from n i s = (m, c, True) \<Longrightarrow>
   i \<le> c \<and> c \<le> i + length s \<and> (\<forall>x \<in> set (take (c - i) s). addr_char x)"
proof (induction n i s rule: dtoi_from.induct)
  case (1 n i)
  then show ?case by (auto split: if_splits)
next
  case (2 n i d s)
  show ?case
  proof (cases "is_digit d")
    case True
    with 2 have "Suc i \<le> c \<and> c \<le> Suc i + length s \<and> (\<forall>x \<in> set (take (c - Suc i) s). addr_char x)"
      by (auto simp: Let_def split: if_splits)
    then show ?thesis using digit_addr_char [OF True] by (auto simp: take_Cons' )
  next
    case False
    with 2 show ?thesis by (auto split: if_splits)
  qed
qed

lemma xtoi_from_chars:
  "xtoi_from n i s = (m, c, True) \<Longrightarrow>
   i \<le> c \<and> c \<le> i + length s \<and> (\<forall>x \<in> set (take (c - i) s). addr_char x)"
proof (induction n i s rule: xtoi_from.induct)
  case (1 n i)
  then show ?case by (auto split: if_splits)
next
  case (2 n i d s)
  show ?case
  proof (cases "hex_val d")
    case (Some v)
    with 2 have "Suc i \<le> c \<and> c \<le> Suc i + length s \<and> (\<forall>x \<in> set (take (c - Suc i) s). addr_char x)"
      by (auto simp: Let_def split: if_splits)
    moreover have "addr_char d" using Some by (simp add: addr_char_def)
    ultimately show ?thesis by (auto simp: take_Cons')
  next
    case None
    with 2 show ?thesis by (auto split: if_splits)
  qed
qed

lemma set_take_drop: "x \<in> set s \<Longrightarrow> x \<in> set (take c s) \<or> x \<in> set (drop c s)"
  by (metis Un_iff append_take_drop_id set_append)

lemma dtoi_chars:
  "dtoi s = (m, c, True) \<Longrightarrow> x \<in> set s \<Longrightarrow> addr_char x \<or> x \<in> set (drop c s)"
  using dtoi_from_chars [of 0 0 s m c] set_take_drop [of x s c] by (auto simp: dtoi_def)

lemma xtoi_chars:
  "xtoi s = (m, c, True) \<Longrightarrow> x \<in> set s \<Longrightarrow> addr_char x \<or> x \<in> set (drop c s)"
  using xtoi_from_chars [of 0 0 s m c] set_take_drop [of x s c] by (auto simp: xtoi_def)

lemma parse_octets_chars:
  "parse_octets k i s = Some p \<Longrightarrow> x \<in> set s \<Longrightarrow> addr_char x"
proof (induction k arbitrary: i s p)
  case 0
  then show ?case by (simp split: if_splits)
next
  case (Suc k)
  let ?s = "if 0 < i then tl s else s"
  obtain n c ok where d: "dtoi ?s = (n, c, ok)" by (cases "dtoi ?s") auto
  from Suc.prems(1) d have ok: "ok = True" and dot: "0 < i \<longrightarrow> s \<noteq> [] \<and> hd s = CHR ''.''"
    and rest: "\<exists>q. parse_octets k (Suc i) (drop c ?s) = Some q"
    by (auto simp: Let_def split: if_splits)
  have "x \<in> set ?s \<or> x = CHR ''.''"
    using Suc.prems(2) dot by (cases s) auto
  moreover have "addr_char x" if "x \<in> set ?s"
    using dtoi_chars [OF d [unfolded ok] that] rest Suc.IH by blast
  ultimately show ?case by (auto simp: addr_char_def)
qed

lemma parseIPv4_chars: "parseIPv4 s = Some p \<Longrightarrow> x \<in> set s \<Longrightarrow> addr_char x"
  by (auto simp: parseIPv4_def intro: parse_octets_chars)

lemma parse_groups_chars:
  "parse_groups k out el s = Some (out', el', s') \<Longrightarrow> x \<in> set s \<Longrightarrow>
   addr_char x \<or> x \<in> set s'"
proof (induction k arbitrary: out el s)
  case 0
  then show ?case by simp
next
  case (Suc k)
  obtain n c ok where d: "xtoi s = (n, c, ok)" by (cases "xtoi s") auto
  show ?case
  proof (cases "16 \<le> length out \<or> c < length s \<and> s ! c = CHR ''.''")
    case True
    with Suc.prems d show ?thesis
      by (auto simp: Let_def intro: parseIPv4_chars split: if_splits option.splits)
  next
    case False
    with Suc.prems(1) d have ok: "ok = True" by (auto simp: Let_def split: if_splits)
    consider "addr_char x" | "x \<in> set (drop c s)"
      using xtoi_chars [OF d [unfolded ok] Suc.prems(2)] by blast
    then show ?thesis
    proof cases
      case 1
      then show ?thesis ..
    next
      case 2
      let ?out = "out @ [word_of_nat (n div 256), word_of_nat (n mod 256)]"
      from Suc.prems(1) False d ok have step:
        "(let w = drop c s in
          if w = [] then Some (?out, el, [])
          else if hd w \<noteq> CHR '':'' \<or> length w = 1 then None
          else let v = tl w in
            if hd v = CHR '':''
            then (if el \<noteq> None then None
                  else if tl v = [] then Some (?out, Some (length ?out), [])
                  else parse_groups k ?out (Some (length ?out)) (tl v))
            else parse_groups k ?out el v) = Some (out', el', s')"
        by (auto simp: Let_def split: if_splits)
      obtain w1 v where w: "drop c s = w1 # v" using 2 by (cases "drop c s") auto
      with step have v: "w1 = CHR '':''" "v \<noteq> []" by (auto simp: Let_def split: if_splits)
      then obtain v1 u where u: "v = v1 # u" by (cases v) auto
      have x: "x = CHR '':'' \<or> x = v1 \<or> x \<in> set u" using 2 w v u by auto
      show ?thesis
      proof (cases "v1 = CHR '':''")
        case True
        with step w v u have "u = [] \<or>
            parse_groups k ?out (Some (length ?out)) u = Some (out', el', s')"
          by (simp add: Let_def split: if_splits)
        with x True Suc.IH show ?thesis by (auto simp: addr_char_def)
      next
        case False
        with step w v u have "parse_groups k ?out el v = Some (out', el', s')"
          by (simp add: Let_def)
        with x u Suc.IH [of ?out el v] show ?thesis by (auto simp: addr_char_def)
      qed
    qed
  qed
qed


lemma parseIPv6_chars:
  assumes "parseIPv6 s = Some p" "x \<in> set s"
  shows "addr_char x"
proof -
  let ?lead = "HasPrefix s ''::''"
  let ?s = "if ?lead then drop 2 s else s"
  have x: "x = CHR '':'' \<or> x \<in> set ?s"
    using assms(2) by (auto simp: HasPrefix_iff)
  moreover have "addr_char x" if "x \<in> set ?s"
  proof -
    have "?s \<noteq> []" using that by auto
    with assms(1) obtain out el where
      "parse_groups 8 [] (if ?lead then Some 0 else None) ?s = Some (out, el, [])"
      by (auto simp: parseIPv6_def Let_def split: option.splits if_splits)
    from parse_groups_chars [OF this that] show ?thesis by simp
  qed
  ultimately show ?thesis by (auto simp: addr_char_def)
qed

lemma ParseIP_scan_cases:
  "ParseIP_scan full s = [] \<or> parseIPv4 full = Some (ParseIP_scan full s) \<or>
   parseIPv6 full = Some (ParseIP_scan full s)"
  by (induction full s rule: ParseIP_scan.induct) (auto split: option.splits)

lemma ParseIP_chars: "ParseIP s \<noteq> [] \<Longrightarrow> x \<in> set s \<Longrightarrow> addr_char x"
  using ParseIP_scan_cases [of s s] parseIPv4_chars parseIPv6_chars
  by (auto simp: ParseIP_def)

lemma ParseIP_slash [simp]: "CHR ''/'' \<in> set s \<Longrightarrow> ParseIP s = []"
  using ParseIP_chars slash_no_addr_char by blast

lemma ParseIP_Nil [simp]: "ParseIP [] = []"
  by (simp add: ParseIP_def)

section \<open>The characters of a printed address\<close>

definition text_char :: "char \<Rightarrow> bool" where
  "text_char c \<longleftrightarrow> addr_char c \<or> c \<in> set ''<nil>?''"

lemma addr_char_seps [simp]: "addr_char CHR ''.''" "addr_char CHR '':''"
  by (simp_all add: addr_char_def)

lemma Join_chars: "c \<in> set (Join ws sep) \<Longrightarrow> c \<in> set sep \<or> (\<exists>w \<in> set ws. c \<in> set w)"
  by (induction ws sep rule: Join.induct) auto

lemma hex_char_addr: "n < 16 \<Longrightarrow> addr_char (hex_char n)"
  by (simp add: addr_char_def hex_val_hex_char)

lemma appendHex_chars: "c \<in> set (appendHex n) \<Longrightarrow> addr_char c"
proof (induction n rule: appendHex.induct)
  case (1 n)
  then show ?case
    by (cases "n < 16") (auto simp: appendHex.simps [of n] hex_char_addr)
qed

lemma print_groups_chars: "c \<in> set (print_groups k i gs e0 e1) \<Longrightarrow> addr_char c"
proof (induction k arbitrary: i)
  case 0
  then show ?case by simp
next
  case (Suc k)
  show ?case
    using Suc.prems Suc.IH by (auto simp: appendHex_chars split: if_splits)
qed

lemma ip_String_chars:
  assumes "c \<in> set (ip_String a)"
  shows "text_char c"
proof -
  have dots: "addr_char c" if "c \<in> set (Join (map (\<lambda>b. itoa (unat (b :: byte))) p) ''.'')" for p
    using Join_chars [OF that] by (auto dest: itoa_digits digit_addr_char)
  consider "a = []" | "a \<noteq> []" "To4 a \<noteq> []" | "a \<noteq> []" "To4 a = []" "length a \<noteq> 16"
    | "a \<noteq> []" "To4 a = []" "length a = 16" by blast
  then show ?thesis
  proof cases
    case 1
    with assms show ?thesis by (auto simp: ip_String_def text_char_def)
  next
    case 2
    with assms dots show ?thesis by (auto simp: ip_String_def dotted_def text_char_def)
  next
    case 3
    have "unat b div 16 < 16" "unat b mod 16 < 16" for b :: byte
      using unat_byte_less [of b] by (auto intro: less_mult_imp_div_less)
    with 3 assms show ?thesis by (auto simp: ip_String_def hexString_def text_char_def hex_char_addr)
  next
    case 4
    with assms have "addr_char c"
      by (auto simp: ip_String_def String6_def Let_def split: prod.splits dest: print_groups_chars)
    then show ?thesis by (simp add: text_char_def)
  qed
qed

lemma ip_String_no_slash: "CHR ''/'' \<notin> set (ip_String a)"
  using ip_String_chars [of "CHR ''/''" a] slash_no_addr_char by (auto simp: text_char_def)

lemma ip_String_no_underscore: "CHR ''_'' \<notin> set (ip_String a)"
  using ip_String_chars [of "CHR ''_''" a] by (auto simp: text_char_def addr_char_def hex_val_def code_def)

end
