(* ===== verification/CidrUtil.thy ===== *)
theory CidrUtil
  imports GoNetText
begin

text \<open>
  The address arithmetic of the vendored CNI plugins (\<open>plugins/pkg/ip/cidr.go\<close>): an address is
  read as a big-endian number, and the successor is written back in the shortest form. The main
  fact is that \<open>NextIP\<close> is the successor inside an address family as long as the leading byte
  is not 0, which is the condition the range theorems carry.
\<close>

definition ipToInt :: "ip \<Rightarrow> nat" where
  "ipToInt a = (if To4 a \<noteq> [] then SetBytes (To4 a) else SetBytes (To16 a))"

definition intToIP :: "nat \<Rightarrow> ip" where
  "intToIP i = Bytes i"

definition NextIP :: "ip \<Rightarrow> ip" where
  "NextIP a = intToIP (ipToInt a + 1)"

text \<open>\<open>big.Int.Bytes\<close> drops the sign, so what comes before address 0 is address 1.\<close>

definition PrevIP :: "ip \<Rightarrow> ip" where
  "PrevIP a = intToIP (if ipToInt a = 0 then 1 else ipToInt a - 1)"

definition Network :: "ipnet \<Rightarrow> ipnet" where
  "Network ipn = \<lparr>IP = ip_Mask (IP ipn) (Mask ipn), Mask = Mask ipn\<rparr>"

text \<open>\<open>big.Int.Cmp\<close>: -1, 0 or 1.\<close>

definition Cmp :: "ip \<Rightarrow> ip \<Rightarrow> int" where
  "Cmp a b =
     (let aa = ipToInt a; bb = ipToInt b in if aa < bb then - 1 else if aa = bb then 0 else 1)"

lemma Cmp_less [simp]: "Cmp a b < 0 \<longleftrightarrow> ipToInt a < ipToInt b"
  by (simp add: Cmp_def Let_def)

lemma Cmp_greater [simp]: "0 < Cmp a b \<longleftrightarrow> ipToInt b < ipToInt a"
  by (simp add: Cmp_def Let_def)

lemma ipToInt_proper [go_bytes]: "proper_ip L a \<Longrightarrow> ipToInt a = SetBytes a"
  by (auto simp: ipToInt_def proper_ip_def)

lemma ipToInt_To4 [simp]: "To4 a \<noteq> [] \<Longrightarrow> ipToInt (To4 a) = ipToInt a"
  by (simp add: ipToInt_def)

lemma proper_ip_eqI:
  "proper_ip L a \<Longrightarrow> proper_ip L b \<Longrightarrow> ipToInt a = ipToInt b \<Longrightarrow> a = b"
  by (auto simp: ipToInt_proper proper_ip_length intro: SetBytes_inj)

text \<open>A 16-byte address with a leading byte other than 0 is not an IPv4 address in 16 bytes.\<close>

lemma To4_big16:
  assumes "length a = 16" "256 ^ 15 \<le> SetBytes a"
  shows "To4 a = []"
proof (rule ccontr)
  assume "To4 a \<noteq> []"
  with assms(1) have "take 12 a = v4InV6Prefix" by (auto simp: To4_def split: if_splits)
  then have "hd a = 0" "a \<noteq> []"
    using assms(1) by (cases a; auto simp: v4InV6Prefix_def numeral_eq_Suc)+
  then obtain t where a: "a = 0 # t" by (cases a) auto
  then have "SetBytes a = SetBytes t" by (simp add: SetBytes_Cons)
  also have "\<dots> < 256 ^ 15" using SetBytes_less [of t] a assms(1) by simp
  finally show False using assms(2) by simp
qed

lemma proper_ipI:
  "L = 4 \<or> L = 16 \<Longrightarrow> length a = L \<Longrightarrow> 256 ^ (L - 1) \<le> SetBytes a \<Longrightarrow> proper_ip L a"
  using To4_big16 [of a] by (auto simp: proper_ip_def)

lemma NextIP_proper:
  assumes "proper_ip L a" "256 ^ (L - 1) \<le> ipToInt a" "ipToInt a + 1 < 256 ^ L"
  shows "proper_ip L (NextIP a)" "ipToInt (NextIP a) = ipToInt a + 1"
proof -
  have L: "L = 4 \<or> L = 16" using assms(1) by (auto simp: proper_ip_def)
  have len: "length (NextIP a) = L"
    using assms(2,3) L length_Bytes [of "L - 1" "ipToInt a + 1"]
    by (auto simp: NextIP_def intToIP_def)
  have val: "SetBytes (NextIP a) = ipToInt a + 1"
    by (simp add: NextIP_def intToIP_def)
  show p: "proper_ip L (NextIP a)"
    using L len assms(2) by (intro proper_ipI) (simp_all add: val)
  show "ipToInt (NextIP a) = ipToInt a + 1"
    using ipToInt_proper [OF p] val by simp
qed

text \<open>\<open>PrevIP\<close> goes back where \<open>NextIP\<close> came from, inside an address family.\<close>

lemma PrevIP_NextIP:
  assumes "proper_ip L a" "256 ^ (L - 1) \<le> ipToInt a" "ipToInt a + 1 < 256 ^ L"
  shows "PrevIP (NextIP a) = a"
proof -
  have "PrevIP (NextIP a) = Bytes (ipToInt a)" using NextIP_proper(2) [OF assms] by (simp add: PrevIP_def intToIP_def)
  moreover have "Bytes (ipToInt a) = a"
  proof (rule SetBytes_inj)
    show "length (Bytes (ipToInt a)) = length a"
      using assms length_Bytes [of "L - 1" "ipToInt a"] by (auto simp: proper_ip_def)
    show "SetBytes (Bytes (ipToInt a)) = SetBytes a" using ipToInt_proper [OF assms(1)] by simp
  qed
  ultimately show ?thesis by simp
qed

end
