(* ===== verification/AllocRange.thy ===== *)
theory AllocRange
  imports CidrUtil
begin

text \<open>
  Address ranges and range sets (\<open>pkg/ipametcd/backend/allocator/range.go\<close>,
  \<open>range_set.go\<close>, the types of \<open>config.go\<close>). A \<open>Range\<close> is a record with the code's fields, a
  \<open>RangeSet\<close> a list of ranges; a method that fills in fields returns the new record or the error.
  Logging is left out. The lemmas characterise \<open>Contains\<close> and \<open>Overlaps\<close> on well-formed ranges
  as membership in and intersection of intervals, and give what \<open>Canonicalize\<close> establishes.
\<close>

record range =
  RangeStart :: ip
  RangeEnd :: ip
  Subnet :: ipnet
  Gateway :: ip

type_synonym rangeset = "range list"

definition canonicalizeIP :: "ip \<Rightarrow> go_error + ip" where
  "canonicalizeIP a =
     (if To4 a \<noteq> [] then Inr (To4 a)
      else if To16 a \<noteq> [] then Inr (To16 a)
      else Inl (Errorf ''IP %s not v4 nor v6'' [ip_String a]))"

definition Range_Contains :: "range \<Rightarrow> ip \<Rightarrow> bool" where
  "Range_Contains r a =
     (case canonicalizeIP a of
        Inl _ \<Rightarrow> False
      | Inr addr \<Rightarrow>
          if length addr \<noteq> length (IP (Subnet r)) then False
          else if \<not> net_Contains (Subnet r) addr then False
          else if RangeStart r \<noteq> [] \<and> Cmp addr (RangeStart r) < 0 then False
          else if RangeEnd r \<noteq> [] \<and> Cmp addr (RangeEnd r) > 0 then False
          else True)"

definition Range_Overlaps :: "range \<Rightarrow> range \<Rightarrow> bool" where
  "Range_Overlaps r r1 =
     (if length (RangeStart r) \<noteq> length (RangeStart r1) then False
      else Range_Contains r (RangeStart r1) \<or> Range_Contains r (RangeEnd r1)
         \<or> Range_Contains r1 (RangeStart r) \<or> Range_Contains r1 (RangeEnd r))"

definition Range_String :: "range \<Rightarrow> string" where
  "Range_String r = ip_String (RangeStart r) @ ''-'' @ ip_String (RangeEnd r)"

definition ipnet_String :: "ipnet \<Rightarrow> string" where
  "ipnet_String n =
     (let (nn, m) = networkNumberAndMask n in
      if nn = [] \<or> m = [] then ''<nil>''
      else case simpleMaskLength_from 0 m of
             None \<Rightarrow> ip_String nn @ ''/'' @ hexString m
           | Some l \<Rightarrow> ip_String nn @ ''/'' @ itoa l)"

text \<open>\<open>lastIP\<close>: all host bits set, one less for IPv4. The code indexes the mask by the address.\<close>

definition lastIP :: "ipnet \<Rightarrow> ip" where
  "lastIP n =
     (let e = map2 (\<lambda>i m. i OR NOT m) (IP n) (Mask n)
      in if To4 (IP n) \<noteq> [] then e[3 := e ! 3 - 1] else e)"

text \<open>\<open>Canonicalize\<close>, in the code's order: subnet, gateway, start, end.\<close>

definition Canonicalize_subnet :: "range \<Rightarrow> go_error + range" where
  "Canonicalize_subnet r =
     (case canonicalizeIP (IP (Subnet r)) of
        Inl e \<Rightarrow> Inl e
      | Inr a \<Rightarrow>
          let r = r\<lparr>Subnet := (Subnet r)\<lparr>IP := a\<rparr>\<rparr>;
              (ones, masklen) = mask_Size (Mask (Subnet r)) in
          if ones > masklen - 2
          then Inl (Errorf ''Network %s too small to allocate from'' [ipnet_String (Subnet r)])
          else if length (IP (Subnet r)) \<noteq> length (Mask (Subnet r))
          then Inl (Errorf ''IPNet IP and Mask version mismatch'' [])
          else let networkIP = ip_Mask (IP (Subnet r)) (Mask (Subnet r)) in
            if \<not> ip_Equal (IP (Subnet r)) networkIP
            then Inl (Errorf ''Network has host bits set. For a subnet mask of length %d the network address is %s''
                   [itoa (nat ones), ip_String networkIP])
            else Inr r)"

definition Canonicalize_gateway :: "range \<Rightarrow> go_error + range" where
  "Canonicalize_gateway r =
     (if Gateway r = [] then Inr (r\<lparr>Gateway := NextIP (IP (Subnet r))\<rparr>)
      else case canonicalizeIP (Gateway r) of
             Inl e \<Rightarrow> Inl e
           | Inr g \<Rightarrow> Inr (r\<lparr>Gateway := g\<rparr>))"

definition Canonicalize_start :: "range \<Rightarrow> go_error + range" where
  "Canonicalize_start r =
     (if RangeStart r = [] then Inr (r\<lparr>RangeStart := NextIP (IP (Subnet r))\<rparr>)
      else case canonicalizeIP (RangeStart r) of
             Inl e \<Rightarrow> Inl e
           | Inr a \<Rightarrow>
               let r = r\<lparr>RangeStart := a\<rparr> in
               if \<not> Range_Contains r (RangeStart r)
               then Inl (Errorf ''RangeStart %s not in network %s''
                      [ip_String (RangeStart r), ipnet_String (Subnet r)])
               else Inr r)"

definition Canonicalize_end :: "range \<Rightarrow> go_error + range" where
  "Canonicalize_end r =
     (if RangeEnd r = [] then Inr (r\<lparr>RangeEnd := lastIP (Subnet r)\<rparr>)
      else case canonicalizeIP (RangeEnd r) of
             Inl e \<Rightarrow> Inl e
           | Inr a \<Rightarrow>
               let r = r\<lparr>RangeEnd := a\<rparr> in
               if \<not> Range_Contains r (RangeEnd r)
               then Inl (Errorf ''RangeEnd %s not in network %s''
                      [ip_String (RangeEnd r), ipnet_String (Subnet r)])
               else Inr r)"

definition Range_Canonicalize :: "range \<Rightarrow> go_error + range" where
  "Range_Canonicalize r =
     (case Canonicalize_subnet r of
        Inl e \<Rightarrow> Inl e
      | Inr r \<Rightarrow>
          (case Canonicalize_gateway r of
             Inl e \<Rightarrow> Inl e
           | Inr r \<Rightarrow>
               (case Canonicalize_start r of
                  Inl e \<Rightarrow> Inl e
                | Inr r \<Rightarrow> Canonicalize_end r)))"

section \<open>Range sets\<close>

definition RangeSet_String :: "rangeset \<Rightarrow> string" where
  "RangeSet_String s = Join (map Range_String s) '',''"

fun range_scan :: "rangeset \<Rightarrow> ip \<Rightarrow> range option" where
  "range_scan [] a = None"
| "range_scan (r # rs) a = (if Range_Contains r a then Some r else range_scan rs a)"

definition RangeFor :: "rangeset \<Rightarrow> ip \<Rightarrow> go_error + range" where
  "RangeFor s addr =
     (case canonicalizeIP addr of
        Inl e \<Rightarrow> Inl e
      | Inr a \<Rightarrow>
          (case range_scan s a of
             Some r \<Rightarrow> Inr r
           | None \<Rightarrow> Inl (Errorf ''%s not in range set %s'' [ip_String a, RangeSet_String s])))"

definition RangeSet_Contains :: "rangeset \<Rightarrow> ip \<Rightarrow> bool" where
  "RangeSet_Contains s addr = (case RangeFor s addr of Inl _ \<Rightarrow> False | Inr _ \<Rightarrow> True)"

definition RangeSet_Overlaps :: "rangeset \<Rightarrow> rangeset \<Rightarrow> bool" where
  "RangeSet_Overlaps s p1 = list_ex (\<lambda>r. list_ex (\<lambda>r1. Range_Overlaps r r1) p1) s"

text \<open>\<open>RangeSet.Canonicalize\<close>: every range in turn (\<open>fam\<close> is set by the first), then every pair.\<close>

fun canonicalize_ranges :: "nat option \<Rightarrow> rangeset \<Rightarrow> go_error + rangeset" where
  "canonicalize_ranges fam [] = Inr []"
| "canonicalize_ranges fam (r # rs) =
     (case Range_Canonicalize r of
        Inl e \<Rightarrow> Inl e
      | Inr r' \<Rightarrow>
          (let l = length (RangeStart r') in
           if fam \<noteq> None \<and> fam \<noteq> Some l then Inl (Errorf ''mixed address families'' [])
           else case canonicalize_ranges (Some (case fam of None \<Rightarrow> l | Some f \<Rightarrow> f)) rs of
                  Inl e \<Rightarrow> Inl e
                | Inr rs' \<Rightarrow> Inr (r' # rs')))"

fun first_overlap :: "range \<Rightarrow> rangeset \<Rightarrow> range option" where
  "first_overlap r1 [] = None"
| "first_overlap r1 (r2 # rs) = (if Range_Overlaps r1 r2 then Some r2 else first_overlap r1 rs)"

fun overlap_check :: "rangeset \<Rightarrow> go_error + unit" where
  "overlap_check [] = Inr ()"
| "overlap_check (r1 # rs) =
     (case first_overlap r1 rs of
        Some r2 \<Rightarrow> Inl (Errorf ''subnets %s and %s overlap'' [Range_String r1, Range_String r2])
      | None \<Rightarrow> overlap_check rs)"

definition RangeSet_Canonicalize :: "rangeset \<Rightarrow> go_error + rangeset" where
  "RangeSet_Canonicalize s =
     (if s = [] then Inl (Errorf ''empty range set'' [])
      else case canonicalize_ranges None s of
             Inl e \<Rightarrow> Inl e
           | Inr s' \<Rightarrow> (case overlap_check s' of Inl e \<Rightarrow> Inl e | Inr _ \<Rightarrow> Inr s'))"

section \<open>Canonical addresses and subnets\<close>

definition canon :: "ip \<Rightarrow> ip" where
  "canon a = (if To4 a \<noteq> [] then To4 a else To16 a)"

lemma canonicalizeIP_canon:
  "canonicalizeIP a =
   (if canon a = [] then Inl (Errorf ''IP %s not v4 nor v6'' [ip_String a]) else Inr (canon a))"
  by (auto simp: canonicalizeIP_def canon_def)

lemma canon_cases: "canon a = [] \<or> proper_ip 4 (canon a) \<or> proper_ip 16 (canon a)"
  using length_To4 [of a] by (auto simp: canon_def proper_ip_def To16_def)

lemma canon_proper [simp]: "proper_ip L a \<Longrightarrow> canon a = a"
  by (auto simp: canon_def proper_ip_def)

lemma canon_Nil [simp]: "canon [] = []"
  by (simp add: canon_def To16_def)

lemma canon_idem [simp]: "canon (canon a) = canon a"
  using canon_cases [of a] canon_proper canon_Nil by metis

lemma ipToInt_canon [simp]: "ipToInt (canon a) = ipToInt a"
  by (auto simp: canon_def ipToInt_def To16_def)

lemma proper_ip_Nil [simp]: "\<not> proper_ip L []"
  by (auto simp: proper_ip_def)

lemma proper_ip_nonempty [simp]: "proper_ip L a \<Longrightarrow> a \<noteq> []"
  by auto

lemma proper_ip_unique: "proper_ip L a \<Longrightarrow> proper_ip M a \<Longrightarrow> L = M"
  by (simp add: proper_ip_def)

text \<open>A subnet of family \<open>L\<close> with a prefix mask; \<open>host_bits\<close> is the size of its host part.\<close>

definition wf_subnet :: "nat \<Rightarrow> ipnet \<Rightarrow> bool" where
  "wf_subnet L n \<longleftrightarrow>
     proper_ip L (IP n) \<and> length (Mask n) = L \<and> simpleMaskLength_from 0 (Mask n) \<noteq> None"

definition host_bits :: "ipnet \<Rightarrow> nat" where
  "host_bits n = 8 * length (Mask n) - the (simpleMaskLength_from 0 (Mask n))"

lemma wf_subnet_mask:
  assumes "wf_subnet L n"
  obtains k where "k \<le> 8 * L" "Mask n = CIDRMask k L" "host_bits n = 8 * L - k"
proof -
  from assms obtain k where k: "simpleMaskLength_from 0 (Mask n) = Some k" "length (Mask n) = L"
    by (auto simp: wf_subnet_def)
  with simpleMaskLength_CIDRMask [of 0 "Mask n" k] that [of k] show thesis
    by (simp add: host_bits_def)
qed

lemma net_Contains_wf:
  assumes "wf_subnet L n" "proper_ip L a"
  shows "net_Contains n a \<longleftrightarrow>
    ipToInt (IP n) div 2 ^ host_bits n = ipToInt a div 2 ^ host_bits n"
proof -
  from assms(1) obtain k where k: "k \<le> 8 * L" "Mask n = CIDRMask k L" "host_bits n = 8 * L - k"
    by (rule wf_subnet_mask)
  have p: "proper_ip L (IP n)" using assms(1) by (simp add: wf_subnet_def)
  have nm: "networkNumberAndMask n = (IP n, Mask n)"
    using p k(2) by (auto simp: networkNumberAndMask_def proper_ip_def)
  have "net_Contains n a \<longleftrightarrow> map2 (AND) (IP n) (CIDRMask k L) = map2 (AND) a (CIDRMask k L)"
    using p assms(2) unfolding net_Contains_def nm k(2) by (auto simp: proper_ip_def)
  also have "\<dots> \<longleftrightarrow> SetBytes (IP n) div 2 ^ (8 * L - k) = SetBytes a div 2 ^ (8 * L - k)"
    using p assms(2) k(1) by (intro prefix_mask_eq) (simp_all add: proper_ip_length)
  finally show ?thesis using p assms(2) k(3) by (simp add: ipToInt_proper)
qed

section \<open>Well-formed ranges\<close>

text \<open>
  The ranges the iterator is made for: one address family, both ends in the subnet, start not
  after end, and a leading byte other than 0 (\<open>NextIP\<close> drops leading zero bytes).
\<close>

definition wf_range :: "nat \<Rightarrow> range \<Rightarrow> bool" where
  "wf_range L r \<longleftrightarrow>
     wf_subnet L (Subnet r) \<and> proper_ip L (RangeStart r) \<and> proper_ip L (RangeEnd r) \<and>
     256 ^ (L - 1) \<le> ipToInt (RangeStart r) \<and> ipToInt (RangeStart r) \<le> ipToInt (RangeEnd r) \<and>
     net_Contains (Subnet r) (RangeStart r) \<and> net_Contains (Subnet r) (RangeEnd r)"

lemma wf_range_simps:
  assumes "wf_range L r"
  shows "proper_ip L (RangeStart r)" "proper_ip L (RangeEnd r)" "wf_subnet L (Subnet r)"
    "256 ^ (L - 1) \<le> ipToInt (RangeStart r)" "ipToInt (RangeStart r) \<le> ipToInt (RangeEnd r)"
  using assms by (simp_all add: wf_range_def)

definition in_range :: "nat \<Rightarrow> range \<Rightarrow> ip \<Rightarrow> bool" where
  "in_range L r a \<longleftrightarrow> proper_ip L (canon a) \<and>
     ipToInt (RangeStart r) \<le> ipToInt a \<and> ipToInt a \<le> ipToInt (RangeEnd r)"

lemma Range_Contains_wf:
  assumes "wf_range L r"
  shows "Range_Contains r a \<longleftrightarrow> in_range L r a"
proof (cases "proper_ip L (canon a)")
  case False
  have "length (IP (Subnet r)) = L"
    using assms by (auto simp: wf_range_def wf_subnet_def proper_ip_length)
  moreover have "canon a = [] \<or> length (canon a) \<noteq> L"
    using False canon_cases [of a] by (auto simp: proper_ip_def)
  ultimately show ?thesis using False
    by (auto simp: Range_Contains_def in_range_def canonicalizeIP_canon)
next
  case True
  let ?d = "2 ^ host_bits (Subnet r)" and ?n = "ipToInt (IP (Subnet r))"
  note w = wf_range_simps [OF assms]
  have len: "length (IP (Subnet r)) = L" "length (canon a) = L"
    using assms True by (auto simp: wf_range_def wf_subnet_def proper_ip_length)
  have ends: "?n div ?d = ipToInt (RangeStart r) div ?d" "?n div ?d = ipToInt (RangeEnd r) div ?d"
    using assms w by (simp_all add: wf_range_def net_Contains_wf)
  have "net_Contains (Subnet r) (canon a)"
    if "ipToInt (RangeStart r) \<le> ipToInt a" "ipToInt a \<le> ipToInt (RangeEnd r)"
    using that [THEN div_le_mono, of ?d] ends True w(3) by (simp add: net_Contains_wf)
  moreover have "RangeStart r \<noteq> []" "RangeEnd r \<noteq> []" "canon a \<noteq> []"
    using w(1,2) True by auto
  ultimately show ?thesis using True len
    by (auto simp: Range_Contains_def in_range_def canonicalizeIP_canon)
qed

lemma Range_Overlaps_wf:
  assumes "wf_range L r" "wf_range L r1"
  shows "Range_Overlaps r r1 \<longleftrightarrow>
    ipToInt (RangeStart r) \<le> ipToInt (RangeEnd r1) \<and> ipToInt (RangeStart r1) \<le> ipToInt (RangeEnd r)"
proof -
  note w = wf_range_simps [OF assms(1)] and w1 = wf_range_simps [OF assms(2)]
  have "length (RangeStart r) = length (RangeStart r1)"
    using w(1) w1(1) by (simp add: proper_ip_length)
  then show ?thesis
    using w w1 by (auto simp: Range_Overlaps_def Range_Contains_wf [OF assms(1)]
        Range_Contains_wf [OF assms(2)] in_range_def)
qed

lemma Range_Overlaps_families:
  "wf_range L r \<Longrightarrow> wf_range M r1 \<Longrightarrow> L \<noteq> M \<Longrightarrow> \<not> Range_Overlaps r r1"
  by (auto simp: Range_Overlaps_def wf_range_def proper_ip_length)

section \<open>What Canonicalize establishes\<close>

definition aligned :: "ipnet \<Rightarrow> bool" where
  "aligned n \<longleftrightarrow> ipToInt (IP n) div 2 ^ host_bits n * 2 ^ host_bits n = ipToInt (IP n)"

lemma ip_Mask_same: "proper_ip L a \<Longrightarrow> length m = L \<Longrightarrow> ip_Mask a m = map2 (AND) a m"
  by (auto simp: ip_Mask_def proper_ip_def)

lemma mask_Size_small:
  assumes "\<not> fst (mask_Size m) > snd (mask_Size m) - 2"
  obtains k where "simpleMaskLength_from 0 m = Some k" "k + 2 \<le> 8 * length m"
proof (cases "simpleMaskLength_from 0 m")
  case None
  with assms show ?thesis by (simp add: mask_Size_def)
next
  case (Some k)
  with assms have "int k + 2 \<le> int (length m * 8)" by (simp add: mask_Size_def)
  then have "k + 2 \<le> 8 * length m" by linarith
  with Some that show ?thesis by blast
qed

lemma Canonicalize_subnet_ok:
  assumes "Canonicalize_subnet r = Inr r1"
  obtains L where "wf_subnet L (Subnet r1)" "2 \<le> host_bits (Subnet r1)" "aligned (Subnet r1)"
    "r1 = r\<lparr>Subnet := \<lparr>IP = canon (IP (Subnet r)), Mask = Mask (Subnet r)\<rparr>\<rparr>"
proof -
  let ?a = "canon (IP (Subnet r))" and ?m = "Mask (Subnet r)"
  from assms have a: "?a \<noteq> []" and sz: "\<not> fst (mask_Size ?m) > snd (mask_Size ?m) - 2"
    and len: "length ?a = length ?m" and eq: "ip_Equal ?a (ip_Mask ?a ?m)"
    and r1: "r1 = r\<lparr>Subnet := \<lparr>IP = ?a, Mask = ?m\<rparr>\<rparr>"
    by (auto simp: Canonicalize_subnet_def canonicalizeIP_canon Let_def split: if_splits prod.splits)
  from sz obtain k where k: "simpleMaskLength_from 0 ?m = Some k" "k + 2 \<le> 8 * length ?m"
    by (rule mask_Size_small)
  from canon_cases [of "IP (Subnet r)"] a obtain L where L: "proper_ip L ?a" by auto
  then have lens: "length ?a = L" "length ?m = L" using len by (simp_all add: proper_ip_length)
  have wf: "wf_subnet L (Subnet r1)" using L lens k by (simp add: wf_subnet_def r1)
  have h: "host_bits (Subnet r1) = 8 * L - k" using k lens by (simp add: host_bits_def r1)
  have mask: "?m = CIDRMask k L" using simpleMaskLength_CIDRMask [OF k(1)] lens by simp
  have "?a = map2 (AND) ?a ?m"
    using eq lens by (simp add: ip_Mask_same [OF L])
  then have "SetBytes ?a = SetBytes (map2 (AND) ?a (CIDRMask k L))" using mask by simp
  also have "\<dots> = SetBytes ?a div 2 ^ (8 * L - k) * 2 ^ (8 * L - k)"
    using prefix_mask_value [of ?a L k] k(2) lens by simp
  finally have "aligned (Subnet r1)"
    using ipToInt_proper [OF L] by (simp add: aligned_def h) (simp add: r1)
  moreover have "2 \<le> host_bits (Subnet r1)" using h k(2) lens by simp
  ultimately show thesis using that [OF wf _ _ r1] by blast
qed

text \<open>The address after the last one of a subnet, and the default end of a range.\<close>

lemma lastIP_ok:
  assumes "wf_subnet L n" "2 \<le> host_bits n" "aligned n" "256 ^ (L - 1) \<le> ipToInt (IP n)"
  shows "proper_ip L (lastIP n)"
    "ipToInt (lastIP n) = ipToInt (IP n) + 2 ^ host_bits n - (if L = 4 then 2 else 1)"
proof -
  let ?e = "map2 (\<lambda>i m. i OR NOT m) (IP n) (Mask n)" and ?h = "host_bits n"
  from assms(1) have p: "proper_ip L (IP n)" and lm: "length (Mask n) = L"
    by (simp_all add: wf_subnet_def)
  note li = proper_ip_length [OF p]
  obtain k where k: "k \<le> 8 * L" "Mask n = CIDRMask k L" "?h = 8 * L - k"
    using assms(1) by (rule wf_subnet_mask)
  have le: "length ?e = L" using li lm by simp
  have "SetBytes ?e = SetBytes (IP n) div 2 ^ ?h * 2 ^ ?h + (2 ^ ?h - 1)"
    using prefix_mask_value [OF li k(1)] k by simp
  then have ve: "SetBytes ?e = ipToInt (IP n) + (2 ^ ?h - 1)"
    using assms(3) ipToInt_proper [OF p] by (simp add: aligned_def)
  have L: "L = 4 \<or> L = 16" using p by (auto simp: proper_ip_def)
  have "proper_ip L (lastIP n) \<and>
    ipToInt (lastIP n) = ipToInt (IP n) + 2 ^ ?h - (if L = 4 then 2 else 1)"
  proof (cases "L = 4")
    case False
    then have l: "lastIP n = ?e" using p by (simp add: lastIP_def proper_ip_To4)
    have "256 ^ (L - 1) \<le> SetBytes ?e" using assms(4) by (simp only: ve)
    then have "proper_ip L ?e" using L le by (intro proper_ipI)
    then show ?thesis using False ve by (simp add: l ipToInt_proper)
  next
    case True
    have "length ?e = 4" using le by (simp only: True)
    from length_4_cases [OF this] obtain a b c d where e: "?e = [a, b, c, d]"
      by (elim exE) (rule that)
    have l: "lastIP n = [a, b, c, d - 1]"
      using p True by (simp add: lastIP_def proper_ip_To4 e)
    have "even (2 ^ ?h :: nat)" using assms(2) by simp
    moreover from this have "even (ipToInt (IP n))"
      using assms(3) unfolding aligned_def by (metis dvd_trans dvd_triv_right)
    ultimately have "odd (SetBytes ?e)" using ve by simp
    then have "d \<noteq> 0" by (auto simp: e SetBytes_Cons)
    then have "unat (d - 1) = unat d - 1" "0 < unat d"
      by (simp_all add: unat_minus_one unat_gt_0)
    then have "SetBytes (lastIP n) = SetBytes ?e - 1" by (simp add: l e SetBytes_Cons)
    moreover have pl: "proper_ip L (lastIP n)" using True by (simp add: l proper_ip_def)
    ultimately show ?thesis using True ve by (simp add: ipToInt_proper)
  qed
  then show "proper_ip L (lastIP n)"
    "ipToInt (lastIP n) = ipToInt (IP n) + 2 ^ host_bits n - (if L = 4 then 2 else 1)" by auto
qed

lemma aligned_block:
  assumes "wf_subnet L n" "aligned n" "d < 2 ^ host_bits n"
  shows "ipToInt (IP n) + d < 256 ^ L"
    "(ipToInt (IP n) + d) div 2 ^ host_bits n = ipToInt (IP n) div 2 ^ host_bits n"
proof -
  let ?h = "host_bits n" and ?n = "ipToInt (IP n)"
  obtain k where k: "k \<le> 8 * L" "?h = 8 * L - k" using assms(1) by (rule wf_subnet_mask)
  have p: "proper_ip L (IP n)" using assms(1) by (simp add: wf_subnet_def)
  have n: "?n < 256 ^ L" using SetBytes_less [of "IP n"] p by (simp add: ipToInt_proper proper_ip_length)
  have q: "?n = ?n div 2 ^ ?h * 2 ^ ?h" using assms(2) by (simp add: aligned_def)
  have P: "(256::nat) ^ L = 2 ^ (8 * L - ?h) * 2 ^ ?h" using k by (simp add: power_mult flip: power_add)
  have "?n div 2 ^ ?h < 2 ^ (8 * L - ?h)" using n unfolding P by (simp add: less_mult_imp_div_less)
  then have "(?n div 2 ^ ?h + 1) * 2 ^ ?h \<le> 2 ^ (8 * L - ?h) * 2 ^ ?h"
    by (intro mult_le_mono1) simp
  then have "?n + 2 ^ ?h \<le> 256 ^ L" using q unfolding P by simp
  with assms(3) show "?n + d < 256 ^ L" by simp
  have "(?n div 2 ^ ?h * 2 ^ ?h + d) div 2 ^ ?h = ?n div 2 ^ ?h" using assms(3) by simp
  then show "(?n + d) div 2 ^ ?h = ?n div 2 ^ ?h" using q by simp
qed

definition in_net :: "nat \<Rightarrow> ipnet \<Rightarrow> ip \<Rightarrow> bool" where
  "in_net L n a \<longleftrightarrow> proper_ip L a \<and> net_Contains n a"

lemma in_net_offset:
  assumes "wf_subnet L n" "aligned n" "proper_ip L a" "ipToInt a = ipToInt (IP n) + d" "d < 2 ^ host_bits n"
  shows "in_net L n a"
  using assms aligned_block(2) [OF assms(1,2,5)] by (simp add: in_net_def net_Contains_wf)

lemma Range_Contains_in_net:
  assumes "wf_subnet L (Subnet r)" "Range_Contains r a" "canon a \<noteq> []"
  shows "in_net L (Subnet r) (canon a)"
    "RangeEnd r \<noteq> [] \<Longrightarrow> ipToInt a \<le> ipToInt (RangeEnd r)"
    "RangeStart r \<noteq> [] \<Longrightarrow> ipToInt (RangeStart r) \<le> ipToInt a"
proof -
  have "length (IP (Subnet r)) = L" using assms(1) by (auto simp: wf_subnet_def proper_ip_length)
  with assms(2,3) show "in_net L (Subnet r) (canon a)"
    "RangeEnd r \<noteq> [] \<Longrightarrow> ipToInt a \<le> ipToInt (RangeEnd r)"
    "RangeStart r \<noteq> [] \<Longrightarrow> ipToInt (RangeStart r) \<le> ipToInt a"
    using canon_cases [of a]
    by (auto simp: Range_Contains_def canonicalizeIP_canon in_net_def proper_ip_length split: if_splits)
qed

lemma host_block: "2 \<le> host_bits n \<Longrightarrow> (4::nat) \<le> 2 ^ host_bits n"
  using power_increasing [of 2 "host_bits n" "2::nat"] by simp

lemma NextIP_net:
  assumes "wf_subnet L n" "aligned n" "2 \<le> host_bits n" "256 ^ (L - 1) \<le> ipToInt (IP n)"
  shows "proper_ip L (NextIP (IP n))" "ipToInt (NextIP (IP n)) = ipToInt (IP n) + 1"
proof -
  have p: "proper_ip L (IP n)" using assms(1) by (simp add: wf_subnet_def)
  have "1 < (2::nat) ^ host_bits n" using host_block [OF assms(3)] by linarith
  note nx = NextIP_proper [OF p assms(4) aligned_block(1) [OF assms(1,2) this]]
  then show "proper_ip L (NextIP (IP n))" "ipToInt (NextIP (IP n)) = ipToInt (IP n) + 1" .
qed

lemma Canonicalize_start_ok:
  assumes "Canonicalize_start r = Inr r'" "wf_subnet L (Subnet r)" "aligned (Subnet r)"
    "2 \<le> host_bits (Subnet r)" "256 ^ (L - 1) \<le> ipToInt (IP (Subnet r))"
  shows "r' = r\<lparr>RangeStart := RangeStart r'\<rparr>" "in_net L (Subnet r) (RangeStart r')"
    "RangeStart r = [] \<Longrightarrow> ipToInt (RangeStart r') = ipToInt (IP (Subnet r)) + 1"
    "RangeStart r \<noteq> [] \<Longrightarrow> RangeStart r' = canon (RangeStart r)"
    "RangeStart r \<noteq> [] \<Longrightarrow> RangeEnd r \<noteq> [] \<Longrightarrow> ipToInt (RangeStart r') \<le> ipToInt (RangeEnd r)"
proof -
  let ?n = "Subnet r"
  note nx = NextIP_net [OF assms(2,3,4,5)]
  have one: "1 < (2::nat) ^ host_bits ?n" using host_block [OF assms(4)] by linarith
  have def_net: "in_net L ?n (NextIP (IP ?n))"
    using in_net_offset [OF assms(2,3) nx one] .
  show "r' = r\<lparr>RangeStart := RangeStart r'\<rparr>"
    "RangeStart r = [] \<Longrightarrow> ipToInt (RangeStart r') = ipToInt (IP (Subnet r)) + 1"
    "RangeStart r \<noteq> [] \<Longrightarrow> RangeStart r' = canon (RangeStart r)"
    using assms(1) nx by (auto simp: Canonicalize_start_def canonicalizeIP_canon Let_def split: if_splits)
  show "in_net L ?n (RangeStart r')"
    "RangeStart r \<noteq> [] \<Longrightarrow> RangeEnd r \<noteq> [] \<Longrightarrow> ipToInt (RangeStart r') \<le> ipToInt (RangeEnd r)"
    using assms(1) def_net Range_Contains_in_net [of L r' "RangeStart r'"] assms(2)
    by (auto simp: Canonicalize_start_def canonicalizeIP_canon Let_def split: if_splits)
qed

lemma Canonicalize_end_ok:
  assumes "Canonicalize_end r = Inr r'" "wf_subnet L (Subnet r)" "aligned (Subnet r)"
    "2 \<le> host_bits (Subnet r)" "256 ^ (L - 1) \<le> ipToInt (IP (Subnet r))" "RangeStart r \<noteq> []"
  shows "r' = r\<lparr>RangeEnd := RangeEnd r'\<rparr>" "in_net L (Subnet r) (RangeEnd r')"
    "RangeEnd r = [] \<Longrightarrow> ipToInt (RangeEnd r') =
       ipToInt (IP (Subnet r)) + 2 ^ host_bits (Subnet r) - (if L = 4 then 2 else 1)"
    "RangeEnd r \<noteq> [] \<Longrightarrow> RangeEnd r' = canon (RangeEnd r)"
    "RangeEnd r \<noteq> [] \<Longrightarrow> ipToInt (RangeStart r) \<le> ipToInt (RangeEnd r')"
proof -
  let ?n = "Subnet r"
  note last = lastIP_ok [OF assms(2,4,3,5)]
  note four = host_block [OF assms(4)]
  then have off: "ipToInt (lastIP ?n) = ipToInt (IP ?n) + (2 ^ host_bits ?n - (if L = 4 then 2 else 1))"
    using last(2) by simp
  have def_net: "in_net L ?n (lastIP ?n)"
    using four by (intro in_net_offset [OF assms(2,3) last(1) off]) simp
  show "r' = r\<lparr>RangeEnd := RangeEnd r'\<rparr>"
    "RangeEnd r = [] \<Longrightarrow> ipToInt (RangeEnd r') =
       ipToInt (IP (Subnet r)) + 2 ^ host_bits (Subnet r) - (if L = 4 then 2 else 1)"
    "RangeEnd r \<noteq> [] \<Longrightarrow> RangeEnd r' = canon (RangeEnd r)"
    using assms(1) last by (auto simp: Canonicalize_end_def canonicalizeIP_canon Let_def split: if_splits)
  show "in_net L ?n (RangeEnd r')"
    "RangeEnd r \<noteq> [] \<Longrightarrow> ipToInt (RangeStart r) \<le> ipToInt (RangeEnd r')"
    using assms(1,6) def_net Range_Contains_in_net [of L r' "RangeEnd r'"] assms(2)
    by (auto simp: Canonicalize_end_def canonicalizeIP_canon Let_def split: if_splits)
qed

lemma Canonicalize_gateway_ok:
  "Canonicalize_gateway r = Inr r' \<Longrightarrow>
   r' = r\<lparr>Gateway := (if Gateway r = [] then NextIP (IP (Subnet r)) else canon (Gateway r))\<rparr> \<and>
   (Gateway r \<noteq> [] \<longrightarrow> canon (Gateway r) \<noteq> [])"
  by (auto simp: Canonicalize_gateway_def canonicalizeIP_canon split: if_splits)

text \<open>
  The whole of \<open>Canonicalize\<close> in one rule: what a range it accepts looks like, for a subnet whose
  leading byte is not 0.
\<close>

lemma Range_Canonicalize_ok:
  assumes "Range_Canonicalize r = Inr r'" "L = length (IP (Subnet r'))"
    "256 ^ (L - 1) \<le> ipToInt (IP (Subnet r'))"
  shows "wf_subnet L (Subnet r')" "2 \<le> host_bits (Subnet r')" "aligned (Subnet r')"
    "Canonicalize_subnet r' = Inr r'"
    "in_net L (Subnet r') (RangeStart r')" "in_net L (Subnet r') (RangeEnd r')"
    "Gateway r' = (if Gateway r = [] then NextIP (IP (Subnet r')) else canon (Gateway r))"
    "Gateway r' \<noteq> []"
    "RangeStart r = [] \<Longrightarrow> ipToInt (RangeStart r') = ipToInt (IP (Subnet r')) + 1"
    "RangeStart r \<noteq> [] \<Longrightarrow> RangeStart r' = canon (RangeStart r)"
    "RangeEnd r = [] \<Longrightarrow> ipToInt (RangeEnd r') =
       ipToInt (IP (Subnet r')) + 2 ^ host_bits (Subnet r') - (if L = 4 then 2 else 1)"
    "RangeEnd r \<noteq> [] \<Longrightarrow> RangeEnd r' = canon (RangeEnd r)"
    "RangeEnd r \<noteq> [] \<Longrightarrow> ipToInt (RangeStart r') \<le> ipToInt (RangeEnd r')"
proof -
  from assms(1) obtain r1 r2 r3 where c1: "Canonicalize_subnet r = Inr r1"
    and c2: "Canonicalize_gateway r1 = Inr r2" and c3: "Canonicalize_start r2 = Inr r3"
    and c4: "Canonicalize_end r3 = Inr r'"
    by (auto simp: Range_Canonicalize_def split: sum.splits)
  from c1 obtain M where s: "wf_subnet M (Subnet r1)" "2 \<le> host_bits (Subnet r1)" "aligned (Subnet r1)"
    "r1 = r\<lparr>Subnet := \<lparr>IP = canon (IP (Subnet r)), Mask = Mask (Subnet r)\<rparr>\<rparr>"
    by (rule Canonicalize_subnet_ok)
  note g = Canonicalize_gateway_ok [OF c2]
  then have sub: "Subnet r2 = Subnet r1" and old2: "RangeStart r2 = RangeStart r" "RangeEnd r2 = RangeEnd r"
    and gw: "Gateway r2 = (if Gateway r = [] then NextIP (IP (Subnet r1)) else canon (Gateway r))"
      "Gateway r \<noteq> [] \<longrightarrow> canon (Gateway r) \<noteq> []"
    using s(4) by simp_all
  have keep: "Subnet r3 = Subnet r2 \<and> RangeEnd r3 = RangeEnd r2 \<and> Gateway r3 = Gateway r2"
    using c3 by (auto simp: Canonicalize_start_def Let_def split: if_splits sum.splits)
  have keep': "Subnet r' = Subnet r3 \<and> RangeStart r' = RangeStart r3 \<and> Gateway r' = Gateway r3"
    using c4 by (auto simp: Canonicalize_end_def Let_def split: if_splits sum.splits)
  note eqs = sub old2 keep keep'
  have L: "L = M" using assms(2) s(1) eqs by (simp add: wf_subnet_def proper_ip_length)
  show wf: "wf_subnet L (Subnet r')" and h: "2 \<le> host_bits (Subnet r')" and al: "aligned (Subnet r')"
    using s L eqs by simp_all
  note st = Canonicalize_start_ok [OF c3, of L] and en = Canonicalize_end_ok [OF c4, of L]
  show net: "in_net L (Subnet r') (RangeStart r')"
    using st wf h al assms(3) eqs by simp
  then have ne: "RangeStart r3 \<noteq> []" using eqs by (metis in_net_def proper_ip_nonempty)
  show "in_net L (Subnet r') (RangeEnd r')"
    using en wf h al assms(3) eqs ne by simp
  show "RangeStart r = [] \<Longrightarrow> ipToInt (RangeStart r') = ipToInt (IP (Subnet r')) + 1"
    "RangeStart r \<noteq> [] \<Longrightarrow> RangeStart r' = canon (RangeStart r)"
    using st wf h al assms(3) eqs by simp_all
  show "RangeEnd r = [] \<Longrightarrow> ipToInt (RangeEnd r') =
       ipToInt (IP (Subnet r')) + 2 ^ host_bits (Subnet r') - (if L = 4 then 2 else 1)"
    "RangeEnd r \<noteq> [] \<Longrightarrow> RangeEnd r' = canon (RangeEnd r)"
    "RangeEnd r \<noteq> [] \<Longrightarrow> ipToInt (RangeStart r') \<le> ipToInt (RangeEnd r')"
    using en wf h al assms(3) eqs ne by simp_all
  show gwy: "Gateway r' = (if Gateway r = [] then NextIP (IP (Subnet r')) else canon (Gateway r))"
    using gw eqs by simp
  show "Gateway r' \<noteq> []"
    using gwy gw(2) by (auto simp: NextIP_def intToIP_def Bytes_pos)
  show "Canonicalize_subnet r' = Inr r'"
    using c1 s(4) eqs
    by (auto simp: Canonicalize_subnet_def canonicalizeIP_canon Let_def split: if_splits prod.splits)
qed

lemma Range_Canonicalize_wf:
  assumes "Range_Canonicalize r = Inr r'" "L = length (IP (Subnet r'))"
    "256 ^ (L - 1) \<le> ipToInt (IP (Subnet r'))"
    "ipToInt (RangeStart r') \<le> ipToInt (RangeEnd r')"
  shows "wf_range L r'"
proof -
  note c = Range_Canonicalize_ok [OF assms(1-3)]
  have s: "proper_ip L (RangeStart r')" "net_Contains (Subnet r') (RangeStart r')"
    using c(5) by (simp_all add: in_net_def)
  let ?d = "2 ^ host_bits (Subnet r')"
  have "ipToInt (IP (Subnet r')) = ipToInt (IP (Subnet r')) div ?d * ?d"
    using c(3) by (simp add: aligned_def)
  also have "\<dots> = ipToInt (RangeStart r') div ?d * ?d"
    using s c(1) by (simp add: net_Contains_wf)
  also have "\<dots> \<le> ipToInt (RangeStart r')" by simp
  finally have "256 ^ (L - 1) \<le> ipToInt (RangeStart r')" using assms(3) by linarith
  with s c(1,6) assms(4) show ?thesis by (simp add: wf_range_def in_net_def)
qed

lemma in_net_upper:
  assumes "wf_subnet L n" "aligned n" "in_net L n a"
  shows "ipToInt a < ipToInt (IP n) + 2 ^ host_bits n"
proof -
  let ?d = "2 ^ host_bits n"
  have "ipToInt a = ipToInt a div ?d * ?d + ipToInt a mod ?d" by (simp only: div_mult_mod_eq)
  also have "ipToInt a div ?d = ipToInt (IP n) div ?d"
    using assms(3) by (auto simp: in_net_def net_Contains_wf [OF assms(1)])
  also have "ipToInt (IP n) div ?d * ?d = ipToInt (IP n)" using assms(2) by (simp add: aligned_def)
  finally have "ipToInt a = ipToInt (IP n) + ipToInt a mod ?d" .
  moreover have "ipToInt a mod ?d < ?d" by simp
  ultimately show ?thesis by linarith
qed

lemma Range_Overlaps_common:
  assumes "wf_range L r" "wf_range M r1"
  shows "Range_Overlaps r r1 \<longleftrightarrow> (\<exists>a. Range_Contains r a \<and> Range_Contains r1 a)"
proof (cases "L = M")
  case False
  then show ?thesis
    using Range_Overlaps_families [OF assms] proper_ip_unique
    by (auto simp: Range_Contains_wf [OF assms(1)] Range_Contains_wf [OF assms(2)] in_range_def)
next
  case True
  with assms have wf: "wf_range L r" "wf_range L r1" by simp_all
  note w = wf_range_simps [OF wf(1)] and w1 = wf_range_simps [OF wf(2)]
  show ?thesis
  proof
    assume "Range_Overlaps r r1"
    then have "in_range L r (RangeStart r1) \<and> in_range L r1 (RangeStart r1) \<or>
        in_range L r (RangeStart r) \<and> in_range L r1 (RangeStart r)"
      using w w1 by (auto simp: Range_Overlaps_wf [OF wf] in_range_def)
    then show "\<exists>a. Range_Contains r a \<and> Range_Contains r1 a"
      by (auto simp: Range_Contains_wf [OF wf(1)] Range_Contains_wf [OF wf(2)])
  next
    assume "\<exists>a. Range_Contains r a \<and> Range_Contains r1 a"
    then show "Range_Overlaps r r1"
      by (auto simp: Range_Overlaps_wf [OF wf] Range_Contains_wf [OF wf(1)]
          Range_Contains_wf [OF wf(2)] in_range_def)
  qed
qed

section \<open>Range sets\<close>

lemma range_scan_Some: "range_scan s a = Some r \<Longrightarrow> r \<in> set s \<and> Range_Contains r a"
  by (induction s) (auto split: if_splits)

lemma range_scan_None: "range_scan s a = None \<longleftrightarrow> (\<forall>r \<in> set s. \<not> Range_Contains r a)"
  by (induction s) auto

lemma Range_Contains_canon: "Range_Contains r (canon a) \<longleftrightarrow> Range_Contains r a"
  by (simp add: Range_Contains_def canonicalizeIP_canon)

lemma Range_Contains_nonempty: "Range_Contains r a \<Longrightarrow> canon a \<noteq> []"
  by (auto simp: Range_Contains_def canonicalizeIP_canon)

lemma RangeFor_Inr: "RangeFor s a = Inr r \<Longrightarrow> r \<in> set s \<and> Range_Contains r a"
  using range_scan_Some [of s "canon a" r]
  by (auto simp: RangeFor_def canonicalizeIP_canon Range_Contains_canon split: if_splits option.splits)

lemma RangeSet_Contains_iff: "RangeSet_Contains s a \<longleftrightarrow> (\<exists>r \<in> set s. Range_Contains r a)"
proof (cases "canon a = []")
  case True
  then show ?thesis
    using Range_Contains_nonempty by (auto simp: RangeSet_Contains_def RangeFor_def canonicalizeIP_canon)
next
  case False
  then show ?thesis
    using range_scan_None [of s "canon a"] range_scan_Some [of s "canon a"]
    by (auto simp: RangeSet_Contains_def RangeFor_def canonicalizeIP_canon Range_Contains_canon
        split: option.splits)
qed

definition wf_set :: "rangeset \<Rightarrow> bool" where
  "wf_set s \<longleftrightarrow> list_all (\<lambda>r. wf_range 4 r \<or> wf_range 16 r) s"

lemma wf_range_family: "wf_range L r \<Longrightarrow> wf_range 4 r \<or> wf_range 16 r"
  by (auto simp: wf_range_def proper_ip_def)

lemma wf_set_nth: "wf_set s \<Longrightarrow> i < length s \<Longrightarrow> \<exists>L. wf_range L (s ! i)"
  by (auto simp: wf_set_def list_all_length)

lemma wf_set_in: "wf_set s \<Longrightarrow> r \<in> set s \<Longrightarrow> \<exists>L. wf_range L r"
  by (auto simp: wf_set_def list_all_iff)

lemma first_overlap_None: "first_overlap r s = None \<longleftrightarrow> (\<forall>r1 \<in> set s. \<not> Range_Overlaps r r1)"
  by (induction s) auto

lemma overlap_check_ok: "overlap_check s = Inr u \<Longrightarrow> sorted_wrt (\<lambda>r r1. \<not> Range_Overlaps r r1) s"
  by (induction s) (auto simp: first_overlap_None split: option.splits)

lemma canonicalize_ranges_ok:
  "canonicalize_ranges fam s = Inr s' \<Longrightarrow> list_all2 (\<lambda>r r'. Range_Canonicalize r = Inr r') s s'"
proof (induction s arbitrary: fam s')
  case Nil
  then show ?case by simp
next
  case (Cons r rs)
  obtain r' where r: "Range_Canonicalize r = Inr r'"
    using Cons.prems by (cases "Range_Canonicalize r") simp_all
  have "\<exists>f rs'. canonicalize_ranges f rs = Inr rs' \<and> s' = r' # rs'"
  proof (cases fam)
    case None
    let ?c = "canonicalize_ranges (Some (length (RangeStart r'))) rs"
    from Cons.prems r None show ?thesis by (cases ?c) (auto simp: Let_def)
  next
    case (Some f)
    with Cons.prems r have "f = length (RangeStart r')" by (simp add: Let_def split: if_splits)
    with Cons.prems r Some show ?thesis
      by (cases "canonicalize_ranges (Some f) rs") (auto simp: Let_def)
  qed
  then obtain f rs' where "canonicalize_ranges f rs = Inr rs'" "s' = r' # rs'" by blast
  with r Cons.IH show ?case by simp
qed

lemma RangeSet_Canonicalize_ok:
  assumes "RangeSet_Canonicalize s = Inr s'"
  shows "s' \<noteq> []" "list_all2 (\<lambda>r r'. Range_Canonicalize r = Inr r') s s'"
    "sorted_wrt (\<lambda>r r1. \<not> Range_Overlaps r r1) s'"
proof -
  from assms have c: "s \<noteq> []" "canonicalize_ranges None s = Inr s'" "\<exists>u. overlap_check s' = Inr u"
    by (auto simp: RangeSet_Canonicalize_def split: if_splits sum.splits)
  show l: "list_all2 (\<lambda>r r'. Range_Canonicalize r = Inr r') s s'"
    using c(2) by (rule canonicalize_ranges_ok)
  show "s' \<noteq> []" using l c(1) by auto
  show "sorted_wrt (\<lambda>r r1. \<not> Range_Overlaps r r1) s'" using c(3) overlap_check_ok by blast
qed

section \<open>Properties\<close>

lemma RangeSet_Overlaps_common:
  assumes "wf_set s" "wf_set p"
  shows "RangeSet_Overlaps s p \<longleftrightarrow> (\<exists>a. RangeSet_Contains s a \<and> RangeSet_Contains p a)"
proof -
  have "RangeSet_Overlaps s p \<longleftrightarrow> (\<exists>r \<in> set s. \<exists>r1 \<in> set p. Range_Overlaps r r1)"
    by (simp add: RangeSet_Overlaps_def list_ex_iff)
  also have "\<dots> \<longleftrightarrow> (\<exists>r \<in> set s. \<exists>r1 \<in> set p. \<exists>a. Range_Contains r a \<and> Range_Contains r1 a)"
    using wf_set_in [OF assms(1)] wf_set_in [OF assms(2)] Range_Overlaps_common by (metis (full_types))
  finally show ?thesis by (auto simp: RangeSet_Contains_iff)
qed

text \<open>
  C19. \<open>Range.Canonicalize\<close> makes a usable range: when it accepts a range of a subnet whose
  leading byte is not 0, start and end are addresses of the subnet in order, except that it also
  accepts the IPv4 broadcast address as a start when no end is given.
\<close>

theorem Range_Canonicalize_sound:
  assumes "Range_Canonicalize r = Inr r'" "L = length (IP (Subnet r'))"
    "256 ^ (L - 1) \<le> ipToInt (IP (Subnet r'))"
  shows "wf_range L r' \<or>
    (L = 4 \<and> RangeEnd r = [] \<and>
     ipToInt (RangeStart r') = ipToInt (IP (Subnet r')) + 2 ^ host_bits (Subnet r') - 1)"
proof (cases "ipToInt (RangeStart r') \<le> ipToInt (RangeEnd r')")
  case True
  with assms show ?thesis by (blast intro: Range_Canonicalize_wf)
next
  case False
  note c = Range_Canonicalize_ok [OF assms]
  have noend: "RangeEnd r = []" using c(13) False by blast
  have up: "ipToInt (RangeStart r') < ipToInt (IP (Subnet r')) + 2 ^ host_bits (Subnet r')"
    using c(1,3,5) by (rule in_net_upper)
  with c(11) [OF noend] False have "L = 4" by (auto split: if_splits)
  with c(11) [OF noend] False up have
    "ipToInt (RangeStart r') = ipToInt (IP (Subnet r')) + 2 ^ host_bits (Subnet r') - 1"
    by simp
  with \<open>L = 4\<close> noend show ?thesis by simp
qed

definition sample_range :: range where
  "sample_range = \<lparr>RangeStart = [], RangeEnd = [], Subnet = \<lparr>IP = [10, 0, 0, 0], Mask = [255, 255, 255, 0]\<rparr>, Gateway = []\<rparr>"

definition sample_range' :: range where
  "sample_range' = \<lparr>RangeStart = [10, 0, 0, 1], RangeEnd = [10, 0, 0, 254],
     Subnet = \<lparr>IP = [10, 0, 0, 0], Mask = [255, 255, 255, 0]\<rparr>, Gateway = [10, 0, 0, 1]\<rparr>"

lemma Range_Canonicalize_sample: "Range_Canonicalize sample_range = Inr sample_range'"
  by code_simp

theorem Range_Canonicalize_sound_witness:
  "Range_Canonicalize sample_range = Inr sample_range' \<and>
   (wf_range 4 sample_range' \<or> (4 = (4::nat) \<and> RangeEnd sample_range = [] \<and>
     ipToInt (RangeStart sample_range') =
       ipToInt (IP (Subnet sample_range')) + 2 ^ host_bits (Subnet sample_range') - 1))"
proof -
  have "4 = length (IP (Subnet sample_range'))" "256 ^ (4 - 1) \<le> ipToInt (IP (Subnet sample_range'))"
    by code_simp+
  from Range_Canonicalize_sound [OF Range_Canonicalize_sample this] Range_Canonicalize_sample
  show ?thesis by blast
qed

text \<open>
  Canonicalising is idempotent: a range that \<open>Canonicalize\<close> accepted, and whose start is not
  after its end, is accepted again and left unchanged.
\<close>

theorem Range_Canonicalize_idem:
  assumes "Range_Canonicalize r = Inr r'" "L = length (IP (Subnet r'))"
    "256 ^ (L - 1) \<le> ipToInt (IP (Subnet r'))" "ipToInt (RangeStart r') \<le> ipToInt (RangeEnd r')"
  shows "Range_Canonicalize r' = Inr r'"
proof -
  note c = Range_Canonicalize_ok [OF assms(1-3)]
  have wf: "wf_range L r'" using assms by (rule Range_Canonicalize_wf)
  note w = wf_range_simps [OF wf]
  have ne: "RangeStart r' \<noteq> []" "RangeEnd r' \<noteq> []" using w(1,2) by auto
  have "proper_ip L (NextIP (IP (Subnet r')))"
    using c(1,3,2) assms(3) by (rule NextIP_net)
  then have "canon (Gateway r') = Gateway r'" using c(7) by simp
  then have "Canonicalize_gateway r' = Inr r'"
    using c(8) by (simp add: Canonicalize_gateway_def canonicalizeIP_canon)
  moreover have "Canonicalize_start r' = Inr r'" "Canonicalize_end r' = Inr r'"
    using ne w by (simp_all add: Canonicalize_start_def Canonicalize_end_def canonicalizeIP_canon
        Range_Contains_wf [OF wf] in_range_def)
  ultimately show ?thesis using c(4) by (simp add: Range_Canonicalize_def)
qed

theorem Range_Canonicalize_idem_witness:
  "Range_Canonicalize sample_range = Inr sample_range' \<and>
   Range_Canonicalize sample_range' = Inr sample_range'"
proof -
  have "4 = length (IP (Subnet sample_range'))" "256 ^ (4 - 1) \<le> ipToInt (IP (Subnet sample_range'))"
    "ipToInt (RangeStart sample_range') \<le> ipToInt (RangeEnd sample_range')"
    by code_simp+
  from Range_Canonicalize_idem [OF Range_Canonicalize_sample this] Range_Canonicalize_sample
  show ?thesis by blast
qed

text \<open>
  C9. \<open>Range.Overlaps\<close>, which compares end points only, is exact on well-formed ranges: two ranges
  overlap if and only if some address is contained in both.
\<close>

theorem Range_Overlaps_exact:
  assumes "wf_range L r" "wf_range M r1"
  shows "Range_Overlaps r r1 \<longleftrightarrow> (\<exists>a. Range_Contains r a \<and> Range_Contains r1 a)"
  using assms by (rule Range_Overlaps_common)

definition sample_low :: range where
  "sample_low = sample_range'\<lparr>RangeEnd := [10, 0, 0, 100]\<rparr>"

theorem Range_Overlaps_exact_witness:
  "wf_range 4 sample_low \<and> wf_range 4 sample_range' \<and>
   Range_Overlaps sample_low sample_range' =
     (\<exists>a. Range_Contains sample_low a \<and> Range_Contains sample_range' a)"
proof -
  have w: "wf_range 4 sample_low" "wf_range 4 sample_range'" by code_simp+
  from Range_Overlaps_exact [OF w] w show ?thesis by blast
qed

text \<open>
  C20. A range set that \<open>RangeSet.Canonicalize\<close> accepts, with its ranges well formed, has no address
  in two of its ranges, so the range \<open>RangeFor\<close> returns is the only one that contains the address.
\<close>

theorem RangeSet_Canonicalize_disjoint:
  assumes "RangeSet_Canonicalize s = Inr s'" "wf_set s'" "i < j" "j < length s'"
  shows "\<not> (Range_Contains (s' ! i) a \<and> Range_Contains (s' ! j) a)"
proof -
  have "\<not> Range_Overlaps (s' ! i) (s' ! j)"
    using RangeSet_Canonicalize_ok(3) [OF assms(1)] assms(3,4) by (simp add: sorted_wrt_iff_nth_less)
  moreover obtain L M where "wf_range L (s' ! i)" "wf_range M (s' ! j)"
    using wf_set_nth [OF assms(2)] assms(3,4) by (meson order.strict_trans)
  ultimately show ?thesis using Range_Overlaps_common by blast
qed

definition sample_set :: rangeset where
  "sample_set =
     [sample_range\<lparr>RangeEnd := [10, 0, 0, 100]\<rparr>, sample_range\<lparr>RangeStart := [10, 0, 0, 101]\<rparr>]"

definition sample_set' :: rangeset where
  "sample_set' = [sample_low, sample_range'\<lparr>RangeStart := [10, 0, 0, 101]\<rparr>]"

theorem RangeSet_Canonicalize_disjoint_witness:
  "RangeSet_Canonicalize sample_set = Inr sample_set' \<and>
   \<not> (Range_Contains (sample_set' ! 0) [10, 0, 0, 100] \<and> Range_Contains (sample_set' ! 1) [10, 0, 0, 100])"
proof -
  have c: "RangeSet_Canonicalize sample_set = Inr sample_set'" and "wf_set sample_set'"
    "0 < (1::nat)" "1 < length sample_set'"
    by code_simp+
  from RangeSet_Canonicalize_disjoint [OF this] c show ?thesis by blast
qed

text \<open>
  \<open>RangeSet.Overlaps\<close> on well-formed sets says whether some address lies in both sets.
\<close>

theorem RangeSet_Overlaps_exact:
  assumes "wf_set s" "wf_set p"
  shows "RangeSet_Overlaps s p \<longleftrightarrow> (\<exists>a. RangeSet_Contains s a \<and> RangeSet_Contains p a)"
  using assms by (rule RangeSet_Overlaps_common)

theorem RangeSet_Overlaps_exact_witness:
  "wf_set sample_set' \<and> wf_set [sample_low] \<and>
   RangeSet_Overlaps sample_set' [sample_low] =
     (\<exists>a. RangeSet_Contains sample_set' a \<and> RangeSet_Contains [sample_low] a)"
proof -
  have w: "wf_set sample_set'" "wf_set [sample_low]" by code_simp+
  from RangeSet_Overlaps_exact [OF w] w show ?thesis by blast
qed

end
