(* ===== verification/Store.thy ===== *)
theory Store
  imports AllocRange
begin

text \<open>
  The interface \<open>backend.Store\<close> (\<open>pkg/ipametcd/backend/store.go\<close>) between the allocator and the
  place where reservations are kept. The methods of a store are functions over its state; an
  error of a method is an \<open>Inl\<close> or a \<open>Some\<close>. The locale \<open>backend_store\<close> states what the
  allocator relies on: which addresses are held, by whom, and how each method changes that.
  \<open>reliable_store\<close> adds that reserving does not fail. The two stores of the repository are
  interpreted in the theories \<open>FakeStore\<close> and \<open>EtcdStore\<close>.
\<close>

record 's store_ops =
  Lock :: "'s \<Rightarrow> go_error option \<times> 's"
  Unlock :: "'s \<Rightarrow> go_error option \<times> 's"
  Close :: "'s \<Rightarrow> go_error option outcome \<times> 's"
  Reserve :: "string \<Rightarrow> string \<Rightarrow> ip \<Rightarrow> string \<Rightarrow> 's \<Rightarrow> (go_error + bool) \<times> 's"
  LastReservedIP :: "string \<Rightarrow> 's \<Rightarrow> (go_error + ip) \<times> 's"
  Release :: "ip \<Rightarrow> 's \<Rightarrow> go_error option \<times> 's"
  ReleaseByID :: "string \<Rightarrow> string \<Rightarrow> 's \<Rightarrow> go_error option \<times> 's"
  GetByID :: "string \<Rightarrow> string \<Rightarrow> 's \<Rightarrow> ip list \<times> 's"

text \<open>
  \<open>held s\<close> maps the text of an address to the value stored for it; \<open>owner cid ifname\<close> is the value
  a reservation stores, and \<open>releases id ifname v\<close> says which values \<open>ReleaseByID\<close> may remove.
  Waiting for the lock may change everything, since another process had it before.
\<close>

locale backend_store =
  fixes ops :: "'s store_ops"
    and inv :: "'s \<Rightarrow> bool"
    and held :: "'s \<Rightarrow> string \<Rightarrow> string option"
    and owner :: "string \<Rightarrow> string \<Rightarrow> string"
    and releases :: "string \<Rightarrow> string \<Rightarrow> string \<Rightarrow> bool"
  assumes lock: "inv s \<Longrightarrow> Lock ops s = (e, s') \<Longrightarrow> inv s'"
    and unlock: "inv s \<Longrightarrow> Unlock ops s = (e, s') \<Longrightarrow> inv s' \<and> held s' = held s"
    and reserve_inv: "inv s \<Longrightarrow> Reserve ops cid ifn a rid s = (res, s') \<Longrightarrow> inv s'"
    and reserve_new: "inv s \<Longrightarrow> Reserve ops cid ifn a rid s = (Inr True, s') \<Longrightarrow>
        held s (ip_String a) = None \<and> held s' = (held s)(ip_String a \<mapsto> owner cid ifn)"
    and reserve_taken: "inv s \<Longrightarrow> Reserve ops cid ifn a rid s = (Inr False, s') \<Longrightarrow>
        held s (ip_String a) \<noteq> None \<and> held s' = held s"
    and reserve_error: "inv s \<Longrightarrow> Reserve ops cid ifn a rid s = (Inl err, s') \<Longrightarrow>
        held s' = held s \<or>
        held s (ip_String a) = None \<and> held s' = (held s)(ip_String a \<mapsto> owner cid ifn)"
    and last_reserved: "inv s \<Longrightarrow> LastReservedIP ops rid s = (r, s') \<Longrightarrow> inv s' \<and> held s' = held s"
    and get_by_id: "inv s \<Longrightarrow> GetByID ops cid ifn s = (ips, s') \<Longrightarrow> inv s' \<and> held s' = held s"
    and release_by_id: "inv s \<Longrightarrow> ReleaseByID ops cid ifn s = (re, s') \<Longrightarrow>
        inv s' \<and> held s' \<subseteq>\<^sub>m held s \<and>
        (\<forall>k v. held s k = Some v \<longrightarrow> held s' k = None \<longrightarrow> releases cid ifn v)"
begin

lemma reserve_grows:
  assumes "inv s" "Reserve ops cid ifn a rid s = (res, s')"
  shows "held s \<subseteq>\<^sub>m held s'"
proof (cases res)
  case (Inl e)
  with assms reserve_error [of s cid ifn a rid e s'] show ?thesis
    by (auto simp: map_le_def)
next
  case (Inr b)
  with assms reserve_new [of s cid ifn a rid s'] reserve_taken [of s cid ifn a rid s'] show ?thesis
    by (cases b) (auto simp: map_le_def)
qed

lemma reserve_keeps_others:
  assumes "inv s" "Reserve ops cid ifn a rid s = (res, s')" "k \<noteq> ip_String a"
  shows "held s' k = held s k"
proof (cases res)
  case (Inl e)
  with assms reserve_error [of s cid ifn a rid e s'] show ?thesis by auto
next
  case (Inr b)
  with assms reserve_new [of s cid ifn a rid s'] reserve_taken [of s cid ifn a rid s'] show ?thesis
    by (cases b) auto
qed

end

locale reliable_store = backend_store +
  assumes reserve_total: "inv s \<Longrightarrow> \<exists>b s'. Reserve ops cid ifn a rid s = (Inr b, s')"
begin

lemma reserve_decides:
  assumes "inv s"
  obtains s' where "Reserve ops cid ifn a rid s = (Inr (held s (ip_String a) = None), s')" "inv s'"
    "held s' = (if held s (ip_String a) = None
       then (held s)(ip_String a \<mapsto> owner cid ifn) else held s)"
proof -
  obtain b s' where r: "Reserve ops cid ifn a rid s = (Inr b, s')"
    using reserve_total [OF assms] by blast
  note i = reserve_inv [OF assms r]
  show thesis
  proof (cases b)
    case True
    with r reserve_new [OF assms, of cid ifn a rid s'] have
      "held s (ip_String a) = None" "held s' = (held s)(ip_String a \<mapsto> owner cid ifn)" by auto
    with True r i that [of s'] show thesis by simp
  next
    case False
    with r reserve_taken [OF assms, of cid ifn a rid s'] have
      "held s (ip_String a) \<noteq> None" "held s' = held s" by auto
    with False r i that [of s'] show thesis by simp
  qed
qed

end

end
