(* ===== verification/RangeIter.thy ===== *)
theory RangeIter
  imports Store
begin

text \<open>
  The round-robin iterator of the allocator (\<open>allocator.go\<close>: \<open>RangeIter\<close>, \<open>GetIter\<close>, \<open>Next\<close>).
  \<open>Next\<close> calls itself to skip a gateway, so it is a partial function with \<open>None\<close> for "never
  returns"; \<open>Next_body\<close> is one round of it. The ring of a range set is the list of its
  (range index, address) pairs. The main lemma: an iterator has a list of pending positions, a
  rotation of the ring, and \<open>Next\<close> hands them out one by one, leaving out gateways, and then
  reports the end.
\<close>

record range_iter =
  rset :: rangeset
  rangeIdx :: nat
  cur :: ip
  startIP :: ip
  startRange :: nat

datatype iter_step =
    Exhausted range_iter
  | Skip range_iter
  | Yield ipnet ip range_iter

text \<open>An index outside the slice panics.\<close>

definition index :: "'a list \<Rightarrow> nat \<Rightarrow> 'a outcome" where
  "index xs k = (if k < length xs then Returns (xs ! k) else Panics)"

definition Next_body :: "range_iter \<Rightarrow> iter_step outcome" where
  "Next_body i =
     bind_outcome (index (rset i) (rangeIdx i)) (\<lambda>r.
       if cur i = [] then
         let i = i\<lparr>cur := RangeStart r\<rparr>; i = i\<lparr>startIP := cur i\<rparr> in
         if ip_Equal (cur i) (Gateway r) then Returns (Skip i)
         else Returns (Yield \<lparr>IP = cur i, Mask = Mask (Subnet r)\<rparr> (Gateway r) i)
       else
         bind_outcome
           (if ip_Equal (cur i) (RangeEnd r) then
              let i = i\<lparr>rangeIdx := (rangeIdx i + 1) mod length (rset i)\<rparr> in
              bind_outcome (index (rset i) (rangeIdx i)) (\<lambda>r.
                Returns (i\<lparr>cur := RangeStart r\<rparr>, r))
            else Returns (i\<lparr>cur := NextIP (cur i)\<rparr>, r))
           (\<lambda>(i, r).
              if startIP i \<noteq> [] \<and> rangeIdx i = startRange i \<and> ip_Equal (cur i) (startIP i)
              then Returns (Exhausted i)
              else let i = (if startIP i = [] then i\<lparr>startIP := cur i\<rparr> else i) in
                if ip_Equal (cur i) (Gateway r) then Returns (Skip i)
                else Returns (Yield \<lparr>IP = cur i, Mask = Mask (Subnet r)\<rparr> (Gateway r) i)))"

partial_function (option) Next ::
    "range_iter \<Rightarrow> ((ipnet \<times> ip) option \<times> range_iter) outcome option" where
  "Next i =
     (case Next_body i of
        Panics \<Rightarrow> Some Panics
      | Returns st \<Rightarrow>
          (case st of
             Exhausted i' \<Rightarrow> Some (Returns (None, i'))
           | Yield n g i' \<Rightarrow> Some (Returns (Some (n, g), i'))
           | Skip i' \<Rightarrow> Next i'))"

declare Next.simps [code]

text \<open>
  \<open>GetIter\<close>: from the last reserved address when the set contains it, from the first range
  otherwise; an error of the store is logged and ignored.
\<close>

fun find_range :: "nat \<Rightarrow> rangeset \<Rightarrow> ip \<Rightarrow> nat option" where
  "find_range k [] a = None"
| "find_range k (r # rs) a = (if Range_Contains r a then Some k else find_range (Suc k) rs a)"

definition GetIter :: "'s store_ops \<Rightarrow> rangeset \<Rightarrow> string \<Rightarrow> 's \<Rightarrow> range_iter outcome \<times> 's" where
  "GetIter ops rs rangeID s =
     (let (res, s1) = LastReservedIP ops rangeID s;
          prev = (case res of Inl e \<Rightarrow> [] | Inr a \<Rightarrow> a);
          iter = \<lparr>rset = rs, rangeIdx = 0, cur = [], startIP = [], startRange = 0\<rparr>
      in if prev \<noteq> [] \<and> RangeSet_Contains rs prev
         then (Returns (case find_range 0 rs prev of
                 None \<Rightarrow> iter
               | Some k \<Rightarrow> iter\<lparr>rangeIdx := k, startRange := k, cur := prev\<rparr>), s1)
         else (bind_outcome (index rs 0) (\<lambda>r. Returns (iter\<lparr>startIP := RangeStart r\<rparr>)), s1))"

section \<open>The ring of positions\<close>

definition range_addrs :: "range \<Rightarrow> ip list" where
  "range_addrs r =
     map (\<lambda>k. (NextIP ^^ k) (RangeStart r))
       [0..<Suc (ipToInt (RangeEnd r) - ipToInt (RangeStart r))]"

fun ring_from :: "nat \<Rightarrow> rangeset \<Rightarrow> (nat \<times> ip) list" where
  "ring_from k [] = []"
| "ring_from k (r # rs) = map (Pair k) (range_addrs r) @ ring_from (Suc k) rs"

definition ring :: "rangeset \<Rightarrow> (nat \<times> ip) list" where
  "ring rs = ring_from 0 rs"

lemma proper_ip_value_less: "proper_ip L a \<Longrightarrow> ipToInt a < 256 ^ L"
  using SetBytes_less [of a] by (simp add: ipToInt_proper proper_ip_length)

lemma range_addr_value:
  assumes "wf_range L r" "k \<le> ipToInt (RangeEnd r) - ipToInt (RangeStart r)"
  shows "proper_ip L ((NextIP ^^ k) (RangeStart r)) \<and>
    ipToInt ((NextIP ^^ k) (RangeStart r)) = ipToInt (RangeStart r) + k"
  using assms(2)
proof (induction k)
  case 0
  then show ?case using wf_range_simps(1) [OF assms(1)] by simp
next
  case (Suc k)
  let ?a = "(NextIP ^^ k) (RangeStart r)"
  note w = wf_range_simps [OF assms(1)]
  from Suc have a: "proper_ip L ?a" "ipToInt ?a = ipToInt (RangeStart r) + k" by simp_all
  have "ipToInt ?a + 1 \<le> ipToInt (RangeEnd r)" using a(2) Suc.prems w(5) by simp
  then have "ipToInt ?a + 1 < 256 ^ L" using proper_ip_value_less [OF w(2)] by linarith
  moreover have "256 ^ (L - 1) \<le> ipToInt ?a" using a(2) w(4) by simp
  ultimately show ?case using NextIP_proper [OF a(1)] a(2) by simp
qed

lemma range_addrs_nonempty [simp]: "range_addrs r \<noteq> []"
  by (simp add: range_addrs_def)

lemma hd_range_addrs [simp]: "hd (range_addrs r) = RangeStart r"
  by (simp add: range_addrs_def hd_map del: upt_Suc)

lemma last_range_addrs:
  assumes "wf_range L r"
  shows "last (range_addrs r) = RangeEnd r"
proof -
  let ?n = "ipToInt (RangeEnd r) - ipToInt (RangeStart r)"
  have "last (range_addrs r) = (NextIP ^^ ?n) (RangeStart r)"
    by (simp add: range_addrs_def)
  moreover have "\<dots> = RangeEnd r"
    using range_addr_value [OF assms order.refl] wf_range_simps [OF assms]
    by (intro proper_ip_eqI [of L]) simp_all
  ultimately show ?thesis by simp
qed

lemma set_range_addrs:
  assumes "wf_range L r"
  shows "set (range_addrs r) = {a. in_range L r a \<and> canon a = a}"
proof (intro set_eqI iffI)
  fix a
  assume "a \<in> set (range_addrs r)"
  then obtain k where "k \<le> ipToInt (RangeEnd r) - ipToInt (RangeStart r)" "a = (NextIP ^^ k) (RangeStart r)"
    by (auto simp: range_addrs_def less_Suc_eq_le simp del: upt_Suc)
  with range_addr_value [OF assms, of k] wf_range_simps(5) [OF assms]
  show "a \<in> {a. in_range L r a \<and> canon a = a}" by (auto simp: in_range_def)
next
  fix a
  assume "a \<in> {a. in_range L r a \<and> canon a = a}"
  then have a: "proper_ip L a" "ipToInt (RangeStart r) \<le> ipToInt a" "ipToInt a \<le> ipToInt (RangeEnd r)"
    by (auto simp: in_range_def)
  let ?k = "ipToInt a - ipToInt (RangeStart r)"
  have k: "?k \<le> ipToInt (RangeEnd r) - ipToInt (RangeStart r)" using a by simp
  have "a = (NextIP ^^ ?k) (RangeStart r)"
    using range_addr_value [OF assms k] a by (intro proper_ip_eqI [of L]) simp_all
  with k show "a \<in> set (range_addrs r)"
    by (auto simp: range_addrs_def less_Suc_eq_le simp del: upt_Suc intro!: image_eqI [of _ _ ?k])
qed

lemma distinct_range_addrs:
  assumes "wf_range L r"
  shows "distinct (range_addrs r)"
proof -
  let ?n = "ipToInt (RangeEnd r) - ipToInt (RangeStart r)"
  have "inj_on (\<lambda>k. (NextIP ^^ k) (RangeStart r)) {0..<Suc ?n}"
  proof (rule inj_onI)
    fix x y
    assume "x \<in> {0..<Suc ?n}" "y \<in> {0..<Suc ?n}"
      and eq: "(NextIP ^^ x) (RangeStart r) = (NextIP ^^ y) (RangeStart r)"
    then have "x \<le> ?n" "y \<le> ?n" by simp_all
    then have "ipToInt (RangeStart r) + x = ipToInt (RangeStart r) + y"
      using range_addr_value [OF assms] eq by metis
    then show "x = y" by simp
  qed
  then show ?thesis by (simp add: range_addrs_def distinct_map del: upt_Suc)
qed

text \<open>One step of the cursor: behind the end of a range comes the start of the next range.\<close>

definition advance :: "rangeset \<Rightarrow> nat \<times> ip \<Rightarrow> nat \<times> ip" where
  "advance rs = (\<lambda>(k, a).
     if ip_Equal a (RangeEnd (rs ! k))
     then let k' = (k + 1) mod length rs in (k', RangeStart (rs ! k'))
     else (k, NextIP a))"

lemma advance_inside:
  assumes "wf_range L (rs ! k)"
  shows "successively (\<lambda>x y. advance rs x = y) (map (Pair k) (range_addrs (rs ! k)))"
proof -
  let ?r = "rs ! k"
  let ?n = "ipToInt (RangeEnd ?r) - ipToInt (RangeStart ?r)"
  have "advance rs (k, (NextIP ^^ j) (RangeStart ?r)) = (k, (NextIP ^^ Suc j) (RangeStart ?r))"
    if "Suc j < Suc ?n" for j
  proof -
    have "proper_ip L ((NextIP ^^ j) (RangeStart ?r))"
      "ipToInt ((NextIP ^^ j) (RangeStart ?r)) \<noteq> ipToInt (RangeEnd ?r)"
      using that range_addr_value [OF assms, of j] by auto
    then show ?thesis using wf_range_simps(2) [OF assms]
      by (auto simp: advance_def proper_ip_length)
  qed
  then show ?thesis
    by (simp add: successively_conv_nth range_addrs_def del: upt_Suc funpow.simps)
qed

lemma advance_end:
  assumes "wf_range L (rs ! k)"
  shows "advance rs (last (map (Pair k) (range_addrs (rs ! k)))) =
    ((k + 1) mod length rs, RangeStart (rs ! ((k + 1) mod length rs)))"
  by (simp add: advance_def last_map last_range_addrs [OF assms] Let_def)

lemma ring_from_hd: "ring_from k (r # rs) \<noteq> []" "hd (ring_from k (r # rs)) = (k, RangeStart r)"
  by (simp_all add: hd_append hd_map)

lemma ring_from_successively:
  "wf_set rs \<Longrightarrow> rs = pre @ suf \<Longrightarrow> length pre = k \<Longrightarrow>
   successively (\<lambda>x y. advance rs x = y) (ring_from k suf) \<and>
   (suf \<noteq> [] \<longrightarrow> advance rs (last (ring_from k suf)) = (0, RangeStart (rs ! 0)))"
proof (induction suf arbitrary: pre k)
  case Nil
  then show ?case by simp
next
  case (Cons r suf)
  let ?P = "\<lambda>x y. advance rs x = y"
  have r: "rs ! k = r" and len: "length rs = Suc k + length suf"
    using Cons.prems(2,3) by auto
  obtain L where wf: "wf_range L (rs ! k)"
    using wf_set_nth [OF Cons.prems(1), of k] len by auto
  have IH: "successively ?P (ring_from (Suc k) suf)"
    "suf \<noteq> [] \<longrightarrow> advance rs (last (ring_from (Suc k) suf)) = (0, RangeStart (rs ! 0))"
    using Cons.IH [of "pre @ [r]" "Suc k"] Cons.prems by simp_all
  note inside = advance_inside [OF wf, unfolded r] and stop = advance_end [OF wf, unfolded r]
  show ?case
  proof (cases suf)
    case Nil
    with inside stop len show ?thesis by simp
  next
    case (Cons r' suf')
    then have "Suc k < length rs" "rs ! Suc k = r'"
      using len Cons.prems(2,3) by (auto simp: nth_append)
    then have "advance rs (last (map (Pair k) (range_addrs r))) = hd (ring_from (Suc k) suf)"
      using stop Cons ring_from_hd(2) [of "Suc k" r' suf'] by simp
    moreover have "ring_from (Suc k) suf \<noteq> []" using Cons ring_from_hd(1) by simp
    ultimately show ?thesis using inside IH Cons
      by (simp add: successively_append_iff del: ring_from.simps(2)) (simp add: successively_append_iff)
  qed
qed

lemma length_ring_pos: "rs \<noteq> [] \<Longrightarrow> ring rs \<noteq> []"
  by (cases rs) (simp_all add: ring_def)

lemma ring_hd: "rs \<noteq> [] \<Longrightarrow> hd (ring rs) = (0, RangeStart (rs ! 0))"
  by (cases rs) (simp_all add: ring_def hd_append hd_map)

lemma ring_advance:
  assumes "wf_set rs" "k < length (ring rs)"
  shows "advance rs (ring rs ! k) = ring rs ! (Suc k mod length (ring rs))"
proof -
  have ne: "rs \<noteq> []" "ring rs \<noteq> []" using assms(2) by (auto simp: ring_def)
  note s = ring_from_successively [OF assms(1), of "[]" rs 0, folded ring_def]
  show ?thesis
  proof (cases "Suc k < length (ring rs)")
    case True
    with s show ?thesis by (simp add: successively_conv_nth)
  next
    case False
    with assms(2) have k: "Suc k = length (ring rs)" by simp
    then have "ring rs ! k = last (ring rs)" using ne by (metis diff_Suc_1 last_conv_nth)
    moreover have "ring rs ! 0 = (0, RangeStart (rs ! 0))"
      using ring_hd [OF ne(1)] ne(2) by (simp add: hd_conv_nth)
    ultimately show ?thesis using s ne k by simp
  qed
qed

lemma mem_ring_from:
  "(m, a) \<in> set (ring_from k rs) \<longleftrightarrow>
   (\<exists>j. m = k + j \<and> j < length rs \<and> a \<in> set (range_addrs (rs ! j)))"
proof (induction rs arbitrary: k)
  case Nil
  then show ?case by simp
next
  case (Cons r rs)
  show ?case using Cons [of "Suc k"] by (auto simp: less_Suc_eq_0_disj)
qed

lemma in_ring:
  "(k, a) \<in> set (ring rs) \<longleftrightarrow> k < length rs \<and> a \<in> set (range_addrs (rs ! k))"
  by (simp add: ring_def mem_ring_from)

lemma distinct_ring_from: "wf_set rs \<Longrightarrow> distinct (ring_from k rs)"
proof (induction rs arbitrary: k)
  case Nil
  then show ?case by simp
next
  case (Cons r rs)
  then obtain L where "wf_range L r" "wf_set rs" by (auto simp: wf_set_def)
  with Cons.IH [of "Suc k"] distinct_range_addrs show ?case
    by (auto simp: distinct_map mem_ring_from intro: inj_onI)
qed

lemma distinct_ring: "wf_set rs \<Longrightarrow> distinct (ring rs)"
  by (simp add: ring_def distinct_ring_from)

section \<open>Pending positions\<close>

lemma ip_Equal_canon:
  assumes "proper_ip L b" "canon a \<noteq> []"
  shows "ip_Equal a b \<longleftrightarrow> canon a = b"
proof -
  have lb: "length b = 4 \<or> length b = 16 \<and> To4 b = []" using assms(1) by (auto simp: proper_ip_def)
  consider "length a = 4" | "length a = 16" "take 12 a = v4InV6Prefix" | "length a = 16" "To4 a = []"
    using assms(2) by (auto simp: canon_def To4_def To16_def split: if_splits)
  then show ?thesis
  proof cases
    case 1
    then have "canon a = a" "a \<noteq> []" by (auto simp: canon_def)
    with 1 lb show ?thesis by (auto simp: ip_Equal_def To4_def)
  next
    case 2
    then have t: "To4 a = drop 12 a" by (simp add: To4_def)
    moreover have "drop 12 a \<noteq> []" using 2(1) by simp
    ultimately have "canon a = drop 12 a" by (simp add: canon_def)
    with 2 t lb show ?thesis by (auto simp: ip_Equal_def To4_def)
  next
    case 3
    then have "canon a = a" "take 12 a \<noteq> v4InV6Prefix" by (auto simp: canon_def To4_def)
    with 3 lb show ?thesis by (auto simp: ip_Equal_def)
  qed
qed

lemma NextIP_canon [simp]: "NextIP (canon a) = NextIP a"
  by (simp add: NextIP_def)

definition is_gateway :: "rangeset \<Rightarrow> nat \<times> ip \<Rightarrow> bool" where
  "is_gateway rs x \<longleftrightarrow> ip_Equal (snd x) (Gateway (rs ! fst x))"

definition yield :: "rangeset \<Rightarrow> nat \<times> ip \<Rightarrow> ipnet \<times> ip" where
  "yield rs x =
     (\<lparr>IP = snd x, Mask = Mask (Subnet (rs ! fst x))\<rparr>, Gateway (rs ! fst x))"

definition visits :: "rangeset \<Rightarrow> nat \<Rightarrow> nat \<Rightarrow> (nat \<times> ip) list" where
  "visits rs k d = map (\<lambda>j. ring rs ! ((k + Suc j) mod length (ring rs))) [0..<d]"

definition cursor_at :: "rangeset \<Rightarrow> range_iter \<Rightarrow> nat \<Rightarrow> bool" where
  "cursor_at rs i k \<longleftrightarrow>
     k < length (ring rs) \<and> rangeIdx i = fst (ring rs ! k) \<and> canon (cur i) = snd (ring rs ! k)"

definition pending :: "rangeset \<Rightarrow> range_iter \<Rightarrow> (nat \<times> ip) list \<Rightarrow> bool" where
  "pending rs i xs \<longleftrightarrow> wf_set rs \<and> rs \<noteq> [] \<and> rset i = rs \<and>
     (cur i = [] \<and> rangeIdx i = 0 \<and> startRange i = 0 \<and> xs = ring rs
      \<or> (\<exists>k. cursor_at rs i k \<and> startIP i = [] \<and>
           startRange i = fst (ring rs ! (Suc k mod length (ring rs))) \<and>
           xs = visits rs k (length (ring rs)))
      \<or> (\<exists>k d. cursor_at rs i k \<and> d < length (ring rs) \<and>
           (startRange i, startIP i) = ring rs ! ((k + Suc d) mod length (ring rs)) \<and>
           xs = visits rs k d))"

lemma mod_Suc_shift: "Suc (Suc k mod n + x) mod n = Suc (Suc (k + x)) mod n"
  by (metis add_Suc add_Suc_right mod_add_left_eq)

lemma visits_0 [simp]: "visits rs k 0 = []"
  by (simp add: visits_def)

lemma visits_Suc:
  "visits rs k (Suc d) =
   ring rs ! (Suc k mod length (ring rs)) # visits rs (Suc k mod length (ring rs)) d"
  by (simp add: visits_def map_upt_Suc mod_Suc_shift del: upt_Suc)

lemma ring_nth_facts:
  assumes "wf_set rs" "k < length (ring rs)"
  obtains L where "fst (ring rs ! k) < length rs" "wf_range L (rs ! fst (ring rs ! k))"
    "proper_ip L (snd (ring rs ! k))"
proof -
  obtain m a where x: "ring rs ! k = (m, a)" by (cases "ring rs ! k")
  then have "(m, a) \<in> set (ring rs)" using assms(2) by (metis nth_mem)
  then have m: "m < length rs" "a \<in> set (range_addrs (rs ! m))" by (simp_all add: in_ring)
  obtain L where wf: "wf_range L (rs ! m)" using wf_set_nth [OF assms(1) m(1)] by blast
  with m(2) have "proper_ip L a" by (auto simp: set_range_addrs in_range_def)
  with that [of L] x m wf show thesis by simp
qed

text \<open>One round of \<open>Next\<close> with a cursor moves it one position along the ring.\<close>

lemma Next_body_moves:
  assumes "wf_set rs" "rset i = rs" "cursor_at rs i k"
    and x: "x = ring rs ! (Suc k mod length (ring rs))"
    and j: "j = i\<lparr>rangeIdx := fst x, cur := snd x\<rparr>"
  shows "Next_body i =
    (if startIP i \<noteq> [] \<and> fst x = startRange i \<and> ip_Equal (snd x) (startIP i)
     then Returns (Exhausted j)
     else let j' = (if startIP i = [] then j\<lparr>startIP := snd x\<rparr> else j) in
       if is_gateway rs x then Returns (Skip j')
       else Returns (Yield (fst (yield rs x)) (snd (yield rs x)) j'))"
proof -
  have k: "k < length (ring rs)" and at: "ring rs ! k = (rangeIdx i, canon (cur i))"
    using assms(3) by (auto simp: cursor_at_def prod_eq_iff)
  obtain L where m: "rangeIdx i < length rs" and wf: "wf_range L (rs ! rangeIdx i)"
    and p: "proper_ip L (canon (cur i))"
    using ring_nth_facts [OF assms(1) k] at by (metis fst_conv snd_conv)
  have cur: "cur i \<noteq> []" "canon (cur i) \<noteq> []" using p by auto
  have eq: "ip_Equal (cur i) (RangeEnd (rs ! rangeIdx i)) \<longleftrightarrow> canon (cur i) = RangeEnd (rs ! rangeIdx i)"
    "ip_Equal (canon (cur i)) (RangeEnd (rs ! rangeIdx i)) \<longleftrightarrow> canon (cur i) = RangeEnd (rs ! rangeIdx i)"
    using ip_Equal_canon [of L "RangeEnd (rs ! rangeIdx i)"] wf_range_simps(2) [OF wf] cur(2) by simp_all
  have adv: "advance rs (rangeIdx i, canon (cur i)) = x"
    using ring_advance [OF assms(1) k] at x by simp
  show ?thesis
  proof (cases "canon (cur i) = RangeEnd (rs ! rangeIdx i)")
    case True
    let ?k = "Suc (rangeIdx i) mod length rs"
    have "?k < length rs" using m by (intro mod_less_divisor) linarith
    moreover have "x = (?k, RangeStart (rs ! ?k))"
      using adv True eq by (simp add: advance_def Let_def)
    ultimately show ?thesis
      using True eq m cur assms(2) j
      by (auto simp: Next_body_def index_def Let_def is_gateway_def yield_def)
  next
    case False
    then have "x = (rangeIdx i, NextIP (cur i))"
      using adv eq by (simp add: advance_def)
    then show ?thesis
      using False eq m cur assms(2) j
      by (simp add: Next_body_def index_def Let_def is_gateway_def yield_def)
  qed
qed

lemma ring_start_eq:
  assumes "wf_set rs" "k < length (ring rs)" "s < length (ring rs)"
  shows "fst (ring rs ! k) = fst (ring rs ! s) \<and> ip_Equal (snd (ring rs ! k)) (snd (ring rs ! s))
    \<longleftrightarrow> k = s"
proof
  assume h: "fst (ring rs ! k) = fst (ring rs ! s) \<and> ip_Equal (snd (ring rs ! k)) (snd (ring rs ! s))"
  obtain L where L: "wf_range L (rs ! fst (ring rs ! k))" "proper_ip L (snd (ring rs ! k))"
    using ring_nth_facts [OF assms(1,2)] by blast
  obtain M where M: "wf_range M (rs ! fst (ring rs ! s))" "proper_ip M (snd (ring rs ! s))"
    using ring_nth_facts [OF assms(1,3)] by blast
  have "L = M" using L(1) M(1) h wf_range_simps(1) proper_ip_unique by metis
  then have "snd (ring rs ! k) = snd (ring rs ! s)" using h L(2) M(2) by (simp add: proper_ip_length)
  then have "ring rs ! k = ring rs ! s" using h by (simp add: prod_eq_iff)
  then show "k = s" using distinct_ring [OF assms(1)] assms(2,3) by (simp add: nth_eq_iff_index_eq)
qed simp

lemma cursor_at_moved:
  assumes "wf_set rs" "k < length (ring rs)" "rangeIdx j = fst (ring rs ! k)" "cur j = snd (ring rs ! k)"
  shows "cursor_at rs j k"
proof -
  obtain L where "proper_ip L (snd (ring rs ! k))" using ring_nth_facts [OF assms(1,2)] by blast
  then show ?thesis using assms by (simp add: cursor_at_def)
qed

definition hands_out :: "rangeset \<Rightarrow> range_iter \<Rightarrow> nat \<times> ip \<Rightarrow> range_iter \<Rightarrow> bool" where
  "hands_out rs i x i' \<longleftrightarrow>
     Next_body i = Returns (if is_gateway rs x then Skip i'
                            else Yield (fst (yield rs x)) (snd (yield rs x)) i')"

lemma pending_running:
  assumes "wf_set rs" "rs \<noteq> []" "rset i = rs" "cursor_at rs i k" "d < length (ring rs)"
    "(startRange i, startIP i) = ring rs ! ((k + Suc d) mod length (ring rs))"
  shows "(d = 0 \<longrightarrow> (\<exists>i'. Next_body i = Returns (Exhausted i'))) \<and>
    (\<forall>d'. d = Suc d' \<longrightarrow> (\<exists>i'. hands_out rs i (ring rs ! (Suc k mod length (ring rs))) i' \<and>
       pending rs i' (visits rs (Suc k mod length (ring rs)) d')))"
proof -
  let ?n = "length (ring rs)"
  let ?k = "Suc k mod ?n" and ?s = "(k + Suc d) mod ?n"
  let ?x = "ring rs ! ?k"
  have n: "0 < ?n" using assms(4) by (auto simp: cursor_at_def)
  then have lt: "?k < ?n" "?s < ?n" by simp_all
  have st: "startRange i = fst (ring rs ! ?s)" "startIP i = snd (ring rs ! ?s)"
    using assms(6) by (metis fst_conv, metis snd_conv)
  have ne: "startIP i \<noteq> []"
    using ring_nth_facts [OF assms(1) lt(2)] st(2) by (metis proper_ip_nonempty)
  have stop: "fst ?x = startRange i \<and> ip_Equal (snd ?x) (startIP i) \<longleftrightarrow> ?k = ?s"
    unfolding st by (rule ring_start_eq [OF assms(1) lt])
  note moves = Next_body_moves [OF assms(1,3,4) refl refl]
  show ?thesis
  proof (intro conjI impI allI)
    assume "d = 0"
    then show "\<exists>i'. Next_body i = Returns (Exhausted i')"
      using moves stop ne by simp
  next
    fix d'
    assume d: "d = Suc d'"
    let ?j = "i\<lparr>rangeIdx := fst ?x, cur := snd ?x\<rparr>"
    have "?k \<noteq> ?s"
    proof
      assume "?k = ?s"
      then have "Suc k mod ?n = (Suc k + d) mod ?n" by simp
      then have "?n dvd d" by (metis add_diff_cancel_left' le_add1 mod_eq_dvd_iff_nat)
      with d assms(5) show False by (simp add: nat_dvd_not_less)
    qed
    then have "hands_out rs i ?x ?j"
      using moves stop ne by (simp add: hands_out_def Let_def)
    moreover have "pending rs ?j (visits rs ?k d')"
    proof -
      have "cursor_at rs ?j ?k" using assms(1) lt(1) by (intro cursor_at_moved) simp_all
      moreover have "(?k + Suc d') mod ?n = ?s" using d by (simp add: mod_Suc_shift)
      ultimately show ?thesis
        using assms d unfolding pending_def by (intro conjI disjI2 exI [of _ ?k] exI [of _ d']) simp_all
    qed
    ultimately show "\<exists>i'. hands_out rs i ?x i' \<and> pending rs i' (visits rs ?k d')" by blast
  qed
qed

lemma ring_visits: "rs \<noteq> [] \<Longrightarrow> ring rs = ring rs ! 0 # visits rs 0 (length (ring rs) - 1)"
proof -
  assume "rs \<noteq> []"
  then obtain m where n: "length (ring rs) = Suc m" using length_ring_pos by (cases "ring rs") auto
  show ?thesis
  proof (rule nth_equalityI)
    show "length (ring rs) = length (ring rs ! 0 # visits rs 0 (length (ring rs) - 1))"
      by (simp add: visits_def n)
    show "ring rs ! j = (ring rs ! 0 # visits rs 0 (length (ring rs) - 1)) ! j"
      if "j < length (ring rs)" for j
      using that by (cases j) (simp_all add: visits_def n)
  qed
qed

lemma visits_rotate: "visits rs k (length (ring rs)) = rotate (Suc k) (ring rs)"
  by (rule nth_equalityI) (simp_all add: visits_def nth_rotate ac_simps del: rotate_Suc)

text \<open>The main step: \<open>Next_body\<close> hands out the first pending position.\<close>

lemma pending_step:
  assumes "pending rs i xs"
  shows "xs = [] \<Longrightarrow> \<exists>i'. Next_body i = Returns (Exhausted i')"
    and "xs = x # ys \<Longrightarrow> \<exists>i'. hands_out rs i x i' \<and> pending rs i' ys"
proof -
  let ?n = "length (ring rs)"
  have wf: "wf_set rs" and rs: "rs \<noteq> []" and i: "rset i = rs" using assms by (simp_all add: pending_def)
  have n: "0 < ?n" using length_ring_pos [OF rs] by simp
  consider (fresh) "cur i = []" "rangeIdx i = 0" "startRange i = 0" "xs = ring rs"
    | (resume) k where "cursor_at rs i k" "startIP i = []" "startRange i = fst (ring rs ! (Suc k mod ?n))"
        "xs = visits rs k ?n"
    | (run) k d where "cursor_at rs i k" "d < ?n"
        "(startRange i, startIP i) = ring rs ! ((k + Suc d) mod ?n)" "xs = visits rs k d"
    using assms by (auto simp: pending_def)
  then have "(xs = [] \<longrightarrow> (\<exists>i'. Next_body i = Returns (Exhausted i'))) \<and>
    (xs = x # ys \<longrightarrow> (\<exists>i'. hands_out rs i x i' \<and> pending rs i' ys))"
  proof cases
    case run
    note r = pending_running [OF wf rs i run(1-3)]
    show ?thesis
    proof (cases d)
      case 0
      with r run(4) show ?thesis by simp
    next
      case (Suc d')
      with r run(4) show ?thesis by (auto simp: visits_Suc)
    qed
  next
    case resume
    let ?k = "Suc k mod ?n"
    let ?x = "ring rs ! ?k"
    let ?j = "i\<lparr>rangeIdx := fst ?x, cur := snd ?x, startIP := snd ?x\<rparr>"
    obtain m where m: "?n = Suc m" using n by (cases ?n) auto
    have xs: "xs = ?x # visits rs ?k m" using resume(4) visits_Suc [of rs k m] m by simp
    have "hands_out rs i ?x ?j"
      using Next_body_moves [OF wf i resume(1) refl refl] resume(2) by (simp add: hands_out_def Let_def)
    moreover have "pending rs ?j (visits rs ?k m)"
    proof -
      have "cursor_at rs ?j ?k" using wf n by (intro cursor_at_moved) simp_all
      moreover have "(?k + Suc m) mod ?n = ?k" by (metis m mod_add_self2 mod_mod_trivial)
      ultimately show ?thesis using wf rs i resume(3) m unfolding pending_def
        by (intro conjI disjI2 exI [of _ ?k] exI [of _ m]) simp_all
    qed
    ultimately show ?thesis using xs by auto
  next
    case fresh
    let ?x = "ring rs ! 0"
    have x0: "?x = (0, RangeStart (rs ! 0))" using ring_hd [OF rs] n by (simp add: hd_conv_nth)
    let ?j = "i\<lparr>cur := snd ?x, startIP := snd ?x\<rparr>"
    obtain m where m: "?n = Suc m" using n by (cases ?n) auto
    have xs: "xs = ?x # visits rs 0 m" using fresh(4) ring_visits [OF rs] m by simp
    have "hands_out rs i ?x ?j"
      using fresh i rs by (simp add: Next_body_def hands_out_def index_def Let_def x0 is_gateway_def yield_def)
    moreover have "pending rs ?j (visits rs 0 m)"
    proof -
      have "cursor_at rs ?j 0" using wf n x0 fresh(2) by (intro cursor_at_moved) simp_all
      moreover have "(0 + Suc m) mod ?n = 0" using m by simp
      ultimately show ?thesis using wf rs i fresh(3) m x0 unfolding pending_def
        by (intro conjI disjI2 exI [of _ 0] exI [of _ m]) simp_all
    qed
    ultimately show ?thesis using xs by auto
  qed
  then show "xs = [] \<Longrightarrow> \<exists>i'. Next_body i = Returns (Exhausted i')"
    "xs = x # ys \<Longrightarrow> \<exists>i'. hands_out rs i x i' \<and> pending rs i' ys" by auto
qed

text \<open>\<open>Next\<close> returns: the first pending position that is no gateway, or the end.\<close>

lemma Next_pending_None:
  "pending rs i xs \<Longrightarrow> dropWhile (is_gateway rs) xs = [] \<Longrightarrow>
   \<exists>i'. Next i = Some (Returns (None, i'))"
proof (induction xs arbitrary: i)
  case Nil
  from pending_step(1) [OF Nil(1)] obtain i' where "Next_body i = Returns (Exhausted i')" by blast
  then show ?case by (simp add: Next.simps)
next
  case (Cons x ys)
  from pending_step(2) [OF Cons.prems(1) refl] obtain i' where
    i': "hands_out rs i x i'" "pending rs i' ys" by blast
  have gw: "is_gateway rs x" "dropWhile (is_gateway rs) ys = []"
    using Cons.prems(2) by (auto split: if_splits)
  then have "Next i = Next i'" using i'(1) by (subst Next.simps) (simp add: hands_out_def)
  with Cons.IH [OF i'(2) gw(2)] show ?case by simp
qed

lemma Next_pending_Some:
  "pending rs i xs \<Longrightarrow> dropWhile (is_gateway rs) xs = y # zs \<Longrightarrow>
   \<exists>i'. Next i = Some (Returns (Some (yield rs y), i')) \<and> pending rs i' zs"
proof (induction xs arbitrary: i)
  case Nil
  then show ?case by simp
next
  case (Cons x ys)
  from pending_step(2) [OF Cons.prems(1) refl] obtain i' where
    i': "hands_out rs i x i'" "pending rs i' ys" by blast
  show ?case
  proof (cases "is_gateway rs x")
    case True
    then have "Next i = Next i'" using i'(1) by (subst Next.simps) (simp add: hands_out_def)
    with True Cons.IH [OF i'(2)] Cons.prems(2) show ?thesis by simp
  next
    case False
    then have "Next i = Some (Returns (Some (yield rs x), i'))"
      using i'(1) by (subst Next.simps) (simp add: hands_out_def)
    with False i'(2) Cons.prems(2) show ?thesis by auto
  qed
qed

section \<open>Where GetIter starts\<close>

text \<open>
  The order in which an allocation tries the addresses: from behind the last reserved address if
  the set contains it, from the first range otherwise.
\<close>

definition ring_pos :: "rangeset \<Rightarrow> ip \<Rightarrow> nat option" where
  "ring_pos rs a =
     (case find_range 0 rs a of
        None \<Rightarrow> None
      | Some m \<Rightarrow> Some (length (takeWhile (\<lambda>x. x \<noteq> (m, canon a)) (ring rs))))"

definition try_order :: "rangeset \<Rightarrow> ip \<Rightarrow> (nat \<times> ip) list" where
  "try_order rs prev =
     (case ring_pos rs prev of None \<Rightarrow> ring rs | Some k \<Rightarrow> rotate (Suc k) (ring rs))"

lemma find_range_Some:
  "find_range k rs a = Some m \<Longrightarrow> k \<le> m \<and> m < k + length rs \<and> Range_Contains (rs ! (m - k)) a"
proof (induction k rs a rule: find_range.induct)
  case (1 k a)
  then show ?case by simp
next
  case (2 k r rs a)
  show ?case
  proof (cases "Range_Contains r a")
    case True
    with 2 show ?thesis by simp
  next
    case False
    with 2 have "Suc k \<le> m \<and> m < Suc k + length rs \<and> Range_Contains (rs ! (m - Suc k)) a" by simp
    then show ?thesis by (auto simp: nth_Cons' Suc_diff_Suc)
  qed
qed

lemma find_range_None: "find_range k rs a = None \<longleftrightarrow> (\<forall>r \<in> set rs. \<not> Range_Contains r a)"
  by (induction k rs a rule: find_range.induct) auto

lemma ring_pos_Some:
  assumes "wf_set rs" "ring_pos rs a = Some k"
  obtains m where "find_range 0 rs a = Some m" "k < length (ring rs)" "ring rs ! k = (m, canon a)"
proof -
  from assms(2) obtain m where m: "find_range 0 rs a = Some m"
    and k: "k = length (takeWhile (\<lambda>x. x \<noteq> (m, canon a)) (ring rs))"
    by (auto simp: ring_pos_def split: option.splits)
  from find_range_Some [OF m] have c: "m < length rs" "Range_Contains (rs ! m) a" by simp_all
  obtain L where wf: "wf_range L (rs ! m)" using wf_set_nth [OF assms(1) c(1)] by blast
  have "canon a \<in> set (range_addrs (rs ! m))"
    using c(2) by (simp add: Range_Contains_wf [OF wf] set_range_addrs [OF wf] in_range_def)
  then have mem: "(m, canon a) \<in> set (ring rs)" using c(1) by (simp add: in_ring)
  have lt: "k < length (ring rs)"
  proof (rule ccontr)
    assume "\<not> k < length (ring rs)"
    then have "takeWhile (\<lambda>x. x \<noteq> (m, canon a)) (ring rs) = ring rs"
      using k by (metis length_takeWhile_le order_antisym takeWhile_eq_take take_all linorder_not_less)
    then show False using mem by (metis (mono_tags, lifting) takeWhile_eq_all_conv)
  qed
  then have "ring rs ! k = (m, canon a)"
    using nth_length_takeWhile [of "\<lambda>x. x \<noteq> (m, canon a)" "ring rs"] k by simp
  with that m lt show thesis by blast
qed

text \<open>
  Resuming is only sound when the step behind the last reserved address stays in its range: the
  stop test of \<open>Next\<close> compares the range index with the index where the iterator was made.
\<close>

definition resumes_ok :: "rangeset \<Rightarrow> ip \<Rightarrow> bool" where
  "resumes_ok rs prev =
     (case ring_pos rs prev of
        None \<Rightarrow> True
      | Some k \<Rightarrow> fst (ring rs ! (Suc k mod length (ring rs))) = fst (ring rs ! k))"

lemma resumes_ok_single: "length rs = 1 \<Longrightarrow> wf_set rs \<Longrightarrow> resumes_ok rs prev"
proof -
  assume l: "length rs = 1" and wf: "wf_set rs"
  have z: "fst (ring rs ! k) = 0" if "k < length (ring rs)" for k
    using ring_nth_facts [OF wf that] l by auto
  have "fst (ring rs ! (Suc k mod length (ring rs))) = fst (ring rs ! k)"
    if "ring_pos rs prev = Some k" for k
  proof -
    from wf that obtain m where "k < length (ring rs)" by (rule ring_pos_Some)
    moreover from this have "Suc k mod length (ring rs) < length (ring rs)"
      by (intro mod_less_divisor) linarith
    ultimately show ?thesis by (simp add: z)
  qed
  then show ?thesis by (simp add: resumes_ok_def split: option.split)
qed

lemma GetIter_pending:
  assumes "wf_set rs" "rs \<noteq> []" "LastReservedIP ops rid s = (res, s1)"
    "prev = (case res of Inl e \<Rightarrow> [] | Inr a \<Rightarrow> a)" "resumes_ok rs prev"
  shows "\<exists>i. GetIter ops rs rid s = (Returns i, s1) \<and> pending rs i (try_order rs prev)"
proof (cases "ring_pos rs prev")
  case None
  then have "find_range 0 rs prev = None" by (auto simp: ring_pos_def split: option.splits)
  then have no: "\<not> RangeSet_Contains rs prev" by (simp add: find_range_None RangeSet_Contains_iff)
  let ?i = "\<lparr>rset = rs, rangeIdx = 0, cur = [], startIP = RangeStart (rs ! 0), startRange = 0\<rparr>"
  have "GetIter ops rs rid s = (Returns ?i, s1)"
    using no assms(2,3,4) by (simp add: GetIter_def Let_def index_def)
  moreover have "pending rs ?i (try_order rs prev)"
    using assms(1,2) None by (simp add: pending_def try_order_def)
  ultimately show ?thesis by blast
next
  case (Some k)
  with assms(1) obtain m where m: "find_range 0 rs prev = Some m" "k < length (ring rs)"
    "ring rs ! k = (m, canon prev)" by (rule ring_pos_Some)
  have yes: "RangeSet_Contains rs prev"
    using m(1) find_range_None [of 0 rs prev] by (auto simp: RangeSet_Contains_iff)
  have "canon prev \<noteq> []" using yes Range_Contains_nonempty by (auto simp: RangeSet_Contains_iff)
  then have ne: "prev \<noteq> []" by auto
  let ?i = "\<lparr>rset = rs, rangeIdx = m, cur = prev, startIP = [], startRange = m\<rparr>"
  have "GetIter ops rs rid s = (Returns ?i, s1)"
    using yes ne m(1) assms(3,4) by (simp add: GetIter_def Let_def)
  moreover have "cursor_at rs ?i k" using m by (simp add: cursor_at_def)
  moreover have "m = fst (ring rs ! (Suc k mod length (ring rs)))"
    using assms(5) Some m(3) by (simp add: resumes_ok_def)
  ultimately show ?thesis
    using assms(1,2) Some by (auto simp: pending_def try_order_def visits_rotate)
qed

lemma set_try_order: "set (try_order rs prev) = set (ring rs)"
  by (simp add: try_order_def split: option.split)

lemma distinct_try_order: "wf_set rs \<Longrightarrow> distinct (try_order rs prev)"
  by (simp add: try_order_def distinct_ring split: option.split)

section \<open>What the iterator offers\<close>

text \<open>The iterator never leaves the ring, whatever address it was resumed from.\<close>

definition iter_ok :: "rangeset \<Rightarrow> range_iter \<Rightarrow> bool" where
  "iter_ok rs i \<longleftrightarrow> wf_set rs \<and> rs \<noteq> [] \<and> rset i = rs \<and>
     (cur i = [] \<and> rangeIdx i = 0 \<or> (\<exists>k. cursor_at rs i k))"

definition offers :: "rangeset \<Rightarrow> ipnet \<times> ip \<Rightarrow> bool" where
  "offers rs ng \<longleftrightarrow> ng \<in> yield rs ` {x \<in> set (ring rs). \<not> is_gateway rs x}"

lemma Next_body_ok:
  assumes "iter_ok rs i"
  shows "\<exists>x i'. x \<in> set (ring rs) \<and> iter_ok rs i' \<and>
    (Next_body i = Returns (Exhausted i') \<or> hands_out rs i x i')"
proof -
  have wf: "wf_set rs" and rs: "rs \<noteq> []" and i: "rset i = rs" using assms by (simp_all add: iter_ok_def)
  have n: "0 < length (ring rs)" using length_ring_pos [OF rs] by simp
  consider (fresh) "cur i = []" "rangeIdx i = 0" | (moving) k where "cursor_at rs i k"
    using assms by (auto simp: iter_ok_def)
  then show ?thesis
  proof cases
    case fresh
    let ?x = "ring rs ! 0"
    have x0: "?x = (0, RangeStart (rs ! 0))" using ring_hd [OF rs] n by (simp add: hd_conv_nth)
    let ?j = "i\<lparr>cur := snd ?x, startIP := snd ?x\<rparr>"
    have "hands_out rs i ?x ?j"
      using fresh i rs by (simp add: Next_body_def hands_out_def index_def Let_def x0 is_gateway_def yield_def)
    moreover have "iter_ok rs ?j"
      using wf rs i n x0 fresh(2) cursor_at_moved [OF wf n, of ?j] by (auto simp: iter_ok_def)
    ultimately show ?thesis using n by (meson nth_mem)
  next
    case moving
    let ?k = "Suc k mod length (ring rs)"
    let ?x = "ring rs ! ?k"
    let ?j = "i\<lparr>rangeIdx := fst ?x, cur := snd ?x\<rparr>"
    have lt: "?k < length (ring rs)" using n by simp
    have ok: "iter_ok rs ?j" "iter_ok rs (?j\<lparr>startIP := snd ?x\<rparr>)"
      using wf rs i cursor_at_moved [OF wf lt, of ?j] cursor_at_moved [OF wf lt, of "?j\<lparr>startIP := snd ?x\<rparr>"]
      by (auto simp: iter_ok_def)
    have "Next_body i = Returns (Exhausted ?j) \<or> hands_out rs i ?x ?j \<or>
        hands_out rs i ?x (?j\<lparr>startIP := snd ?x\<rparr>)"
      using Next_body_moves [OF wf i moving refl refl] by (auto simp: hands_out_def Let_def)
    with ok lt show ?thesis by (meson nth_mem)
  qed
qed

lemma Next_ok:
  assumes "Next i = Some y" "iter_ok rs i"
  shows "\<exists>r. y = Returns r \<and> iter_ok rs (snd r) \<and> (\<forall>ng. fst r = Some ng \<longrightarrow> offers rs ng)"
proof -
  let ?P = "\<lambda>i y. iter_ok rs i \<longrightarrow>
    (\<exists>r. y = Returns r \<and> iter_ok rs (snd r) \<and> (\<forall>ng. fst r = Some ng \<longrightarrow> offers rs ng))"
  have "?P i y"
  proof (rule Next.raw_induct [where P = ?P, OF _ assms(1)], rule impI)
    fix f i y
    assume IH: "\<And>i y. f i = Some y \<Longrightarrow> ?P i y" and ok: "iter_ok rs i"
      and run: "(case Next_body i of Panics \<Rightarrow> Some Panics
        | Returns st \<Rightarrow> (case st of Exhausted i' \<Rightarrow> Some (Returns (None, i'))
           | Skip i' \<Rightarrow> f i' | Yield n g i' \<Rightarrow> Some (Returns (Some (n, g), i')))) = Some y"
    from Next_body_ok [OF ok] obtain x i' where x: "x \<in> set (ring rs)" "iter_ok rs i'"
      "Next_body i = Returns (Exhausted i') \<or> hands_out rs i x i'" by blast
    show "\<exists>r. y = Returns r \<and> iter_ok rs (snd r) \<and> (\<forall>ng. fst r = Some ng \<longrightarrow> offers rs ng)"
    proof (cases "hands_out rs i x i' \<and> is_gateway rs x")
      case True
      with run have "f i' = Some y" by (simp add: hands_out_def)
      with IH x(2) show ?thesis by blast
    next
      case False
      then have "\<not> is_gateway rs x \<longrightarrow> offers rs (yield rs x)" using x(1) by (simp add: offers_def)
      with False run x(2,3) show ?thesis
        by (auto simp: hands_out_def split: if_splits)
    qed
  qed
  with assms(2) show ?thesis by blast
qed

lemma GetIter_ok:
  assumes "wf_set rs" "rs \<noteq> []"
  shows "\<exists>i. GetIter ops rs rid s = (Returns i, snd (LastReservedIP ops rid s)) \<and> iter_ok rs i"
proof -
  obtain res s1 where l: "LastReservedIP ops rid s = (res, s1)" by (cases "LastReservedIP ops rid s")
  define prev where "prev = (case res of Inl e \<Rightarrow> [] | Inr a \<Rightarrow> a)"
  show ?thesis
  proof (cases "prev \<noteq> [] \<and> RangeSet_Contains rs prev")
    case True
    then obtain m where m: "find_range 0 rs prev = Some m"
      using find_range_None [of 0 rs prev] by (auto simp: RangeSet_Contains_iff)
    then obtain k where k: "ring_pos rs prev = Some k" by (auto simp: ring_pos_def)
    from assms(1) k obtain m' where "find_range 0 rs prev = Some m'"
      "k < length (ring rs)" "ring rs ! k = (m', canon prev)" by (rule ring_pos_Some)
    with m have "iter_ok rs \<lparr>rset = rs, rangeIdx = m, cur = prev, startIP = [], startRange = m\<rparr>"
      using assms by (auto simp: iter_ok_def cursor_at_def)
    with True m show ?thesis by (simp add: GetIter_def Let_def l prev_def)
  next
    case False
    then have "GetIter ops rs rid s = (Returns \<lparr>rset = rs, rangeIdx = 0, cur = [],
        startIP = RangeStart (rs ! 0), startRange = 0\<rparr>, s1)"
      using assms(2) by (auto simp: GetIter_def Let_def index_def l prev_def)
    then show ?thesis using l assms by (simp add: iter_ok_def)
  qed
qed

lemma offers_range:
  assumes "wf_set rs" "offers rs ng"
  shows "\<exists>r \<in> set rs. Range_Contains r (IP (fst ng)) \<and> Mask (fst ng) = Mask (Subnet r) \<and>
    snd ng = Gateway r \<and> \<not> ip_Equal (IP (fst ng)) (Gateway r)"
proof -
  from assms(2) obtain m a where x: "(m, a) \<in> set (ring rs)" "\<not> is_gateway rs (m, a)" "yield rs (m, a) = ng"
    by (auto simp: offers_def)
  then have m: "m < length rs" "a \<in> set (range_addrs (rs ! m))" by (simp_all add: in_ring)
  obtain L where "wf_range L (rs ! m)" using wf_set_nth [OF assms(1) m(1)] by blast
  with m(2) have "Range_Contains (rs ! m) a" by (simp add: set_range_addrs Range_Contains_wf)
  with x m(1) show ?thesis by (auto simp: yield_def is_gateway_def intro!: bexI [of _ "rs ! m"])
qed

section \<open>A resumed iterator that never stops\<close>

text \<open>
  The stop test of \<open>Next\<close> compares the range index with the index where the iterator was made.
  When the last reserved address ends its range, the first step goes to the next range, and no
  position has that index and the start address.
\<close>

definition never_stops :: "rangeset \<Rightarrow> range_iter \<Rightarrow> bool" where
  "never_stops rs i \<longleftrightarrow> wf_set rs \<and> rset i = rs \<and>
     (\<exists>k start. cursor_at rs i k \<and> start \<in> snd ` set (ring rs) \<and> (startRange i, start) \<notin> set (ring rs) \<and>
       (startIP i = start \<or> startIP i = [] \<and> start = snd (ring rs ! (Suc k mod length (ring rs)))))"

lemma ip_Equal_ring:
  assumes "wf_set rs" "x \<in> set (ring rs)" "a \<in> snd ` set (ring rs)"
  shows "ip_Equal (snd x) a \<longleftrightarrow> snd x = a"
proof -
  obtain y where y: "y \<in> set (ring rs)" "a = snd y" using assms(3) by blast
  obtain L where x: "proper_ip L (snd x)"
    using assms(2) ring_nth_facts [OF assms(1)] by (metis in_set_conv_nth)
  obtain M where "proper_ip M (snd y)"
    using y(1) ring_nth_facts [OF assms(1)] by (metis in_set_conv_nth)
  with x ip_Equal_canon [of M "snd y" "snd x"] y(2) show ?thesis by auto
qed

lemma Next_body_never_stops:
  assumes "never_stops rs i"
  shows "\<exists>x i'. x \<in> set (ring rs) \<and> hands_out rs i x i' \<and> never_stops rs i'"
proof -
  from assms obtain k start where wf: "wf_set rs" and i: "rset i = rs" and k: "cursor_at rs i k"
    and st: "start \<in> snd ` set (ring rs)" "(startRange i, start) \<notin> set (ring rs)"
    and cases: "startIP i = start \<or> startIP i = [] \<and> start = snd (ring rs ! (Suc k mod length (ring rs)))"
    by (auto simp: never_stops_def)
  let ?k = "Suc k mod length (ring rs)"
  let ?x = "ring rs ! ?k"
  let ?j = "i\<lparr>rangeIdx := fst ?x, cur := snd ?x, startIP := start\<rparr>"
  have "0 < length (ring rs)" using k by (auto simp: cursor_at_def)
  then have lt: "?k < length (ring rs)" by simp
  then have x: "?x \<in> set (ring rs)" by (rule nth_mem)
  have "cursor_at rs ?j ?k" using cursor_at_moved [OF wf lt, of ?j] by simp
  then have "never_stops rs ?j" using wf i st unfolding never_stops_def by auto
  moreover have "hands_out rs i ?x ?j"
  proof (cases "startIP i = []")
    case True
    have "[] \<notin> snd ` set (ring rs)"
      using ring_nth_facts [OF wf] by (metis (no_types, lifting) imageE in_set_conv_nth proper_ip_Nil)
    with True cases st have "start = snd ?x" by auto
    with True Next_body_moves [OF wf i k refl refl] show ?thesis by (simp add: hands_out_def Let_def)
  next
    case False
    then have s: "startIP i = start" using cases by simp
    have "\<not> (fst ?x = startRange i \<and> ip_Equal (snd ?x) start)"
      using ip_Equal_ring [OF wf x st(1)] st(2) x by (metis prod.collapse)
    with s False Next_body_moves [OF wf i k refl refl] show ?thesis
      by (simp add: hands_out_def Let_def)
  qed
  ultimately show ?thesis using x by blast
qed

lemma Next_never_stops:
  assumes "Next i = Some y" "never_stops rs i"
  shows "\<exists>x i'. x \<in> set (ring rs) \<and> \<not> is_gateway rs x \<and> y = Returns (Some (yield rs x), i') \<and> never_stops rs i'"
proof -
  let ?Q = "\<lambda>y. \<exists>x i'. x \<in> set (ring rs) \<and> \<not> is_gateway rs x \<and>
    y = Returns (Some (yield rs x), i') \<and> never_stops rs i'"
  have "never_stops rs i \<longrightarrow> ?Q y"
  proof (rule Next.raw_induct [where P = "\<lambda>i y. never_stops rs i \<longrightarrow> ?Q y", OF _ assms(1)], rule impI)
    fix f i y
    assume IH: "\<And>i y. f i = Some y \<Longrightarrow> never_stops rs i \<longrightarrow> ?Q y" and ok: "never_stops rs i"
      and run: "(case Next_body i of Panics \<Rightarrow> Some Panics
        | Returns st \<Rightarrow> (case st of Exhausted i' \<Rightarrow> Some (Returns (None, i'))
           | Skip i' \<Rightarrow> f i' | Yield n g i' \<Rightarrow> Some (Returns (Some (n, g), i')))) = Some y"
    from Next_body_never_stops [OF ok] obtain x i' where
      x: "x \<in> set (ring rs)" "hands_out rs i x i'" "never_stops rs i'" by blast
    show "?Q y"
    proof (cases "is_gateway rs x")
      case True
      with run x(2) have "f i' = Some y" by (simp add: hands_out_def)
      with IH x(3) show ?thesis by blast
    next
      case False
      with run x(2) have "y = Returns (Some (yield rs x), i')" by (simp add: hands_out_def)
      with False x show ?thesis by blast
    qed
  qed
  with assms(2) show ?thesis by blast
qed

text \<open>The situation: the last reserved address ends its range, and the next range is another one.\<close>

definition wraps_away :: "rangeset \<Rightarrow> ip \<Rightarrow> bool" where
  "wraps_away rs prev =
     (case ring_pos rs prev of
        None \<Rightarrow> False
      | Some k \<Rightarrow> (fst (ring rs ! k), snd (ring rs ! (Suc k mod length (ring rs)))) \<notin> set (ring rs))"

definition prev_reserved :: "'s store_ops \<Rightarrow> string \<Rightarrow> 's \<Rightarrow> ip" where
  "prev_reserved ops rid s = (case fst (LastReservedIP ops rid s) of Inl e \<Rightarrow> [] | Inr a \<Rightarrow> a)"

lemma GetIter_never_stops:
  assumes "wf_set rs" "wraps_away rs (prev_reserved ops rid s)"
  shows "\<exists>i. GetIter ops rs rid s = (Returns i, snd (LastReservedIP ops rid s)) \<and> never_stops rs i"
proof -
  obtain res s1 where l: "LastReservedIP ops rid s = (res, s1)" by (cases "LastReservedIP ops rid s")
  define prev where "prev = (case res of Inl e \<Rightarrow> [] | Inr a \<Rightarrow> a)"
  have p: "prev_reserved ops rid s = prev" by (simp add: prev_reserved_def l prev_def)
  from assms(2) p obtain k where k: "ring_pos rs prev = Some k"
    "(fst (ring rs ! k), snd (ring rs ! (Suc k mod length (ring rs)))) \<notin> set (ring rs)"
    by (auto simp: wraps_away_def split: option.splits)
  from assms(1) k(1) obtain m where m: "find_range 0 rs prev = Some m" "k < length (ring rs)"
    "ring rs ! k = (m, canon prev)" by (rule ring_pos_Some)
  have yes: "RangeSet_Contains rs prev"
    using m(1) find_range_None [of 0 rs prev] by (auto simp: RangeSet_Contains_iff)
  have "canon prev \<noteq> []" using yes Range_Contains_nonempty by (auto simp: RangeSet_Contains_iff)
  then have ne: "prev \<noteq> []" by auto
  let ?i = "\<lparr>rset = rs, rangeIdx = m, cur = prev, startIP = [], startRange = m\<rparr>"
  have "GetIter ops rs rid s = (Returns ?i, s1)"
    using yes ne m(1) by (simp add: GetIter_def Let_def l prev_def)
  moreover have "Suc k mod length (ring rs) < length (ring rs)" using m(2) by (intro mod_less_divisor) linarith
  then have "snd (ring rs ! (Suc k mod length (ring rs))) \<in> snd ` set (ring rs)" by simp
  moreover have "cursor_at rs ?i k" using m by (simp add: cursor_at_def)
  moreover have "(m, snd (ring rs ! (Suc k mod length (ring rs)))) \<notin> set (ring rs)" using k(2) m(3) by simp
  ultimately have "never_stops rs ?i" using assms(1) unfolding never_stops_def
    by (intro conjI exI [of _ k] exI [of _ "snd (ring rs ! (Suc k mod length (ring rs)))"]) simp_all
  with \<open>GetIter ops rs rid s = (Returns ?i, s1)\<close> l show ?thesis by auto
qed

end
