(* ===== verification/Allocator.thy ===== *)
theory Allocator
  imports RangeIter
begin

text \<open>
  The allocator (\<open>pkg/ipametcd/backend/allocator/allocator.go\<close>): \<open>NewIPAllocator\<close>, \<open>Get\<close> and
  \<open>Release\<close>, over any store of the interface \<open>backend.Store\<close>. \<open>Get\<close> may run forever
  (\<open>None\<close>) and may panic. The lemmas inside the store locales show that an address is only handed
  out when it was free, and, for a reliable store and well-formed ranges, which address it is.
\<close>

text \<open>\<open>current.IPConfig\<close>; the interface index stays nil here.\<close>

record ip_config =
  Version :: string
  Interface :: "int option"
  Address :: ipnet
  CfgGateway :: ip

record ip_allocator =
  Rangeset :: rangeset
  rangeID :: string

definition NewIPAllocator :: "rangeset \<Rightarrow> nat \<Rightarrow> ip_allocator" where
  "NewIPAllocator s k = \<lparr>Rangeset = s, rangeID = itoa k\<rparr>"

text \<open>\<open>store.Lock(); defer store.Unlock()\<close> around a body: both results are ignored.\<close>

definition with_lock :: "'s store_ops \<Rightarrow> ('s \<Rightarrow> ('a \<times> 's) option) \<Rightarrow> 's \<Rightarrow> ('a \<times> 's) option" where
  "with_lock ops body s =
     (case body (snd (Lock ops s)) of
        None \<Rightarrow> None
      | Some (r, s2) \<Rightarrow> Some (r, snd (Unlock ops s2)))"

text \<open>The loop of \<open>Get\<close> over the iterator, until a reservation succeeds.\<close>

partial_function (option) get_loop ::
    "'s store_ops \<Rightarrow> string \<Rightarrow> string \<Rightarrow> string \<Rightarrow> range_iter \<Rightarrow> 's \<Rightarrow>
     ((go_error + (ipnet \<times> ip) option) outcome \<times> 's) option" where
  "get_loop ops cid ifname rid i s =
     (case Next i of
        None \<Rightarrow> None
      | Some Panics \<Rightarrow> Some (Panics, s)
      | Some (Returns r) \<Rightarrow>
          (case fst r of
             None \<Rightarrow> Some (Returns (Inr None), s)
           | Some ng \<Rightarrow>
               (let rs = Reserve ops cid ifname (IP (fst ng)) rid s in
                case fst rs of
                  Inl e \<Rightarrow> Some (Returns (Inl e), snd rs)
                | Inr reserved \<Rightarrow>
                    if reserved then Some (Returns (Inr (Some ng)), snd rs)
                    else get_loop ops cid ifname rid (snd r) (snd rs))))"

declare get_loop.simps [code]

definition Get_requested ::
    "'s store_ops \<Rightarrow> ip_allocator \<Rightarrow> string \<Rightarrow> string \<Rightarrow> ip \<Rightarrow> 's \<Rightarrow>
     (go_error + (ipnet \<times> ip) option) \<times> 's" where
  "Get_requested ops a cid ifname requestedIP s =
     (case canonicalizeIP requestedIP of
        Inl e \<Rightarrow> (Inl e, s)
      | Inr addr \<Rightarrow>
          (case RangeFor (Rangeset a) addr of
             Inl e \<Rightarrow> (Inl e, s)
           | Inr r \<Rightarrow>
               if ip_Equal addr (Gateway r)
               then (Inl (Errorf ''requested ip %s is subnet's gateway'' [ip_String addr]), s)
               else let (res, s') = Reserve ops cid ifname addr (rangeID a) s in
                 case res of
                   Inl e \<Rightarrow> (Inl e, s')
                 | Inr reserved \<Rightarrow>
                     if \<not> reserved
                     then (Inl (Errorf ''requested IP address %s is not available in range set %s''
                             [ip_String addr, RangeSet_String (Rangeset a)]), s')
                     else (Inr (Some (\<lparr>IP = addr, Mask = Mask (Subnet r)\<rparr>, Gateway r)), s')))"

definition Get_dynamic ::
    "'s store_ops \<Rightarrow> ip_allocator \<Rightarrow> string \<Rightarrow> string \<Rightarrow> 's \<Rightarrow>
     ((go_error + (ipnet \<times> ip) option) outcome \<times> 's) option" where
  "Get_dynamic ops a cid ifname s =
     (let (allocatedIPs, s1) = GetByID ops cid ifname s in
      case find (\<lambda>ip. \<not> isl (RangeFor (Rangeset a) ip)) allocatedIPs of
        Some allocatedIP \<Rightarrow>
          Some (Returns (Inl (Errorf
            ''%s has been allocated to %s, duplicate allocation is not allowed''
            [ip_String allocatedIP, cid])), s1)
      | None \<Rightarrow>
          (case GetIter ops (Rangeset a) (rangeID a) s1 of
             (Panics, s2) \<Rightarrow> Some (Panics, s2)
           | (Returns iter, s2) \<Rightarrow> get_loop ops cid ifname (rangeID a) iter s2))"

definition Get_result ::
    "ip_allocator \<Rightarrow> go_error + (ipnet \<times> ip) option \<Rightarrow> go_error + ip_config" where
  "Get_result a r =
     (case r of
        Inl e \<Rightarrow> Inl e
      | Inr None \<Rightarrow> Inl (Errorf ''no IP addresses available in range set: %s'' [RangeSet_String (Rangeset a)])
      | Inr (Some (reservedIP, gw)) \<Rightarrow>
          Inr \<lparr>Version = (if To4 (IP reservedIP) = [] then ''6'' else ''4''), Interface = None,
               Address = reservedIP, CfgGateway = gw\<rparr>)"

fun map_outcome :: "('a \<Rightarrow> 'b) \<Rightarrow> 'a outcome \<Rightarrow> 'b outcome" where
  "map_outcome f Panics = Panics"
| "map_outcome f (Returns x) = Returns (f x)"

definition Get ::
    "'s store_ops \<Rightarrow> ip_allocator \<Rightarrow> string \<Rightarrow> string \<Rightarrow> ip \<Rightarrow> 's \<Rightarrow>
     ((go_error + ip_config) outcome \<times> 's) option" where
  "Get ops a cid ifname requestedIP s =
     with_lock ops (\<lambda>s.
       map_option (\<lambda>(r, s'). (map_outcome (Get_result a) r, s'))
         (if requestedIP \<noteq> []
          then let (r, s') = Get_requested ops a cid ifname requestedIP s in Some (Returns r, s')
          else Get_dynamic ops a cid ifname s)) s"

definition Alloc_Release :: "'s store_ops \<Rightarrow> string \<Rightarrow> string \<Rightarrow> 's \<Rightarrow> go_error option \<times> 's" where
  "Alloc_Release ops cid ifname s =
     (let s1 = snd (Lock ops s); (e, s2) = ReleaseByID ops cid ifname s1
      in (e, snd (Unlock ops s2)))"

section \<open>Safety over any store\<close>

text \<open>
  What a body of \<open>Get\<close> may do to the held addresses \<open>h\<close>, by its result: a result with an address
  adds that address and it was free before; an error adds at most one free address (a
  reservation that failed half way); everything else changes nothing.
\<close>

definition get_effect ::
    "string \<Rightarrow> (string \<Rightarrow> string option) \<Rightarrow> (go_error + (ipnet \<times> ip) option) outcome \<Rightarrow>
     (string \<Rightarrow> string option) \<Rightarrow> bool" where
  "get_effect own h r h' \<longleftrightarrow>
     (case r of
        Panics \<Rightarrow> h' = h
      | Returns (Inl e) \<Rightarrow> h' = h \<or> (\<exists>k. h k = None \<and> h' = h(k \<mapsto> own))
      | Returns (Inr None) \<Rightarrow> h' = h
      | Returns (Inr (Some (n, g))) \<Rightarrow>
          h (ip_String (IP n)) = None \<and> h' = h(ip_String (IP n) \<mapsto> own))"

context backend_store
begin

lemma lock_frame: "inv s \<Longrightarrow> inv (snd (Lock ops s))"
  using lock [of s "fst (Lock ops s)" "snd (Lock ops s)"] by simp

lemma unlock_frame: "inv s \<Longrightarrow> inv (snd (Unlock ops s)) \<and> held (snd (Unlock ops s)) = held s"
  using unlock [of s "fst (Unlock ops s)" "snd (Unlock ops s)"] by simp

lemma get_loop_effect:
  assumes "get_loop ops cid ifn rid i s = Some rs" "inv s"
  shows "inv (snd rs) \<and> get_effect (owner cid ifn) (held s) (fst rs) (held (snd rs))"
proof -
  let ?P = "\<lambda>ops' c f rd i s rs. ops' = ops \<longrightarrow> c = cid \<longrightarrow> f = ifn \<longrightarrow> inv s \<longrightarrow>
    inv (snd rs) \<and> get_effect (owner cid ifn) (held s) (fst rs) (held (snd rs))"
  have "?P ops cid ifn rid i s rs"
  proof (rule get_loop.raw_induct [where P = ?P, OF _ assms(1)], (rule impI)+)
    fix loop ops' c f rd i s y
    assume IH: "\<And>ops' c f rd i s y. loop ops' c f rd i s = Some y \<Longrightarrow> ?P ops' c f rd i s y"
      and run: "(case Next i of None \<Rightarrow> None | Some Panics \<Rightarrow> Some (Panics, s)
         | Some (Returns r) \<Rightarrow>
           (case fst r of None \<Rightarrow> Some (Returns (Inr None), s)
            | Some ng \<Rightarrow>
              (let rs = Reserve ops' c f (IP (fst ng)) rd s
               in case fst rs of Inl e \<Rightarrow> Some (Returns (Inl e), snd rs)
                  | Inr reserved \<Rightarrow> if reserved then Some (Returns (Inr (Some ng)), snd rs)
                      else loop ops' c f rd (snd r) (snd rs)))) = Some y"
      and eqs: "ops' = ops" "c = cid" "f = ifn" and inv: "inv s"
    show "inv (snd y) \<and> get_effect (owner cid ifn) (held s) (fst y) (held (snd y))"
    proof (cases "\<exists>ng i'. Next i = Some (Returns (Some ng, i'))")
      case False
      with run inv show ?thesis
        by (auto simp: get_effect_def split: option.splits outcome.splits)
    next
      case True
      then obtain n g i' where nx: "Next i = Some (Returns (Some (n, g), i'))" by auto
      obtain res s' where res: "Reserve ops cid ifn (IP n) rd s = (res, s')" by (cases "Reserve ops cid ifn (IP n) rd s")
      note i' = reserve_inv [OF inv res]
      consider (err) e where "res = Inl e" | (new) "res = Inr True" | (taken) "res = Inr False"
        by (cases res) auto
      then show ?thesis
      proof cases
        case err
        with run nx res eqs i' reserve_error [OF inv, of cid ifn "IP n" rd e s'] show ?thesis
          by (auto simp: get_effect_def)
      next
        case new
        with run nx res eqs i' reserve_new [OF inv, of cid ifn "IP n" rd s'] show ?thesis
          by (auto simp: get_effect_def)
      next
        case taken
        with run nx res eqs have "loop ops cid ifn rd i' s' = Some y" by simp
        from IH [OF this] i' taken res reserve_taken [OF inv, of cid ifn "IP n" rd s']
        show ?thesis by simp
      qed
    qed
  qed
  with assms(2) show ?thesis by blast
qed

end

lemma get_loop_offers:
  assumes "get_loop ops cid ifn rid i s = Some y" "iter_ok rs i"
  shows "fst y \<noteq> Panics \<and> (\<forall>ng. fst y = Returns (Inr (Some ng)) \<longrightarrow> offers rs ng)"
proof -
  let ?Q = "\<lambda>y. fst y \<noteq> Panics \<and> (\<forall>ng. fst y = Returns (Inr (Some ng)) \<longrightarrow> offers rs ng)"
  have "iter_ok rs i \<longrightarrow> ?Q y"
  proof (rule get_loop.raw_induct [where P = "\<lambda>ops cid ifn rid i s y. iter_ok rs i \<longrightarrow> ?Q y", OF _ assms(1)],
      rule impI)
    fix loop ops cid ifn rid i s y
    assume IH: "\<And>ops cid ifn rid i s y. loop ops cid ifn rid i s = Some y \<Longrightarrow> iter_ok rs i \<longrightarrow> ?Q y"
      and run: "(case Next i of None \<Rightarrow> None | Some Panics \<Rightarrow> Some (Panics, s)
         | Some (Returns r) \<Rightarrow>
           (case fst r of None \<Rightarrow> Some (Returns (Inr None), s)
            | Some ng \<Rightarrow>
              (let rs = Reserve ops cid ifn (IP (fst ng)) rid s
               in case fst rs of Inl e \<Rightarrow> Some (Returns (Inl e), snd rs)
                  | Inr reserved \<Rightarrow> if reserved then Some (Returns (Inr (Some ng)), snd rs)
                      else loop ops cid ifn rid (snd r) (snd rs)))) = Some y"
      and ok: "iter_ok rs i"
    obtain o' where nx: "Next i = Some o'" using run by (cases "Next i") auto
    from Next_ok [OF nx ok] obtain r where r: "o' = Returns r" "iter_ok rs (snd r)"
      "\<forall>ng. fst r = Some ng \<longrightarrow> offers rs ng" by blast
    show "?Q y"
    proof (cases "fst r")
      case None
      with run nx r(1) show ?thesis by auto
    next
      case (Some ng)
      obtain res s' where res: "Reserve ops cid ifn (IP (fst ng)) rid s = (res, s')"
        by (cases "Reserve ops cid ifn (IP (fst ng)) rid s")
      show ?thesis
      proof (cases "res = Inr False")
        case True
        with run nx r(1) Some res have "loop ops cid ifn rid (snd r) s' = Some y" by simp
        with IH r(2) show ?thesis by blast
      next
        case False
        with run nx r(1,3) Some res show ?thesis by (auto simp: Let_def split: sum.splits if_splits)
      qed
    qed
  qed
  with assms(2) show ?thesis by blast
qed

definition in_set_offer :: "rangeset \<Rightarrow> ipnet \<times> ip \<Rightarrow> bool" where
  "in_set_offer rs ng \<longleftrightarrow> (\<exists>r \<in> set rs. Range_Contains r (IP (fst ng)) \<and>
     Mask (fst ng) = Mask (Subnet r) \<and> snd ng = Gateway r \<and> \<not> ip_Equal (IP (fst ng)) (Gateway r))"

text \<open>What \<open>Get\<close> guarantees whenever it returns.\<close>

definition get_spec ::
    "rangeset \<Rightarrow> string \<Rightarrow> (string \<Rightarrow> string option) \<Rightarrow> (go_error + ip_config) outcome \<Rightarrow>
     (string \<Rightarrow> string option) \<Rightarrow> bool" where
  "get_spec rs own h r h' \<longleftrightarrow>
     (case r of
        Panics \<Rightarrow> False
      | Returns (Inl e) \<Rightarrow> h' = h \<or> (\<exists>k. h k = None \<and> h' = h(k \<mapsto> own))
      | Returns (Inr c) \<Rightarrow>
          h (ip_String (IP (Address c))) = None \<and> h' = h(ip_String (IP (Address c)) \<mapsto> own) \<and>
          in_set_offer rs (Address c, CfgGateway c))"

context backend_store
begin

lemma Get_requested_effect:
  assumes "Get_requested ops a cid ifn req s = (r, s')" "inv s"
  shows "inv s' \<and> get_effect (owner cid ifn) (held s) (Returns r) (held s') \<and>
    (\<forall>ng. r = Inr (Some ng) \<longrightarrow> in_set_offer (Rangeset a) ng)"
proof (cases "\<exists>addr rg. canonicalizeIP req = Inr addr \<and> RangeFor (Rangeset a) addr = Inr rg \<and>
    \<not> ip_Equal addr (Gateway rg)")
  case False
  with assms show ?thesis
    by (auto simp: Get_requested_def get_effect_def split: sum.splits if_splits)
next
  case True
  then obtain addr rg where c: "canonicalizeIP req = Inr addr" "RangeFor (Rangeset a) addr = Inr rg"
    "\<not> ip_Equal addr (Gateway rg)" by blast
  obtain res s2 where res: "Reserve ops cid ifn addr (rangeID a) s = (res, s2)"
    by (cases "Reserve ops cid ifn addr (rangeID a) s")
  note facts = reserve_inv [OF assms(2) res] RangeFor_Inr [OF c(2)]
  consider (err) e where "res = Inl e" | (new) "res = Inr True" | (taken) "res = Inr False"
    by (cases res) auto
  then show ?thesis
  proof cases
    case err
    with assms c res facts reserve_error [OF assms(2), of cid ifn addr "rangeID a" e s2] show ?thesis
      by (auto simp: Get_requested_def get_effect_def)
  next
    case new
    with assms c res facts reserve_new [OF assms(2), of cid ifn addr "rangeID a" s2] show ?thesis
      by (auto simp: Get_requested_def get_effect_def in_set_offer_def)
  next
    case taken
    with assms c res facts reserve_taken [OF assms(2), of cid ifn addr "rangeID a" s2] show ?thesis
      by (auto simp: Get_requested_def get_effect_def)
  qed
qed

lemma Get_dynamic_effect:
  assumes "Get_dynamic ops a cid ifn s = Some y" "inv s" "wf_set (Rangeset a)" "Rangeset a \<noteq> []"
  shows "inv (snd y) \<and> get_effect (owner cid ifn) (held s) (fst y) (held (snd y)) \<and>
    fst y \<noteq> Panics \<and> (\<forall>ng. fst y = Returns (Inr (Some ng)) \<longrightarrow> in_set_offer (Rangeset a) ng)"
proof -
  obtain ips s1 where g: "GetByID ops cid ifn s = (ips, s1)" by (cases "GetByID ops cid ifn s")
  from get_by_id [OF assms(2) g] have s1: "inv s1" "held s1 = held s" by auto
  show ?thesis
  proof (cases "find (\<lambda>ip. \<not> isl (RangeFor (Rangeset a) ip)) ips")
    case (Some d)
    with assms(1) g s1 show ?thesis by (auto simp: Get_dynamic_def get_effect_def)
  next
    case None
    obtain i where i: "GetIter ops (Rangeset a) (rangeID a) s1 =
        (Returns i, snd (LastReservedIP ops (rangeID a) s1))" "iter_ok (Rangeset a) i"
      using GetIter_ok [OF assms(3,4), of ops "rangeID a" s1] by blast
    obtain res s2 where l: "LastReservedIP ops (rangeID a) s1 = (res, s2)"
      by (cases "LastReservedIP ops (rangeID a) s1")
    from last_reserved [OF s1(1) l] have s2: "inv s2" "held s2 = held s" using s1 by auto
    have loop: "get_loop ops cid ifn (rangeID a) i s2 = Some y"
      using assms(1) g None i(1) l by (simp add: Get_dynamic_def)
    show ?thesis
      using get_loop_effect [OF loop s2(1)] get_loop_offers [OF loop i(2)] s2(2)
        offers_range [OF assms(3)] by (auto simp: in_set_offer_def)
  qed
qed

lemma get_result_spec:
  assumes "get_effect own h r h'" "r \<noteq> Panics" "\<And>ng. r = Returns (Inr (Some ng)) \<Longrightarrow> in_set_offer (Rangeset a) ng"
  shows "get_spec (Rangeset a) own h (map_outcome (Get_result a) r) h'"
proof -
  consider (err) e where "r = Returns (Inl e)" | (none) "r = Returns (Inr None)"
    | (some) n g where "r = Returns (Inr (Some (n, g)))"
    using assms(2) by (metis outcome.exhaust option.exhaust sum.exhaust surj_pair)
  then show ?thesis
    using assms by cases (simp_all add: get_effect_def get_spec_def Get_result_def)
qed

lemma Get_spec:
  assumes "Get ops a cid ifn req s = Some (out, s')" "inv s" "wf_set (Rangeset a)" "Rangeset a \<noteq> []"
  shows "inv s' \<and> get_spec (Rangeset a) (owner cid ifn) (held (snd (Lock ops s))) out (held s')"
proof -
  let ?s = "snd (Lock ops s)"
  note lk = lock_frame [OF assms(2)]
  obtain r t where rt: "(if req \<noteq> [] then let (r, s') = Get_requested ops a cid ifn req ?s in Some (Returns r, s')
      else Get_dynamic ops a cid ifn ?s) = Some (r, t)" and out: "out = map_outcome (Get_result a) r"
    and s': "s' = snd (Unlock ops t)"
    using assms(1) by (auto simp: Get_def with_lock_def split: option.splits)
  have "inv t \<and> get_effect (owner cid ifn) (held ?s) r (held t) \<and> r \<noteq> Panics \<and>
    (\<forall>ng. r = Returns (Inr (Some ng)) \<longrightarrow> in_set_offer (Rangeset a) ng)"
  proof (cases "req = []")
    case True
    with rt Get_dynamic_effect [of a cid ifn ?s "(r, t)"] lk assms(3,4) show ?thesis by simp
  next
    case False
    with rt obtain q where q: "Get_requested ops a cid ifn req ?s = (q, t)" "r = Returns q"
      by (auto split: prod.splits)
    with Get_requested_effect [OF q(1)] lk show ?thesis by simp
  qed
  then have t: "inv t" "get_spec (Rangeset a) (owner cid ifn) (held ?s) out (held t)"
    using get_result_spec [of "owner cid ifn" "held ?s" r "held t" a] out by auto
  from unlock_frame [OF t(1)] t(2) s' show ?thesis by simp
qed

lemma Alloc_Release_spec:
  assumes "Alloc_Release ops cid ifn s = (e, s')" "inv s"
  shows "inv s' \<and> held s' \<subseteq>\<^sub>m held (snd (Lock ops s)) \<and>
    (\<forall>k v. held (snd (Lock ops s)) k = Some v \<longrightarrow> held s' k = None \<longrightarrow> releases cid ifn v)"
proof -
  let ?s = "snd (Lock ops s)"
  obtain re t where r: "ReleaseByID ops cid ifn ?s = (re, t)" by (cases "ReleaseByID ops cid ifn ?s")
  note lk = lock_frame [OF assms(2)]
  from release_by_id [OF lk r] have
    t: "inv t \<and> held t \<subseteq>\<^sub>m held ?s \<and> (\<forall>k v. held ?s k = Some v \<longrightarrow> held t k = None \<longrightarrow> releases cid ifn v)" .
  moreover have "s' = snd (Unlock ops t)" using assms(1) r by (simp add: Alloc_Release_def)
  ultimately show ?thesis using unlock_frame [of t] by simp
qed

end

lemma not_isl_RangeFor: "(\<not> isl (RangeFor rs a)) = RangeSet_Contains rs a"
  by (simp add: RangeSet_Contains_def split: sum.split)

section \<open>The exact result over a reliable store\<close>

text \<open>The first position of a list that is no gateway and not held.\<close>

definition first_free :: "rangeset \<Rightarrow> (string \<Rightarrow> string option) \<Rightarrow> (nat \<times> ip) list \<Rightarrow> (nat \<times> ip) option" where
  "first_free rs h xs = find (\<lambda>x. \<not> is_gateway rs x \<and> h (ip_String (snd x)) = None) xs"

definition take_free :: "string \<Rightarrow> (nat \<times> ip) option \<Rightarrow> (string \<Rightarrow> string option) \<Rightarrow> string \<Rightarrow> string option" where
  "take_free own free h = (case free of None \<Rightarrow> h | Some x \<Rightarrow> h(ip_String (snd x) \<mapsto> own))"

lemma take_free_simps [simp]:
  "take_free own None h = h" "take_free own (Some x) h = h(ip_String (snd x) \<mapsto> own)"
  by (simp_all add: take_free_def)

lemma first_free_dropWhile: "first_free rs h (dropWhile (is_gateway rs) xs) = first_free rs h xs"
  by (induction xs) (auto simp: first_free_def)

context reliable_store
begin

lemma get_loop_pending:
  "pending rs i xs \<Longrightarrow> inv s \<Longrightarrow>
   \<exists>s'. get_loop ops cid ifn rid i s =
      Some (Returns (Inr (map_option (yield rs) (first_free rs (held s) xs))), s') \<and> inv s' \<and>
      held s' = take_free (owner cid ifn) (first_free rs (held s) xs) (held s)"
proof (induction "length xs" arbitrary: xs i s rule: less_induct)
  case less
  show ?case
  proof (cases "dropWhile (is_gateway rs) xs")
    case Nil
    from Next_pending_None [OF less(2) Nil] have "\<exists>i'. Next i = Some (Returns (None, i'))" .
    moreover from Nil have "first_free rs (held s) xs = None"
      by (auto simp: first_free_def find_None_iff)
    ultimately show ?thesis using less(3) by (subst get_loop.simps) auto
  next
    case (Cons y zs)
    from Next_pending_Some [OF less(2) Cons] obtain i' where
      nx: "Next i = Some (Returns (Some (yield rs y), i'))" "pending rs i' zs" by blast
    have gw: "\<not> is_gateway rs y" using Cons by (metis dropWhile_eq_Cons_conv)
    have len: "length zs < length xs"
      using length_dropWhile_le [of "is_gateway rs" xs] by (simp add: Cons)
    have ff: "first_free rs (held s) xs = first_free rs (held s) (y # zs)"
      using first_free_dropWhile [of rs "held s" xs] by (simp add: Cons)
    have ip: "IP (fst (yield rs y)) = snd y" by (simp add: yield_def)
    obtain s' where r: "Reserve ops cid ifn (snd y) rid s = (Inr (held s (ip_String (snd y)) = None), s')"
      "inv s'" "held s' = (if held s (ip_String (snd y)) = None
         then (held s)(ip_String (snd y) \<mapsto> owner cid ifn) else held s)"
      by (rule reserve_decides [OF less(3)])
    show ?thesis
    proof (cases "held s (ip_String (snd y)) = None")
      case True
      with gw ff have "first_free rs (held s) xs = Some y" by (simp add: first_free_def)
      with True nx(1) r ip show ?thesis by (subst get_loop.simps) simp
    next
      case False
      have h: "held s' = held s" using r(3) unfolding if_not_P [OF False] .
      have "first_free rs (held s) xs = first_free rs (held s') zs"
        using False gw ff by (auto simp: first_free_def h)
      moreover have "get_loop ops cid ifn rid i s = get_loop ops cid ifn rid i' s'"
        using nx(1) r(1) [unfolded eq_False [THEN iffD2, OF False]] ip by (subst get_loop.simps) simp
      ultimately show ?thesis using less(1) [OF len nx(2) r(2)] by (simp add: h)
    qed
  qed
qed

lemma Get_dynamic_pending:
  assumes "inv s" "wf_set (Rangeset a)" "Rangeset a \<noteq> []"
    "\<forall>x \<in> set (fst (GetByID ops cid ifn s)). \<not> RangeSet_Contains (Rangeset a) x"
    "prev = prev_reserved ops (rangeID a) (snd (GetByID ops cid ifn s))" "resumes_ok (Rangeset a) prev"
  shows "\<exists>s'. Get_dynamic ops a cid ifn s =
      Some (Returns (Inr (map_option (yield (Rangeset a))
        (first_free (Rangeset a) (held s) (try_order (Rangeset a) prev)))), s') \<and> inv s' \<and>
      held s' = take_free (owner cid ifn) (first_free (Rangeset a) (held s) (try_order (Rangeset a) prev)) (held s)"
proof -
  obtain ips s1 where g: "GetByID ops cid ifn s = (ips, s1)" by (cases "GetByID ops cid ifn s")
  from get_by_id [OF assms(1) g] have s1: "inv s1" "held s1 = held s" by auto
  have none: "find (\<lambda>ip. \<not> isl (RangeFor (Rangeset a) ip)) ips = None"
    using assms(4) g by (simp add: find_None_iff not_isl_RangeFor)
  obtain res s2 where l: "LastReservedIP ops (rangeID a) s1 = (res, s2)"
    by (cases "LastReservedIP ops (rangeID a) s1")
  from last_reserved [OF s1(1) l] have s2: "inv s2" "held s2 = held s" using s1 by auto
  have "prev = (case res of Inl e \<Rightarrow> [] | Inr a \<Rightarrow> a)"
    using assms(5) g l by (simp add: prev_reserved_def)
  from GetIter_pending [OF assms(2,3) l this assms(6)] obtain i where
    i: "GetIter ops (Rangeset a) (rangeID a) s1 = (Returns i, s2)"
    "pending (Rangeset a) i (try_order (Rangeset a) prev)" by blast
  have "Get_dynamic ops a cid ifn s = get_loop ops cid ifn (rangeID a) i s2"
    using g none i(1) by (simp add: Get_dynamic_def)
  with get_loop_pending [OF i(2) s2(1), of cid ifn "rangeID a", unfolded s2(2)] show ?thesis by simp
qed

lemma Get_exact:
  assumes "inv s" "wf_set (Rangeset a)" "Rangeset a \<noteq> []" "s0 = snd (Lock ops s)"
    "\<forall>x \<in> set (fst (GetByID ops cid ifn s0)). \<not> RangeSet_Contains (Rangeset a) x"
    "prev = prev_reserved ops (rangeID a) (snd (GetByID ops cid ifn s0))" "resumes_ok (Rangeset a) prev"
    "free = first_free (Rangeset a) (held s0) (try_order (Rangeset a) prev)"
  shows "\<exists>s'. Get ops a cid ifn [] s =
      Some (Returns (Get_result a (Inr (map_option (yield (Rangeset a)) free))), s') \<and> inv s' \<and>
      held s' = take_free (owner cid ifn) free (held s0)"
proof -
  have s0: "inv s0" using lock_frame [OF assms(1)] assms(4) by simp
  from Get_dynamic_pending [OF s0 assms(2,3,5,6,7), folded assms(8)] obtain s' where
    s': "Get_dynamic ops a cid ifn s0 = Some (Returns (Inr (map_option (yield (Rangeset a)) free)), s')"
    "inv s'" "held s' = take_free (owner cid ifn) free (held s0)" by blast
  then have "Get ops a cid ifn [] s =
      Some (Returns (Get_result a (Inr (map_option (yield (Rangeset a)) free))), snd (Unlock ops s'))"
    using assms(4) by (simp add: Get_def with_lock_def)
  with unlock_frame [OF s'(2)] s'(3) show ?thesis by auto
qed

end

section \<open>A requested address\<close>

context reliable_store
begin

lemma Get_requested_exact:
  assumes "inv s" "Get_requested ops a cid ifn req s = (r, s')"
  shows "inv s' \<and>
    (case RangeFor (Rangeset a) req of
       Inl e \<Rightarrow> isl r \<and> held s' = held s
     | Inr rg \<Rightarrow>
         if ip_Equal (canon req) (Gateway rg) \<or> held s (ip_String (canon req)) \<noteq> None
         then isl r \<and> held s' = held s
         else r = Inr (Some (\<lparr>IP = canon req, Mask = Mask (Subnet rg)\<rparr>, Gateway rg)) \<and>
           held s' = (held s)(ip_String (canon req) \<mapsto> owner cid ifn))"
proof (cases "canon req = []")
  case True
  then have "RangeFor (Rangeset a) req = Inl (Errorf ''IP %s not v4 nor v6'' [ip_String req])"
    by (simp add: RangeFor_def canonicalizeIP_canon)
  with True assms show ?thesis by (auto simp: Get_requested_def canonicalizeIP_canon)
next
  case False
  then have c: "canonicalizeIP req = Inr (canon req)" by (simp add: canonicalizeIP_canon)
  have same: "RangeFor (Rangeset a) (canon req) = RangeFor (Rangeset a) req"
    using False by (simp add: RangeFor_def canonicalizeIP_canon)
  show ?thesis
  proof (cases "RangeFor (Rangeset a) req")
    case (Inl e)
    with assms c same show ?thesis by (auto simp: Get_requested_def)
  next
    case (Inr rg)
    obtain s2 where r: "Reserve ops cid ifn (canon req) (rangeID a) s =
        (Inr (held s (ip_String (canon req)) = None), s2)" "inv s2"
      "held s2 = (if held s (ip_String (canon req)) = None
         then (held s)(ip_String (canon req) \<mapsto> owner cid ifn) else held s)"
      by (rule reserve_decides [OF assms(1)])
    show ?thesis
      using assms c same Inr r
      by (cases "ip_Equal (canon req) (Gateway rg)"; cases "held s (ip_String (canon req)) = None")
        (auto simp: Get_requested_def)
  qed
qed

lemma Get_requested_decides:
  assumes "inv s" "req \<noteq> []" "s0 = snd (Lock ops s)"
  shows "\<exists>r s'. Get ops a cid ifn req s = Some (Returns r, s') \<and> inv s' \<and>
    (case RangeFor (Rangeset a) req of
       Inl e \<Rightarrow> isl r \<and> held s' = held s0
     | Inr rg \<Rightarrow>
         if ip_Equal (canon req) (Gateway rg) \<or> held s0 (ip_String (canon req)) \<noteq> None
         then isl r \<and> held s' = held s0
         else r = Get_result a (Inr (Some (\<lparr>IP = canon req, Mask = Mask (Subnet rg)\<rparr>, Gateway rg))) \<and>
           held s' = (held s0)(ip_String (canon req) \<mapsto> owner cid ifn))"
proof -
  have s0: "inv s0" using lock_frame [OF assms(1)] assms(3) by simp
  obtain q t where q: "Get_requested ops a cid ifn req s0 = (q, t)" by (cases "Get_requested ops a cid ifn req s0")
  note x = Get_requested_exact [OF s0 q]
  have "Get ops a cid ifn req s = Some (Returns (Get_result a q), snd (Unlock ops t))"
    using assms(2,3) q by (simp add: Get_def with_lock_def)
  moreover have "isl (Get_result a q)" if "isl q" using that by (cases q) (auto simp: Get_result_def)
  ultimately show ?thesis
    using x unlock_frame [of t] by (auto split: sum.splits if_splits)
qed

end

section \<open>A run of Get that never returns\<close>

definition all_held :: "rangeset \<Rightarrow> (string \<Rightarrow> string option) \<Rightarrow> bool" where
  "all_held rs h \<longleftrightarrow> (\<forall>x \<in> set (ring rs). \<not> is_gateway rs x \<longrightarrow> h (ip_String (snd x)) \<noteq> None)"

context reliable_store
begin

lemma get_loop_never_stops:
  assumes "never_stops rs i" "inv s" "all_held rs (held s)"
  shows "get_loop ops cid ifn rid i s = None"
proof (cases "get_loop ops cid ifn rid i s")
  case None
  then show ?thesis .
next
  case (Some y)
  have "ops = ops \<longrightarrow> never_stops rs i \<longrightarrow> inv s \<longrightarrow> all_held rs (held s) \<longrightarrow> False"
  proof (rule get_loop.raw_induct [where P = "\<lambda>ops' cid ifn rid i s y.
        ops' = ops \<longrightarrow> never_stops rs i \<longrightarrow> inv s \<longrightarrow> all_held rs (held s) \<longrightarrow> False", OF _ Some], (rule impI)+)
    fix loop ops' cid ifn rid i s y
    assume IH: "\<And>ops' cid ifn rid i s y. loop ops' cid ifn rid i s = Some y \<Longrightarrow>
        ops' = ops \<longrightarrow> never_stops rs i \<longrightarrow> inv s \<longrightarrow> all_held rs (held s) \<longrightarrow> False"
      and run: "(case Next i of None \<Rightarrow> None | Some Panics \<Rightarrow> Some (Panics, s)
         | Some (Returns r) \<Rightarrow>
           (case fst r of None \<Rightarrow> Some (Returns (Inr None), s)
            | Some ng \<Rightarrow>
              (let rs = Reserve ops' cid ifn (IP (fst ng)) rid s
               in case fst rs of Inl e \<Rightarrow> Some (Returns (Inl e), snd rs)
                  | Inr reserved \<Rightarrow> if reserved then Some (Returns (Inr (Some ng)), snd rs)
                      else loop ops' cid ifn rid (snd r) (snd rs)))) = Some y"
      and ops: "ops' = ops" and ns: "never_stops rs i" and inv: "inv s" and all: "all_held rs (held s)"
    obtain o' where nx: "Next i = Some o'" using run by (cases "Next i") auto
    from Next_never_stops [OF nx ns] obtain x i' where x: "x \<in> set (ring rs)" "\<not> is_gateway rs x"
      "o' = Returns (Some (yield rs x), i')" "never_stops rs i'" by blast
    have taken: "held s (ip_String (snd x)) \<noteq> None" using all x(1,2) by (simp add: all_held_def)
    obtain s' where r: "Reserve ops cid ifn (snd x) rid s = (Inr (held s (ip_String (snd x)) = None), s')"
      "inv s'" "held s' = (if held s (ip_String (snd x)) = None
         then (held s)(ip_String (snd x) \<mapsto> owner cid ifn) else held s)"
      by (rule reserve_decides [OF inv])
    have "IP (fst (yield rs x)) = snd x" by (simp add: yield_def)
    with run nx x(3) r(1) taken ops have "loop ops cid ifn rid i' s' = Some y" by simp
    moreover have "held s' = held s" using r(3) unfolding if_not_P [OF taken] .
    ultimately show False using IH x(4) r(2) all by (metis (no_types))
  qed
  with assms show ?thesis by blast
qed

lemma Get_never_returns:
  assumes "inv s" "wf_set (Rangeset a)" "s0 = snd (Lock ops s)"
    "\<forall>x \<in> set (fst (GetByID ops cid ifn s0)). \<not> RangeSet_Contains (Rangeset a) x"
    "wraps_away (Rangeset a) (prev_reserved ops (rangeID a) (snd (GetByID ops cid ifn s0)))"
    "all_held (Rangeset a) (held s0)"
  shows "Get ops a cid ifn [] s = None"
proof -
  have s0: "inv s0" using lock_frame [OF assms(1)] assms(3) by simp
  obtain ips s1 where g: "GetByID ops cid ifn s0 = (ips, s1)" by (cases "GetByID ops cid ifn s0")
  from get_by_id [OF s0 g] have s1: "inv s1" "held s1 = held s0" by auto
  have none: "find (\<lambda>ip. \<not> isl (RangeFor (Rangeset a) ip)) ips = None"
    using assms(4) g by (simp add: find_None_iff not_isl_RangeFor)
  obtain res s2 where l: "LastReservedIP ops (rangeID a) s1 = (res, s2)"
    by (cases "LastReservedIP ops (rangeID a) s1")
  from last_reserved [OF s1(1) l] have s2: "inv s2" "held s2 = held s0" using s1 by auto
  obtain i where i: "GetIter ops (Rangeset a) (rangeID a) s1 = (Returns i, s2)" "never_stops (Rangeset a) i"
    using GetIter_never_stops [OF assms(2), of ops "rangeID a" s1] assms(5) g l by auto
  have "Get_dynamic ops a cid ifn s0 = None"
    using g none i(1) get_loop_never_stops [OF i(2) s2(1)] s2(2) assms(6) by (simp add: Get_dynamic_def)
  then show ?thesis using assms(3) by (simp add: Get_def with_lock_def)
qed

end

end
