(* ===== verification/FakeStore.thy ===== *)
theory FakeStore
  imports Allocator "HOL-Library.AList" "HOL-Library.Multiset"
begin

text \<open>
  The in-memory store of the repository's tests (\<open>pkg/ipametcd/backend/testing/fake_store.go\<close>).
  Its two Go maps are association lists with distinct keys; \<open>ord\<close> is the order in which Go visits a
  map in a \<open>range\<close> loop, any permutation. It satisfies the laws of a reliable store, so the results
  of the allocator's theory hold for it.
\<close>

type_synonym gomap = "(string \<times> string) list"

record fake_store =
  ipMap :: gomap
  lastReserved :: "(string \<times> ip) list"

definition NewFakeStore :: "gomap \<Rightarrow> (string \<times> ip) list \<Rightarrow> fake_store" where
  "NewFakeStore m l = \<lparr>ipMap = m, lastReserved = l\<rparr>"

definition fake_Reserve :: "string \<Rightarrow> string \<Rightarrow> ip \<Rightarrow> string \<Rightarrow> fake_store \<Rightarrow> (go_error + bool) \<times> fake_store" where
  "fake_Reserve cid ifname a rid s =
     (let key = ip_String a in
      case map_of (ipMap s) key of
        None \<Rightarrow> (Inr True, s\<lparr>ipMap := AList.update key cid (ipMap s),
                  lastReserved := AList.update rid a (lastReserved s)\<rparr>)
      | Some _ \<Rightarrow> (Inr False, s))"

definition fake_LastReservedIP :: "string \<Rightarrow> fake_store \<Rightarrow> (go_error + ip) \<times> fake_store" where
  "fake_LastReservedIP rid s =
     (case map_of (lastReserved s) rid of
        None \<Rightarrow> (Inl (ErrNew ''file does not exist''), s)
      | Some a \<Rightarrow> (Inr a, s))"

definition fake_Release :: "ip \<Rightarrow> fake_store \<Rightarrow> go_error option \<times> fake_store" where
  "fake_Release a s = (None, s\<lparr>ipMap := AList.delete (ip_String a) (ipMap s)\<rparr>)"

definition fake_ReleaseByID ::
    "(gomap \<Rightarrow> gomap) \<Rightarrow> string \<Rightarrow> string \<Rightarrow> fake_store \<Rightarrow> go_error option \<times> fake_store" where
  "fake_ReleaseByID ord cid ifname s =
     (let toDelete = map fst (filter (\<lambda>(k, v). v = cid) (ord (ipMap s)))
      in (None, s\<lparr>ipMap := fold AList.delete toDelete (ipMap s)\<rparr>))"

definition fake_GetByID ::
    "(gomap \<Rightarrow> gomap) \<Rightarrow> string \<Rightarrow> string \<Rightarrow> fake_store \<Rightarrow> ip list \<times> fake_store" where
  "fake_GetByID ord cid ifname s =
     (map (ParseIP \<circ> fst) (filter (\<lambda>(k, v). v = cid) (ord (ipMap s))), s)"

definition SetIPMap :: "gomap \<Rightarrow> fake_store \<Rightarrow> fake_store" where
  "SetIPMap m s = s\<lparr>ipMap := m\<rparr>"

definition fake_ops :: "(gomap \<Rightarrow> gomap) \<Rightarrow> fake_store store_ops" where
  "fake_ops ord =
     \<lparr>Lock = \<lambda>s. (None, s), Unlock = \<lambda>s. (None, s), Close = \<lambda>s. (Returns None, s),
      Reserve = fake_Reserve, LastReservedIP = fake_LastReservedIP, Release = fake_Release,
      ReleaseByID = fake_ReleaseByID ord, GetByID = fake_GetByID ord\<rparr>"

lemmas fake_defs = fake_Reserve_def fake_LastReservedIP_def fake_Release_def
  fake_ReleaseByID_def fake_GetByID_def

definition fake_inv :: "fake_store \<Rightarrow> bool" where
  "fake_inv s \<longleftrightarrow> distinct (map fst (ipMap s))"

definition fake_held :: "fake_store \<Rightarrow> string \<Rightarrow> string option" where
  "fake_held s = map_of (ipMap s)"

text \<open>Any order of a Go map visits exactly its entries.\<close>

definition map_order :: "(gomap \<Rightarrow> gomap) \<Rightarrow> bool" where
  "map_order ord \<longleftrightarrow> (\<forall>m. mset (ord m) = mset m)"

lemma map_order_set: "map_order ord \<Longrightarrow> set (ord m) = set m"
  unfolding map_order_def by (metis set_mset_mset)

lemma fold_delete_map_of:
  "map_of (fold AList.delete ks m) = (\<lambda>k. if k \<in> set ks then None else map_of m k)"
  by (induction ks arbitrary: m) (auto simp: delete_conv' fun_eq_iff)

lemma fold_delete_distinct:
  "distinct (map fst m) \<Longrightarrow> distinct (map fst (fold AList.delete ks m))"
  by (induction ks arbitrary: m) (simp_all add: distinct_delete)

lemma fake_ReleaseByID_held:
  assumes "fake_inv s" "map_order ord"
  shows "fake_held (snd (fake_ReleaseByID ord cid ifname s)) =
    (\<lambda>k. if fake_held s k = Some cid then None else fake_held s k)"
  using assms
  by (auto simp: fake_held_def fake_inv_def fake_ReleaseByID_def fold_delete_map_of
      map_order_set Let_def fun_eq_iff image_iff split_beta dest: map_of_SomeD)

lemma fake_Reserve_held:
  assumes "fake_inv s"
  shows "fake_Reserve cid ifname a rid s = (Inr (fake_held s (ip_String a) = None), snd (fake_Reserve cid ifname a rid s))"
    "fake_held (snd (fake_Reserve cid ifname a rid s)) =
       (if fake_held s (ip_String a) = None then (fake_held s)(ip_String a \<mapsto> cid) else fake_held s)"
    "fake_inv (snd (fake_Reserve cid ifname a rid s))"
  using assms
  by (auto simp: fake_Reserve_def fake_held_def fake_inv_def Let_def update_conv' distinct_update split: option.splits)

lemma fake_reserve_law:
  assumes "fake_inv s" "Reserve (fake_ops ord) cid ifn a rid s = (res, s')"
  shows "res = Inr (fake_held s (ip_String a) = None) \<and> fake_inv s' \<and>
    fake_held s' = (if fake_held s (ip_String a) = None then (fake_held s)(ip_String a \<mapsto> cid) else fake_held s)"
  using fake_Reserve_held [OF assms(1), of cid ifn a rid] assms(2) by (auto simp: fake_ops_def)

lemma fake_release_law:
  assumes "fake_inv s" "map_order ord" "ReleaseByID (fake_ops ord) cid ifn s = (re, s')"
  shows "re = None \<and> fake_inv s' \<and>
    fake_held s' = (\<lambda>k. if fake_held s k = Some cid then None else fake_held s k)"
proof -
  have s': "s' = snd (fake_ReleaseByID ord cid ifn s)" and "re = None"
    using assms(3) by (auto simp: fake_ops_def fake_ReleaseByID_def Let_def)
  moreover have "fake_inv s'"
    using assms(1) by (simp add: s' fake_inv_def fake_ReleaseByID_def Let_def fold_delete_distinct)
  ultimately show ?thesis using fake_ReleaseByID_held [OF assms(1,2)] by simp
qed

lemma fake_reads:
  "snd (Lock (fake_ops ord) s) = s" "snd (Unlock (fake_ops ord) s) = s"
  "snd (LastReservedIP (fake_ops ord) rid s) = s" "snd (GetByID (fake_ops ord) cid ifn s) = s"
  by (simp_all add: fake_ops_def fake_LastReservedIP_def fake_GetByID_def split: option.split)

locale go_maps =
  fixes ord :: "gomap \<Rightarrow> gomap"
  assumes order: "map_order ord"

sublocale go_maps \<subseteq> fake: reliable_store "fake_ops ord" fake_inv fake_held
  "\<lambda>cid ifname. cid" "\<lambda>cid ifname v. v = cid"
proof unfold_locales
  fix s cid ifn re s'
  assume "fake_inv s" "ReleaseByID (fake_ops ord) cid ifn s = (re, s')"
  from fake_release_law [OF this(1) order this(2)]
  show "fake_inv s' \<and> fake_held s' \<subseteq>\<^sub>m fake_held s \<and>
    (\<forall>k v. fake_held s k = Some v \<longrightarrow> fake_held s' k = None \<longrightarrow> v = cid)"
    by (auto simp: map_le_def split: if_splits)
next
  fix s cid ifn a rid
  assume "fake_inv s"
  from fake_reserve_law [OF this, of ord cid ifn a rid]
  show "\<exists>b s'. Reserve (fake_ops ord) cid ifn a rid s = (Inr b, s')"
    by (metis surj_pair)
qed (use fake_reads [of ord] in \<open>auto dest: fake_reserve_law split: if_splits\<close>, (metis snd_conv)+)

interpretation insertion_order: go_maps "\<lambda>m. m"
  by unfold_locales (simp add: map_order_def)

interpretation reverse_order: go_maps rev
  by unfold_locales (simp add: map_order_def)

end
