(* ===== verification/EtcdStore.thy ===== *)
theory EtcdStore
  imports FakeStore
begin

text \<open>
  The etcd store (\<open>pkg/ipametcd/backend/etcd/backend.go\<close>, \<open>lock.go\<close>). The etcd client is not part
  of the repository: it is the parameter \<open>kv_client\<close>, operations over a state \<open>'c\<close>, and the locale
  \<open>etcd_kv\<close> states its documented behaviour over the key-value pairs it holds. A write that returns an
  error may or may not have been applied. \<open>ord\<close> is the order in which Go visits a map. An address
  is held when its key below the network's prefix has a value; the keys of the last reserved
  addresses are set apart.
\<close>

record 'c kv_client =
  kvPut :: "string \<Rightarrow> string \<Rightarrow> 'c \<Rightarrow> go_error option \<times> 'c"
  kvGet :: "string \<Rightarrow> 'c \<Rightarrow> (go_error + gomap) \<times> 'c"
  kvGetPrefix :: "string \<Rightarrow> 'c \<Rightarrow> (go_error + gomap) \<times> 'c"
  kvDelete :: "string \<Rightarrow> 'c \<Rightarrow> go_error option \<times> 'c"
  mutexLock :: "'c \<Rightarrow> go_error option \<times> 'c"
  mutexUnlock :: "'c \<Rightarrow> go_error option \<times> 'c"
  sessionClose :: "'c \<Rightarrow> go_error option \<times> 'c"

definition lastIPFilePrefix :: string where
  "lastIPFilePrefix = ''last_reserved_ip.''"

definition LineBreak :: string where
  "LineBreak = [CHR 0x0D, CHR 0x0A]"

definition defaultKeyPrefix :: string where
  "defaultKeyPrefix = ''/kubeovsio/networks/''"

definition ErrKeyNotExists :: go_error where
  "ErrKeyNotExists = ErrNew ''key not exists''"

section \<open>The lock and the constructor\<close>

text \<open>\<open>NewEtcdLock\<close> makes a session but does not keep it: the field \<open>sess\<close> stays nil.\<close>

record etcd_lock =
  mutexKey :: string
  sess :: "unit option"

definition EtcdLockKey :: string where
  "EtcdLockKey = ''/kubeovsio/ipam''"

definition NewEtcdLock :: "go_error + unit \<Rightarrow> go_error + etcd_lock" where
  "NewEtcdLock newSession =
     (case newSession of
        Inl e \<Rightarrow> Inl e
      | Inr _ \<Rightarrow> Inr \<lparr>mutexKey = EtcdLockKey, sess = None\<rparr>)"

definition lock_Close :: "'c kv_client \<Rightarrow> etcd_lock \<Rightarrow> 'c \<Rightarrow> go_error option outcome \<times> 'c" where
  "lock_Close c l s =
     (case sess l of
        None \<Rightarrow> (Panics, s)
      | Some _ \<Rightarrow> (let (e, s') = sessionClose c s in (Returns e, s')))"

record etcd_store =
  etcdLock :: etcd_lock
  keyPrefix :: string

definition New :: "go_error + unit \<Rightarrow> go_error + unit \<Rightarrow> string \<Rightarrow> string \<Rightarrow> go_error + etcd_store" where
  "New newClient newSession network key =
     (let key = (if key = [] then defaultKeyPrefix else key);
          netWorkKey = key @ network
      in case newClient of
           Inl e \<Rightarrow> Inl (Wrapf ''new etcd clientv3 error: %v'' [] e)
         | Inr _ \<Rightarrow>
             (case NewEtcdLock newSession of
                Inl e \<Rightarrow> Inl (Wrapf ''new etcd lock error: %v'' [] e)
              | Inr lk \<Rightarrow> Inr \<lparr>etcdLock = lk, keyPrefix = netWorkKey\<rparr>))"

section \<open>The operations\<close>

definition kv_set :: "'c kv_client \<Rightarrow> string \<Rightarrow> string \<Rightarrow> 'c \<Rightarrow> go_error option \<times> 'c" where
  "kv_set c key v s = kvPut c key v s"

definition kv_get :: "'c kv_client \<Rightarrow> string \<Rightarrow> 'c \<Rightarrow> (go_error + string) \<times> 'c" where
  "kv_get c key s =
     (case kvGet c key s of
        (Inl e, s') \<Rightarrow> (Inl e, s')
      | (Inr kvs, s') \<Rightarrow> (if kvs = [] then Inl ErrKeyNotExists else Inr (snd (hd kvs)), s'))"

definition kv_delete :: "'c kv_client \<Rightarrow> string \<Rightarrow> 'c \<Rightarrow> go_error option \<times> 'c" where
  "kv_delete c key s = kvDelete c key s"

definition kv_list :: "'c kv_client \<Rightarrow> string \<Rightarrow> 'c \<Rightarrow> (go_error + gomap) \<times> 'c" where
  "kv_list c pre s =
     (case kvGetPrefix c pre s of
        (Inl e, s') \<Rightarrow> (Inl e, s')
      | (Inr kvs, s') \<Rightarrow> (Inr (fold (\<lambda>(k, v). AList.update k v) kvs []), s'))"

definition ip_key :: "string \<Rightarrow> ip \<Rightarrow> string" where
  "ip_key p a = p @ ''/'' @ ip_String a"

definition last_key :: "string \<Rightarrow> string \<Rightarrow> string" where
  "last_key p rid = p @ ''/'' @ lastIPFilePrefix @ rid"

definition etcd_Reserve ::
    "'c kv_client \<Rightarrow> string \<Rightarrow> string \<Rightarrow> string \<Rightarrow> ip \<Rightarrow> string \<Rightarrow> 'c \<Rightarrow> (go_error + bool) \<times> 'c" where
  "etcd_Reserve c p cid ifname a rid s =
     (let (r, s1) = kv_get c (ip_key p a) s in
      case r of
        Inr _ \<Rightarrow> (Inr False, s1)
      | Inl err \<Rightarrow>
          if err \<noteq> ErrKeyNotExists then (Inl err, s1)
          else
            (case kv_set c (ip_key p a) (TrimSpace cid @ LineBreak @ ifname) s1 of
               (Some err, s2) \<Rightarrow> (Inl err, s2)
             | (None, s2) \<Rightarrow>
                 (case kv_set c (last_key p rid) (ip_String a) s2 of
                    (Some err, s3) \<Rightarrow> (Inl err, s3)
                  | (None, s3) \<Rightarrow> (Inr True, s3))))"

definition etcd_LastReservedIP :: "'c kv_client \<Rightarrow> string \<Rightarrow> string \<Rightarrow> 'c \<Rightarrow> (go_error + ip) \<times> 'c" where
  "etcd_LastReservedIP c p rid s =
     (case kv_get c (last_key p rid) s of
        (Inl err, s') \<Rightarrow> (Inl err, s')
      | (Inr data, s') \<Rightarrow> (Inr (ParseIP data), s'))"

definition etcd_Release :: "'c kv_client \<Rightarrow> string \<Rightarrow> ip \<Rightarrow> 'c \<Rightarrow> go_error option \<times> 'c" where
  "etcd_Release c p a s = kv_delete c (ip_key p a) s"

definition FindByKey ::
    "(gomap \<Rightarrow> gomap) \<Rightarrow> 'c kv_client \<Rightarrow> string \<Rightarrow> string \<Rightarrow> 'c \<Rightarrow> (go_error + bool) \<times> 'c" where
  "FindByKey ord c p match s =
     (case kv_list c p s of
        (Inl err, s') \<Rightarrow> (Inl err, s')
      | (Inr strs, s') \<Rightarrow> (Inr (list_ex (\<lambda>(k, v). v = match) (ord strs)), s'))"

definition FindByID ::
    "(gomap \<Rightarrow> gomap) \<Rightarrow> 'c kv_client \<Rightarrow> string \<Rightarrow> string \<Rightarrow> string \<Rightarrow> 'c \<Rightarrow> bool \<times> 'c" where
  "FindByID ord c p cid ifname s =
     (let s1 = snd (mutexLock c s);
          (r, s2) = FindByKey ord c p (TrimSpace cid @ LineBreak @ ifname) s1;
          (found, s3) =
            (case r of
               Inr False \<Rightarrow>
                 (let (r', s3) = FindByKey ord c p (TrimSpace cid) s2
                  in (case r' of Inl _ \<Rightarrow> False | Inr b \<Rightarrow> b, s3))
             | Inr True \<Rightarrow> (True, s2)
             | Inl _ \<Rightarrow> (False, s2))
      in (found, snd (mutexUnlock c s3)))"

definition ReleaseByKey ::
    "(gomap \<Rightarrow> gomap) \<Rightarrow> 'c kv_client \<Rightarrow> string \<Rightarrow> string \<Rightarrow> 'c \<Rightarrow> (go_error + bool) \<times> 'c" where
  "ReleaseByKey ord c p match s =
     (case kv_list c p s of
        (Inl err, s') \<Rightarrow> (Inl err, s')
      | (Inr strs, s') \<Rightarrow>
          (case find (\<lambda>(k, v). TrimSpace v = match) (ord strs) of
             None \<Rightarrow> (Inr False, s')
           | Some (k, v) \<Rightarrow>
               (case kv_delete c k s' of
                  (Some err, s'') \<Rightarrow> (Inl err, s'')
                | (None, s'') \<Rightarrow> (Inr True, s''))))"

definition etcd_ReleaseByID ::
    "(gomap \<Rightarrow> gomap) \<Rightarrow> 'c kv_client \<Rightarrow> string \<Rightarrow> string \<Rightarrow> string \<Rightarrow> 'c \<Rightarrow> go_error option \<times> 'c" where
  "etcd_ReleaseByID ord c p cid ifname s =
     (case ReleaseByKey ord c p (TrimSpace cid @ LineBreak @ ifname) s of
        (Inl err, s1) \<Rightarrow> (Some err, s1)
      | (Inr True, s1) \<Rightarrow> (None, s1)
      | (Inr False, s1) \<Rightarrow>
          (case ReleaseByKey ord c p (TrimSpace cid) s1 of
             (Inl err, s2) \<Rightarrow> (Some err, s2)
           | (Inr _, s2) \<Rightarrow> (None, s2)))"

definition etcd_GetByID ::
    "(gomap \<Rightarrow> gomap) \<Rightarrow> 'c kv_client \<Rightarrow> string \<Rightarrow> string \<Rightarrow> string \<Rightarrow> 'c \<Rightarrow> ip list \<times> 'c" where
  "etcd_GetByID ord c p cid ifname s =
     (let match = TrimSpace cid @ LineBreak @ ifname; matchOld = TrimSpace cid in
      case kv_list c p s of
        (Inl err, s') \<Rightarrow> ([], s')
      | (Inr strs, s') \<Rightarrow>
          (filter (\<lambda>a. a \<noteq> [])
             (map (ParseIP \<circ> fst)
               (filter (\<lambda>(k, v). TrimSpace v = match \<or> TrimSpace v = matchOld) (ord strs))), s'))"

definition etcd_ops :: "(gomap \<Rightarrow> gomap) \<Rightarrow> 'c kv_client \<Rightarrow> etcd_store \<Rightarrow> 'c store_ops" where
  "etcd_ops ord c st =
     (let p = keyPrefix st in
      \<lparr>Lock = mutexLock c, Unlock = mutexUnlock c, Close = lock_Close c (etcdLock st),
       Reserve = etcd_Reserve c p, LastReservedIP = etcd_LastReservedIP c p,
       Release = etcd_Release c p, ReleaseByID = etcd_ReleaseByID ord c p,
       GetByID = etcd_GetByID ord c p\<rparr>)"

lemmas etcd_op_defs = kv_set_def kv_get_def kv_delete_def

section \<open>The laws of the client\<close>

text \<open>
  \<open>view s\<close> is the content of etcd. A failed write may have been applied or not; reads do not change
  the content; the result of a range read has every matching key once. While a process waits for
  the mutex, others may change the content.
\<close>

locale etcd_kv =
  fixes c :: "'c kv_client" and inv :: "'c \<Rightarrow> bool" and view :: "'c \<Rightarrow> string \<Rightarrow> string option"
  assumes put_inv: "inv s \<Longrightarrow> kvPut c k v s = (r, s') \<Longrightarrow> inv s'"
    and put_ok: "inv s \<Longrightarrow> kvPut c k v s = (None, s') \<Longrightarrow> view s' = (view s)(k \<mapsto> v)"
    and put_failed: "inv s \<Longrightarrow> kvPut c k v s = (Some e, s') \<Longrightarrow>
        view s' = view s \<or> view s' = (view s)(k \<mapsto> v)"
    and get_frame: "inv s \<Longrightarrow> kvGet c k s = (res, s') \<Longrightarrow> inv s' \<and> view s' = view s"
    and get_ok: "inv s \<Longrightarrow> kvGet c k s = (Inr kvs, s') \<Longrightarrow>
        kvs = (case view s k of None \<Rightarrow> [] | Some v \<Rightarrow> [(k, v)])"
    and get_failed: "inv s \<Longrightarrow> kvGet c k s = (Inl e, s') \<Longrightarrow> e \<noteq> ErrKeyNotExists"
    and prefix_frame: "inv s \<Longrightarrow> kvGetPrefix c p s = (res, s') \<Longrightarrow> inv s' \<and> view s' = view s"
    and prefix_ok: "inv s \<Longrightarrow> kvGetPrefix c p s = (Inr kvs, s') \<Longrightarrow>
        distinct (map fst kvs) \<and> map_of kvs = (\<lambda>k. if HasPrefix k p then view s k else None)"
    and delete_inv: "inv s \<Longrightarrow> kvDelete c k s = (r, s') \<Longrightarrow> inv s'"
    and delete_ok: "inv s \<Longrightarrow> kvDelete c k s = (None, s') \<Longrightarrow> view s' = (view s)(k := None)"
    and delete_failed: "inv s \<Longrightarrow> kvDelete c k s = (Some e, s') \<Longrightarrow>
        view s' = view s \<or> view s' = (view s)(k := None)"
    and mutex_lock: "inv s \<Longrightarrow> mutexLock c s = (r, s') \<Longrightarrow> inv s'"
    and mutex_unlock: "inv s \<Longrightarrow> mutexUnlock c s = (r, s') \<Longrightarrow> inv s' \<and> view s' = view s"

text \<open>The content below a network's prefix, by the text behind the slash.\<close>

definition net_key :: "string \<Rightarrow> string \<Rightarrow> string" where
  "net_key p k = p @ ''/'' @ k"

definition etcd_held :: "(string \<Rightarrow> string option) \<Rightarrow> string \<Rightarrow> string \<Rightarrow> string option" where
  "etcd_held m p k = (if HasPrefix k lastIPFilePrefix then None else m (net_key p k))"

definition etcd_owner :: "string \<Rightarrow> string \<Rightarrow> string" where
  "etcd_owner cid ifname = TrimSpace cid @ LineBreak @ ifname"

definition etcd_releases :: "string \<Rightarrow> string \<Rightarrow> string \<Rightarrow> bool" where
  "etcd_releases cid ifname v \<longleftrightarrow>
     TrimSpace v = TrimSpace cid @ LineBreak @ ifname \<or> TrimSpace v = TrimSpace cid"

lemma ip_key_net_key: "ip_key p a = net_key p (ip_String a)"
  by (simp add: ip_key_def net_key_def)

lemma last_key_net_key: "last_key p rid = net_key p (lastIPFilePrefix @ rid)"
  by (simp add: last_key_def net_key_def)

lemma net_key_inj [simp]: "net_key p k = net_key p k' \<longleftrightarrow> k = k'"
  by (simp add: net_key_def)

lemma HasPrefix_net_key [simp]: "HasPrefix (net_key p k) p"
  by (auto simp: net_key_def HasPrefix_iff)

lemma ip_String_not_last [simp]: "\<not> HasPrefix (ip_String a) lastIPFilePrefix"
  using ip_String_no_underscore [of a] by (auto simp: HasPrefix_iff lastIPFilePrefix_def)

lemma etcd_held_ip [simp]: "etcd_held m p (ip_String a) = m (ip_key p a)"
  by (simp add: etcd_held_def ip_key_net_key)

lemma etcd_held_put_ip [simp]:
  "etcd_held (m(ip_key p a \<mapsto> v)) p = (etcd_held m p)(ip_String a \<mapsto> v)"
  by (auto simp: etcd_held_def ip_key_net_key fun_eq_iff)

lemma etcd_held_put_last [simp]: "etcd_held (m(last_key p rid \<mapsto> v)) p = etcd_held m p"
  by (auto simp: etcd_held_def last_key_net_key fun_eq_iff HasPrefix_iff)

lemma etcd_held_delete: "etcd_held (m(k := None)) p \<subseteq>\<^sub>m etcd_held m p"
  by (auto simp: etcd_held_def map_le_def split: if_splits)

text \<open>The Go map that \<open>list\<close> builds.\<close>

lemma fold_update_map_of:
  "map_of (fold (\<lambda>(k, v). AList.update k v) kvs m) = map_of m ++ map_of (rev kvs)"
proof (induction kvs arbitrary: m)
  case (Cons x kvs)
  obtain k v where "x = (k, v)" by (cases x)
  with Cons show ?case by (simp add: update_conv' map_add_def fun_eq_iff split: option.split)
qed simp

lemma fold_update_distinct:
  "distinct (map fst m) \<Longrightarrow> distinct (map fst (fold (\<lambda>(k, v). AList.update k v) kvs m))"
  by (induction kvs arbitrary: m) (auto simp: distinct_update)

lemma map_of_rev: "distinct (map fst kvs) \<Longrightarrow> map_of (rev kvs) = map_of kvs"
  by (subst map_of_inject_set) (simp_all flip: rev_map)

context etcd_kv
begin

lemma kv_get_frame: "inv s \<Longrightarrow> kv_get c k s = (r, s') \<Longrightarrow> inv s' \<and> view s' = view s"
  using get_frame by (fastforce simp: kv_get_def split: prod.splits sum.splits if_splits)

lemma kv_get_ok: "inv s \<Longrightarrow> kv_get c k s = (Inr v, s') \<Longrightarrow> view s k = Some v"
  using get_ok [of s k] by (fastforce simp: kv_get_def split: prod.splits sum.splits if_splits option.splits)

lemma kv_get_missing: "inv s \<Longrightarrow> kv_get c k s = (Inl ErrKeyNotExists, s') \<Longrightarrow> view s k = None"
  using get_ok [of s k] get_failed [of s k]
  by (fastforce simp: kv_get_def split: prod.splits sum.splits if_splits option.splits)

lemma kv_list_frame: "inv s \<Longrightarrow> kv_list c p s = (r, s') \<Longrightarrow> inv s' \<and> view s' = view s"
  using prefix_frame by (fastforce simp: kv_list_def split: prod.splits sum.splits)

lemma kv_list_ok:
  assumes "inv s" "kv_list c p s = (Inr m, s')"
  shows "distinct (map fst m) \<and> map_of m = (\<lambda>k. if HasPrefix k p then view s k else None)"
proof -
  obtain kvs where k: "kvGetPrefix c p s = (Inr kvs, s')"
    and m: "m = fold (\<lambda>(k, v). AList.update k v) kvs []"
    using assms(2) by (auto simp: kv_list_def split: prod.splits sum.splits)
  from prefix_ok [OF assms(1) k] show ?thesis
    by (simp add: m fold_update_map_of map_of_rev fold_update_distinct)
qed

lemma kv_delete_law:
  assumes "inv s" "kv_delete c k s = (r, s')"
  shows "inv s' \<and> (view s' = view s \<or> view s' = (view s)(k := None)) \<and>
    (r = None \<longrightarrow> view s' = (view s)(k := None))"
  using assms delete_inv [of s k r s'] delete_ok [of s k s'] delete_failed [of s k _ s']
  by (cases r) (auto simp: kv_delete_def)

lemma etcd_Reserve_cases:
  assumes "inv s" "etcd_Reserve c p cid ifn a rid s = (res, s')"
  shows "inv s'"
    "res = Inr True \<Longrightarrow> view s (ip_key p a) = None \<and>
       view s' = (view s)(ip_key p a \<mapsto> etcd_owner cid ifn, last_key p rid \<mapsto> ip_String a)"
    "res = Inr False \<Longrightarrow> view s (ip_key p a) \<noteq> None \<and> view s' = view s"
    "res = Inl e \<Longrightarrow> view s' = view s \<or> view s (ip_key p a) = None \<and>
       (view s' = (view s)(ip_key p a \<mapsto> etcd_owner cid ifn) \<or>
        view s' = (view s)(ip_key p a \<mapsto> etcd_owner cid ifn, last_key p rid \<mapsto> ip_String a))"
proof -
  let ?own = "TrimSpace cid @ LineBreak @ ifn"
  obtain r s1 where g: "kv_get c (ip_key p a) s = (r, s1)" by (cases "kv_get c (ip_key p a) s")
  note s1 = kv_get_frame [OF assms(1) g]
  have "inv s' \<and> (res = Inr True \<longrightarrow> view s (ip_key p a) = None \<and>
       view s' = (view s)(ip_key p a \<mapsto> ?own, last_key p rid \<mapsto> ip_String a)) \<and>
    (res = Inr False \<longrightarrow> view s (ip_key p a) \<noteq> None \<and> view s' = view s) \<and>
    (res = Inl e \<longrightarrow> view s' = view s \<or> view s (ip_key p a) = None \<and>
       (view s' = (view s)(ip_key p a \<mapsto> ?own) \<or>
        view s' = (view s)(ip_key p a \<mapsto> ?own, last_key p rid \<mapsto> ip_String a)))"
  proof (cases "r = Inl ErrKeyNotExists")
    case False
    with assms(2) g s1 kv_get_ok [OF assms(1)] show ?thesis
      by (cases r) (auto simp: etcd_Reserve_def)
  next
    case True
    then have free: "view s (ip_key p a) = None" using kv_get_missing [OF assms(1)] g by simp
    obtain r2 s2 where p2: "kvPut c (ip_key p a) ?own s1 = (r2, s2)" by (cases "kvPut c (ip_key p a) ?own s1")
    note s2 = put_inv [OF s1 [THEN conjunct1] p2]
    show ?thesis
    proof (cases r2)
      case (Some err)
      with put_failed [OF s1 [THEN conjunct1]] p2 s1 s2 True g free assms(2) show ?thesis
        by (auto simp: etcd_Reserve_def kv_set_def)
    next
      case None
      have v2: "view s2 = (view s)(ip_key p a \<mapsto> ?own)"
        using put_ok [OF s1 [THEN conjunct1]] p2 s1 None by simp
      obtain r3 s3 where p3: "kvPut c (last_key p rid) (ip_String a) s2 = (r3, s3)"
        by (cases "kvPut c (last_key p rid) (ip_String a) s2")
      have out: "(res, s') = (case r3 of None \<Rightarrow> (Inr True, s3) | Some err \<Rightarrow> (Inl err, s3))"
        using assms(2) True g p2 None p3 by (auto simp: etcd_Reserve_def kv_set_def split: option.splits)
      show ?thesis
        using out put_inv [OF s2 p3] put_ok [OF s2, of "last_key p rid" "ip_String a" s3]
          put_failed [OF s2, of "last_key p rid" "ip_String a" _ s3] p3 v2 free
        by (cases r3) auto
    qed
  qed
  then show "inv s'"
    "res = Inr True \<Longrightarrow> view s (ip_key p a) = None \<and>
       view s' = (view s)(ip_key p a \<mapsto> etcd_owner cid ifn, last_key p rid \<mapsto> ip_String a)"
    "res = Inr False \<Longrightarrow> view s (ip_key p a) \<noteq> None \<and> view s' = view s"
    "res = Inl e \<Longrightarrow> view s' = view s \<or> view s (ip_key p a) = None \<and>
       (view s' = (view s)(ip_key p a \<mapsto> etcd_owner cid ifn) \<or>
        view s' = (view s)(ip_key p a \<mapsto> etcd_owner cid ifn, last_key p rid \<mapsto> ip_String a))"
    by (auto simp: etcd_owner_def)
qed

lemma etcd_LastReservedIP_frame:
  "inv s \<Longrightarrow> etcd_LastReservedIP c p rid s = (r, s') \<Longrightarrow> inv s' \<and> view s' = view s"
  using kv_get_frame by (fastforce simp: etcd_LastReservedIP_def split: prod.splits sum.splits)

lemma etcd_GetByID_frame:
  "inv s \<Longrightarrow> etcd_GetByID ord c p cid ifn s = (ips, s') \<Longrightarrow> inv s' \<and> view s' = view s"
  using kv_list_frame by (fastforce simp: etcd_GetByID_def Let_def split: prod.splits sum.splits)

text \<open>\<open>ReleaseByKey\<close> deletes at most one key, one whose value matches.\<close>

lemma ReleaseByKey_cases:
  assumes "inv s" "map_order ord" "ReleaseByKey ord c p match s = (r, s')"
  shows "inv s' \<and>
    (r = Inr False \<longrightarrow> view s' = view s \<and>
       (\<forall>k v. HasPrefix k p \<longrightarrow> view s k = Some v \<longrightarrow> TrimSpace v \<noteq> match)) \<and>
    (r = Inr True \<longrightarrow> (\<exists>k v. HasPrefix k p \<and> view s k = Some v \<and> TrimSpace v = match \<and>
       view s' = (view s)(k := None))) \<and>
    (view s' = view s \<or> (\<exists>k v. HasPrefix k p \<and> view s k = Some v \<and> TrimSpace v = match \<and>
       view s' = (view s)(k := None)))"
proof -
  obtain l s1 where l: "kv_list c p s = (l, s1)" by (cases "kv_list c p s")
  note s1 = kv_list_frame [OF assms(1) l]
  show ?thesis
  proof (cases l)
    case (Inl e)
    with l s1 assms(3) show ?thesis by (auto simp: ReleaseByKey_def)
  next
    case (Inr m)
    have m: "distinct (map fst m)" "\<And>k. map_of m k = (if HasPrefix k p then view s k else None)"
      using kv_list_ok [OF assms(1)] l Inr by auto
    have set: "(k, v) \<in> set (ord m) \<longleftrightarrow> HasPrefix k p \<and> view s k = Some v" for k v
      using m map_of_eq_Some_iff [OF m(1), of k v] map_order_set [OF assms(2), of m] by (auto split: if_splits)
    show ?thesis
    proof (cases "find (\<lambda>(k, v). TrimSpace v = match) (ord m)")
      case None
      then have "\<forall>k v. HasPrefix k p \<longrightarrow> view s k = Some v \<longrightarrow> TrimSpace v \<noteq> match"
        using set by (fastforce simp: find_None_iff)
      with None l Inr s1 assms(3) show ?thesis by (auto simp: ReleaseByKey_def)
    next
      case (Some kv)
      obtain k v where kv: "kv = (k, v)" by (cases kv)
      have "(k, v) \<in> set (ord m)" "TrimSpace v = match"
        using Some kv by (auto simp: find_Some_iff intro: nth_mem) (metis nth_mem)
      then have k: "HasPrefix k p" "view s k = Some v" "TrimSpace v = match" using set by auto
      obtain r2 s2 where d: "kv_delete c k s1 = (r2, s2)" by (cases "kv_delete c k s1")
      have "(r, s') = (case r2 of None \<Rightarrow> (Inr True, s2) | Some err \<Rightarrow> (Inl err, s2))"
        using assms(3) l Inr Some kv d by (auto simp: ReleaseByKey_def split: option.splits)
      with kv_delete_law [OF s1 [THEN conjunct1] d] s1 k show ?thesis
        by (cases r2) auto
    qed
  qed
qed

lemma etcd_ReleaseByID_cases:
  assumes "inv s" "map_order ord" "etcd_ReleaseByID ord c p cid ifn s = (e, s')"
  shows "inv s'"
    "view s' = view s \<or> (\<exists>k v. HasPrefix k p \<and> view s k = Some v \<and> etcd_releases cid ifn v \<and>
       view s' = (view s)(k := None))"
    "e = None \<Longrightarrow> view s' = view s \<Longrightarrow> HasPrefix k p \<Longrightarrow> view s k = Some v \<Longrightarrow> \<not> etcd_releases cid ifn v"
proof -
  let ?m = "TrimSpace cid @ LineBreak @ ifn"
  obtain r1 s1 where r1: "ReleaseByKey ord c p ?m s = (r1, s1)" by (cases "ReleaseByKey ord c p ?m s")
  note c1 = ReleaseByKey_cases [OF assms(1,2) r1]
  have "inv s' \<and> (view s' = view s \<or> (\<exists>k v. HasPrefix k p \<and> view s k = Some v \<and>
       etcd_releases cid ifn v \<and> view s' = (view s)(k := None))) \<and>
    (e = None \<longrightarrow> view s' = view s \<longrightarrow> HasPrefix k p \<longrightarrow> view s k = Some v \<longrightarrow> \<not> etcd_releases cid ifn v)"
  proof (cases "r1 = Inr False")
    case False
    then have "s' = s1" "e = None \<longrightarrow> r1 = Inr True"
      using assms(3) r1 by (auto simp: etcd_ReleaseByID_def split: sum.splits bool.splits)
    moreover have "view s1 \<noteq> view s" if "r1 = Inr True"
      using c1 that by (metis fun_upd_same option.distinct(1))
    ultimately show ?thesis using c1 unfolding etcd_releases_def by blast
  next
    case True
    then have i1: "inv s1" "view s1 = view s" using c1 by auto
    obtain r2 s2 where r2: "ReleaseByKey ord c p (TrimSpace cid) s1 = (r2, s2)"
      by (cases "ReleaseByKey ord c p (TrimSpace cid) s1")
    note c2 = ReleaseByKey_cases [OF i1(1) assms(2) r2, unfolded i1(2)]
    have out: "s' = s2" "e = None \<longrightarrow> (\<exists>b. r2 = Inr b)"
      using assms(3) r1 r2 True by (auto simp: etcd_ReleaseByID_def split: sum.splits)
    have "view s2 \<noteq> view s" if "r2 = Inr True"
      using c2 that by (metis fun_upd_same option.distinct(1))
    then have "r2 = Inr False" if "e = None" "view s' = view s"
      using out that by (metis (full_types))
    with c1 c2 True out(1) show ?thesis unfolding etcd_releases_def by blast
  qed
  then show "inv s'"
    "view s' = view s \<or> (\<exists>k v. HasPrefix k p \<and> view s k = Some v \<and> etcd_releases cid ifn v \<and>
       view s' = (view s)(k := None))"
    "e = None \<Longrightarrow> view s' = view s \<Longrightarrow> HasPrefix k p \<Longrightarrow> view s k = Some v \<Longrightarrow> \<not> etcd_releases cid ifn v"
    by blast+
qed

lemma etcd_GetByID_nothing:
  assumes "inv s" "map_order ord" "CHR ''/'' \<in> set p"
  shows "fst (etcd_GetByID ord c p cid ifn s) = []"
proof (cases "kv_list c p s")
  case (Pair l s1)
  show ?thesis
  proof (cases l)
    case (Inl e)
    with Pair show ?thesis by (simp add: etcd_GetByID_def)
  next
    case (Inr m)
    have "HasPrefix k p" if "(k, v) \<in> set (ord m)" for k v
      using that kv_list_ok [OF assms(1)] Pair Inr map_order_set [OF assms(2), of m]
      by (metis map_of_eq_None_iff option.distinct(1) weak_map_of_SomeI)
    then have "ParseIP k = []" if "(k, v) \<in> set (ord m)" for k v
      using that assms(3) by (intro ParseIP_slash) (metis HasPrefix_iff UnCI set_append)
    with Pair Inr show ?thesis by (auto simp: etcd_GetByID_def filter_empty_conv)
  qed
qed

end

locale etcd_node = etcd_kv c inv view + go_maps ord
  for c :: "'c kv_client" and inv view ord +
  fixes st :: etcd_store

sublocale etcd_node \<subseteq> node: backend_store "etcd_ops ord c st" inv
  "\<lambda>s. etcd_held (view s) (keyPrefix st)" etcd_owner etcd_releases
proof unfold_locales
  fix s cid ifn a rid res s'
  assume i: "inv s" and r: "Reserve (etcd_ops ord c st) cid ifn a rid s = (res, s')"
  then show "inv s'" using etcd_Reserve_cases(1) by (simp add: etcd_ops_def Let_def)
next
  fix s cid ifn a rid s'
  assume "inv s" "Reserve (etcd_ops ord c st) cid ifn a rid s = (Inr True, s')"
  then show "etcd_held (view s) (keyPrefix st) (ip_String a) = None \<and>
    etcd_held (view s') (keyPrefix st) =
      (etcd_held (view s) (keyPrefix st))(ip_String a \<mapsto> etcd_owner cid ifn)"
    using etcd_Reserve_cases(2) [of s "keyPrefix st" cid ifn a rid "Inr True" s']
    by (simp add: etcd_ops_def Let_def)
next
  fix s cid ifn a rid s'
  assume "inv s" "Reserve (etcd_ops ord c st) cid ifn a rid s = (Inr False, s')"
  then show "etcd_held (view s) (keyPrefix st) (ip_String a) \<noteq> None \<and>
    etcd_held (view s') (keyPrefix st) = etcd_held (view s) (keyPrefix st)"
    using etcd_Reserve_cases(3) [of s "keyPrefix st" cid ifn a rid "Inr False" s']
    by (simp add: etcd_ops_def Let_def)
next
  fix s cid ifn a rid err s'
  assume "inv s" "Reserve (etcd_ops ord c st) cid ifn a rid s = (Inl err, s')"
  then show "etcd_held (view s') (keyPrefix st) = etcd_held (view s) (keyPrefix st) \<or>
    etcd_held (view s) (keyPrefix st) (ip_String a) = None \<and>
    etcd_held (view s') (keyPrefix st) =
      (etcd_held (view s) (keyPrefix st))(ip_String a \<mapsto> etcd_owner cid ifn)"
    using etcd_Reserve_cases(4) [of s "keyPrefix st" cid ifn a rid "Inl err" s' err]
    by (auto simp: etcd_ops_def Let_def)
next
  fix s cid ifn re s'
  assume "inv s" "ReleaseByID (etcd_ops ord c st) cid ifn s = (re, s')"
  then have e: "inv s" "etcd_ReleaseByID ord c (keyPrefix st) cid ifn s = (re, s')"
    by (simp_all add: etcd_ops_def Let_def)
  from etcd_ReleaseByID_cases(1,2) [OF e(1) order e(2)] etcd_held_delete [of "view s" _ "keyPrefix st"]
  show "inv s' \<and> etcd_held (view s') (keyPrefix st) \<subseteq>\<^sub>m etcd_held (view s) (keyPrefix st) \<and>
    (\<forall>k v. etcd_held (view s) (keyPrefix st) k = Some v \<longrightarrow>
       etcd_held (view s') (keyPrefix st) k = None \<longrightarrow> etcd_releases cid ifn v)"
    by (auto simp: etcd_held_def split: if_splits)
next
  fix s e s'
  assume "inv s" "Lock (etcd_ops ord c st) s = (e, s')"
  then show "inv s'"
    using mutex_lock [of s e s'] by (simp add: etcd_ops_def Let_def)
next
  fix s e s'
  assume "inv s" "Unlock (etcd_ops ord c st) s = (e, s')"
  then show "inv s' \<and> etcd_held (view s') (keyPrefix st) = etcd_held (view s) (keyPrefix st)"
    using mutex_unlock [of s e s'] by (simp add: etcd_ops_def Let_def)
next
  fix s rid r s'
  assume "inv s" "LastReservedIP (etcd_ops ord c st) rid s = (r, s')"
  then show "inv s' \<and> etcd_held (view s') (keyPrefix st) = etcd_held (view s) (keyPrefix st)"
    using etcd_LastReservedIP_frame [of s "keyPrefix st" rid r s'] by (simp add: etcd_ops_def Let_def)
next
  fix s cid ifn ips s'
  assume "inv s" "GetByID (etcd_ops ord c st) cid ifn s = (ips, s')"
  then show "inv s' \<and> etcd_held (view s') (keyPrefix st) = etcd_held (view s) (keyPrefix st)"
    using etcd_GetByID_frame [of s ord "keyPrefix st" cid ifn ips s'] by (simp add: etcd_ops_def Let_def)
qed

section \<open>A client that does not fail\<close>

locale reliable_kv = etcd_kv +
  assumes put_total: "inv s \<Longrightarrow> \<exists>s'. kvPut c k v s = (None, s')"
    and get_total: "inv s \<Longrightarrow> \<exists>kvs s'. kvGet c k s = (Inr kvs, s')"

locale reliable_node = reliable_kv c inv view + etcd_node c inv view ord st
  for c :: "'c kv_client" and inv view ord st

sublocale reliable_node \<subseteq> rnode: reliable_store "etcd_ops ord c st" inv
  "\<lambda>s. etcd_held (view s) (keyPrefix st)" etcd_owner etcd_releases
proof unfold_locales
  fix s cid ifn a rid
  assume i: "inv s"
  let ?k = "ip_key (keyPrefix st) a" and ?own = "TrimSpace cid @ LineBreak @ ifn"
  obtain kvs s1 where g: "kvGet c ?k s = (Inr kvs, s1)" using get_total [OF i] by blast
  have i1: "inv s1" using get_frame [OF i g] by simp
  obtain s2 where p2: "kvPut c ?k ?own s1 = (None, s2)" using put_total [OF i1] by blast
  have i2: "inv s2" using put_inv [OF i1 p2] .
  obtain s3 where p3: "kvPut c (last_key (keyPrefix st) rid) (ip_String a) s2 = (None, s3)"
    using put_total [OF i2] by blast
  show "\<exists>b s'. Reserve (etcd_ops ord c st) cid ifn a rid s = (Inr b, s')"
    using g p2 p3 by (auto simp: etcd_ops_def Let_def etcd_Reserve_def kv_get_def kv_set_def)
qed

text \<open>A client that keeps the pairs in memory and never fails.\<close>

definition memory_client :: "gomap kv_client" where
  "memory_client =
     \<lparr>kvPut = \<lambda>k v m. (None, AList.update k v m),
      kvGet = \<lambda>k m. (Inr (case map_of m k of None \<Rightarrow> [] | Some v \<Rightarrow> [(k, v)]), m),
      kvGetPrefix = \<lambda>p m. (Inr (filter (\<lambda>(k, v). HasPrefix k p) m), m),
      kvDelete = \<lambda>k m. (None, AList.delete k m),
      mutexLock = \<lambda>m. (None, m), mutexUnlock = \<lambda>m. (None, m), sessionClose = \<lambda>m. (None, m)\<rparr>"

definition memory_inv :: "gomap \<Rightarrow> bool" where
  "memory_inv m \<longleftrightarrow> distinct (map fst m)"

lemma map_of_filter_prefix:
  "map_of (filter (\<lambda>(k, v). P k) m) = (\<lambda>k. if P k then map_of m k else None)"
  by (induction m) (auto simp: fun_eq_iff)

lemma distinct_filter_fst: "distinct (map fst m) \<Longrightarrow> distinct (map fst (filter P m))"
  by (induction m) auto

definition sample_store :: etcd_store where
  "sample_store = \<lparr>etcdLock = \<lparr>mutexKey = EtcdLockKey, sess = None\<rparr>, keyPrefix = ''/n/a''\<rparr>"

interpretation memory: reliable_node memory_client memory_inv map_of "\<lambda>m. m" sample_store
  by unfold_locales
    (auto simp: memory_client_def memory_inv_def update_conv' delete_conv' distinct_update distinct_delete
      map_of_filter_prefix distinct_filter_fst map_order_def fun_eq_iff split: option.splits)

end
