(* ===== verification/AllocTrace.thy ===== *)
theory AllocTrace
  imports Allocator
begin

text \<open>
  Histories of calls of \<open>Get\<close> and \<open>Release\<close> on one store, as a step relation. The invariant: an
  address that was handed out and not released since is held for its container and is handed out
  to nobody else.
\<close>

text \<open>
  Any sequence of calls of any allocators on one store. The second component lists the addresses
  (by their text) that were handed out and not released since, with container and interface. A
  call starts in the state in which it gets the lock; \<open>inv\<close> holds while it waits.
\<close>

type_synonym live = "(string \<times> string \<times> string) list"

inductive ipam_step ::
    "'s store_ops \<Rightarrow> ('s \<Rightarrow> bool) \<Rightarrow> (string \<Rightarrow> string \<Rightarrow> string) \<Rightarrow> (string \<Rightarrow> string \<Rightarrow> string \<Rightarrow> bool) \<Rightarrow>
     's \<times> live \<Rightarrow> 's \<times> live \<Rightarrow> bool"
  for ops inv owner releases where
  step_get: "inv t \<Longrightarrow> wf_set (Rangeset a) \<Longrightarrow> Rangeset a \<noteq> [] \<Longrightarrow> s = snd (Lock ops t) \<Longrightarrow>
     Get ops a cid ifn req t = Some (Returns (Inr conf), s') \<Longrightarrow>
     ipam_step ops inv owner releases (s, xs) (s', (ip_String (IP (Address conf)), cid, ifn) # xs)"
| step_get_failed: "inv t \<Longrightarrow> wf_set (Rangeset a) \<Longrightarrow> Rangeset a \<noteq> [] \<Longrightarrow> s = snd (Lock ops t) \<Longrightarrow>
     Get ops a cid ifn req t = Some (Returns (Inl e), s') \<Longrightarrow>
     ipam_step ops inv owner releases (s, xs) (s', xs)"
| step_release: "inv t \<Longrightarrow> s = snd (Lock ops t) \<Longrightarrow> Alloc_Release ops cid ifn t = (re, s') \<Longrightarrow>
     ipam_step ops inv owner releases (s, xs)
       (s', filter (\<lambda>(k, c, i). \<not> releases cid ifn (owner c i)) xs)"

inductive_cases ipam_stepE: "ipam_step ops I owner releases x y"

text \<open>Every live address is held for its container, and no address is live twice.\<close>

definition live_ok :: "(string \<Rightarrow> string \<Rightarrow> string) \<Rightarrow> (string \<Rightarrow> string option) \<Rightarrow> live \<Rightarrow> bool" where
  "live_ok owner h xs \<longleftrightarrow>
     distinct (map fst xs) \<and> (\<forall>(k, c, i) \<in> set xs. h k = Some (owner c i))"

lemma live_ok_grow: "live_ok own h xs \<Longrightarrow> h k = None \<Longrightarrow> live_ok own (h(k \<mapsto> v)) xs"
  by (fastforce simp: live_ok_def)

lemma live_ok_add: "live_ok own h xs \<Longrightarrow> h k = None \<Longrightarrow> live_ok own (h(k \<mapsto> own c i)) ((k, c, i) # xs)"
  by (fastforce simp: live_ok_def)

lemma live_ok_filter:
  assumes "live_ok own h xs" "\<And>k c i. (k, c, i) \<in> set xs \<Longrightarrow> P (k, c, i) \<Longrightarrow> h' k = h k"
  shows "live_ok own h' (filter P xs)"
proof -
  have "distinct (map fst (filter P xs))" if "distinct (map fst xs)"
    using that by (induction xs) auto
  with assms show ?thesis by (fastforce simp: live_ok_def)
qed

context backend_store
begin

lemma ipam_step_ok:
  assumes "ipam_step ops inv owner releases x y" "live_ok owner (held (fst x)) (snd x)"
  shows "live_ok owner (held (fst y)) (snd y)"
  using assms(1)
proof (cases rule: ipam_step.cases)
  case (step_get t a s cid ifn req conf s' xs)
  from Get_spec [OF step_get(7,3,4,5)] assms(2) step_get(1,2,6) show ?thesis
    by (auto simp: get_spec_def intro: live_ok_add)
next
  case (step_get_failed t a s cid ifn req e s' xs)
  from Get_spec [OF step_get_failed(7,3,4,5)] assms(2) step_get_failed(1,2,6) show ?thesis
    by (auto simp: get_spec_def intro: live_ok_grow)
next
  case (step_release t s cid ifn re s' xs)
  have "held s' k = held s k" if "(k, c, i) \<in> set xs" "\<not> releases cid ifn (owner c i)" for k c i
  proof -
    have "held s k = Some (owner c i)" using that assms(2) step_release(1) by (auto simp: live_ok_def)
    with Alloc_Release_spec [OF step_release(5,3)] step_release(4) that show ?thesis
      by (cases "held s' k") (auto simp: map_le_def, metis domI option.inject)
  qed
  with assms(2) step_release(1,2) show ?thesis by (auto intro!: live_ok_filter)
qed

lemma ipam_run_ok:
  "(ipam_step ops inv owner releases)\<^sup>*\<^sup>* x y \<Longrightarrow> live_ok owner (held (fst x)) (snd x) \<Longrightarrow>
   live_ok owner (held (fst y)) (snd y)"
  by (induction rule: rtranclp_induct) (auto intro: ipam_step_ok)

end

end
