(* ===== verification/EtcdIpam.thy ===== *)
theory EtcdIpam
  imports EtcdStore AllocTrace
begin

text \<open>
  The allocator over the etcd store. The properties hold for every client that satisfies
  \<open>etcd_kv\<close>, those on the exact result for every client that moreover does not fail
  (\<open>reliable_kv\<close>). \<open>s0\<close> is the state of etcd when the lock was obtained. The witnesses run the code on
  the in-memory client.
\<close>

text \<open>What \<open>LastReservedIP\<close> gives, as a function of the content.\<close>

definition last_address :: "(string \<Rightarrow> string option) \<Rightarrow> string \<Rightarrow> string \<Rightarrow> ip" where
  "last_address m p rid = (case m (last_key p rid) of None \<Rightarrow> [] | Some t \<Rightarrow> ParseIP t)"

lemma etcd_nodeI: "etcd_kv c I view \<Longrightarrow> map_order ord \<Longrightarrow> etcd_node c I view ord"
  by (simp add: etcd_node_def go_maps_def)

lemma reliable_nodeI: "reliable_kv c I view \<Longrightarrow> map_order ord \<Longrightarrow> reliable_node c I view ord"
  by (simp add: reliable_node_def etcd_nodeI reliable_kv_def)

context etcd_node
begin

lemma store_laws:
  "backend_store (etcd_ops ord c st) inv (\<lambda>s. etcd_held (view s) (keyPrefix st)) etcd_owner etcd_releases"
  by (rule node.backend_store_axioms)

lemma GetByID_nothing:
  "inv s \<Longrightarrow> CHR ''/'' \<in> set (keyPrefix st) \<Longrightarrow> fst (GetByID (etcd_ops ord c st) cid ifn s) = []"
  using etcd_GetByID_nothing [OF _ order] by (simp add: etcd_ops_def Let_def)

lemma GetByID_view:
  "inv s \<Longrightarrow> inv (snd (GetByID (etcd_ops ord c st) cid ifn s)) \<and>
   view (snd (GetByID (etcd_ops ord c st) cid ifn s)) = view s"
  using etcd_GetByID_frame [of s ord "keyPrefix st" cid ifn]
  by (cases "etcd_GetByID ord c (keyPrefix st) cid ifn s") (simp add: etcd_ops_def Let_def)

end

context reliable_node
begin

lemma reliable_laws:
  "reliable_store (etcd_ops ord c st) inv (\<lambda>s. etcd_held (view s) (keyPrefix st)) etcd_owner etcd_releases"
  by (rule rnode.reliable_store_axioms)

lemma prev_reserved_etcd:
  assumes "inv s"
  shows "prev_reserved (etcd_ops ord c st) rid s = last_address (view s) (keyPrefix st) rid"
proof -
  obtain kvs s' where g: "kvGet c (last_key (keyPrefix st) rid) s = (Inr kvs, s')"
    using get_total [OF assms] by blast
  from get_ok [OF assms g] g show ?thesis
    by (auto simp: prev_reserved_def last_address_def etcd_ops_def Let_def etcd_LastReservedIP_def
        kv_get_def split: option.splits)
qed

lemma Get_first_free:
  assumes "inv s" "s0 = snd (mutexLock c s)" "CHR ''/'' \<in> set (keyPrefix st)"
    "wf_set (Rangeset a)" "Rangeset a \<noteq> []"
    "prev = last_address (view s0) (keyPrefix st) (rangeID a)" "resumes_ok (Rangeset a) prev"
    "free = first_free (Rangeset a) (etcd_held (view s0) (keyPrefix st)) (try_order (Rangeset a) prev)"
  shows "\<exists>s'. Get (etcd_ops ord c st) a cid ifn [] s =
      Some (Returns (Get_result a (Inr (map_option (yield (Rangeset a)) free))), s') \<and> inv s' \<and>
      etcd_held (view s') (keyPrefix st) =
        take_free (etcd_owner cid ifn) free (etcd_held (view s0) (keyPrefix st))"
proof -
  have l: "snd (Lock (etcd_ops ord c st) s) = s0" using assms(2) by (simp add: etcd_ops_def Let_def)
  have i0: "inv s0" using node.lock_frame [OF assms(1)] l by simp
  note g = GetByID_view [OF i0]
  show ?thesis
    using rnode.Get_exact [OF assms(1,4,5) l [symmetric], of cid ifn prev free]
      GetByID_nothing [OF i0 assms(3)] prev_reserved_etcd g assms(6,7,8) by simp
qed

lemma Get_hangs:
  assumes "inv s" "s0 = snd (mutexLock c s)" "CHR ''/'' \<in> set (keyPrefix st)" "wf_set (Rangeset a)"
    "wraps_away (Rangeset a) (last_address (view s0) (keyPrefix st) (rangeID a))"
    "all_held (Rangeset a) (etcd_held (view s0) (keyPrefix st))"
  shows "Get (etcd_ops ord c st) a cid ifn [] s = None"
proof -
  have l: "snd (Lock (etcd_ops ord c st) s) = s0" using assms(2) by (simp add: etcd_ops_def Let_def)
  have i0: "inv s0" using node.lock_frame [OF assms(1)] l by simp
  note g = GetByID_view [OF i0]
  show ?thesis
    using rnode.Get_never_returns [OF assms(1,4) l [symmetric], of cid ifn]
      GetByID_nothing [OF i0 assms(3)] prev_reserved_etcd g assms(5,6) by simp
qed

end

lemma find_last:
  assumes "find P xs = Some y" "distinct xs" "y = last xs" "x \<in> set xs" "x \<noteq> y"
  shows "\<not> P x"
proof -
  obtain i where i: "i < length xs" "P (xs ! i)" "y = xs ! i" "\<forall>j<i. \<not> P (xs ! j)"
    using assms(1) by (auto simp: find_Some_iff)
  have "xs ! i = xs ! (length xs - 1)" using assms(3) i(1,3) by (metis last_conv_nth length_greater_0_conv list.size(3) not_less_zero)
  then have "i = length xs - 1" using assms(2) i(1) by (simp add: nth_eq_iff_index_eq)
  moreover obtain j where j: "j < length xs" "x = xs ! j" using assms(4) by (auto simp: in_set_conv_nth)
  moreover have "j \<noteq> i" using assms(5) i(3) j(2) by auto
  ultimately have "j < i" by linarith
  with i(4) j(2) show ?thesis by simp
qed

lemma last_rotate_Suc: "k < length xs \<Longrightarrow> last (rotate (Suc k) xs) = xs ! k"
proof -
  assume k: "k < length xs"
  then have "rotate (Suc k) xs ! (length xs - 1) = xs ! ((Suc k + (length xs - 1)) mod length xs)"
    by (intro nth_rotate) linarith
  moreover have "Suc k + (length xs - 1) = k + length xs" using k by linarith
  then have "(Suc k + (length xs - 1)) mod length xs = k" using k by simp
  ultimately show ?thesis using k by (subst last_conv_nth) (auto simp del: rotate_Suc)
qed

lemma try_order_again:
  assumes "wf_set rs" "length rs = 1" "proper_ip L prev" "RangeSet_Contains rs prev"
    "first_free rs h (try_order rs prev) = Some y" "snd y = prev" "x \<in> set (ring rs)" "x \<noteq> y" "\<not> is_gateway rs x"
  shows "h (ip_String (snd x)) \<noteq> None"
proof -
  have z: "fst v = 0" if "v \<in> set (ring rs)" for v
    using that assms(2) in_ring [of "fst v" "snd v" rs] by simp
  from assms(4) obtain m where "find_range 0 rs prev = Some m"
    using find_range_None [of 0 rs prev] by (auto simp: RangeSet_Contains_iff)
  then obtain k where k: "ring_pos rs prev = Some k" by (auto simp: ring_pos_def)
  from assms(1) k obtain m' where m': "k < length (ring rs)" "ring rs ! k = (m', canon prev)"
    by (rule ring_pos_Some)
  have y: "y \<in> set (ring rs)"
    using assms(5) set_try_order [of rs prev] by (auto simp: first_free_def find_Some_iff dest: nth_mem)
  have "fst y = m'" using z [OF y] z [of "ring rs ! k"] m' by (simp add: nth_mem [OF m'(1), unfolded m'(2)])
  then have "y = ring rs ! k" using m'(2) assms(3,6) by (cases y) simp
  then have "y = last (try_order rs prev)"
    using last_rotate_Suc [OF m'(1)] k by (simp add: try_order_def del: rotate_Suc)
  from find_last [OF assms(5) [unfolded first_free_def] distinct_try_order [OF assms(1)] this, of x]
  show ?thesis using assms(7,8,9) by (simp add: set_try_order)
qed

lemma find_range_canon: "find_range k rs (canon a) = find_range k rs a"
  by (induction k rs a rule: find_range.induct) (simp_all add: Range_Contains_canon)

lemma ring_pos_canon: "ring_pos rs (canon a) = ring_pos rs a"
  by (simp add: ring_pos_def find_range_canon split: option.split)

lemma try_order_canon: "try_order rs (canon a) = try_order rs a"
  by (simp add: try_order_def ring_pos_canon)

lemma canon_ParseIP_String: "proper_ip 4 a \<Longrightarrow> canon (ParseIP (ip_String a)) = a"
  using To4_ParseIP_String [of a] proper_ip_To4 [of 4 a] proper_ip_nonempty [of 4 a]
  by (simp add: canon_def)

section \<open>Sample allocators\<close>

abbreviation memory_ops :: "gomap store_ops" where
  "memory_ops \<equiv> etcd_ops (\<lambda>m. m) memory_client sample_store"

definition sample_allocator :: ip_allocator where
  "sample_allocator = NewIPAllocator [sample_range'] 0"

text \<open>Two ranges of two addresses each.\<close>

definition pair_set :: rangeset where
  "pair_set =
     [sample_range'\<lparr>RangeStart := [10, 0, 0, 2], RangeEnd := [10, 0, 0, 3]\<rparr>,
      sample_range'\<lparr>RangeStart := [10, 0, 0, 4], RangeEnd := [10, 0, 0, 5]\<rparr>]"

definition pair_allocator :: ip_allocator where
  "pair_allocator = NewIPAllocator pair_set 0"

lemma memory_laws:
  "etcd_kv memory_client memory_inv map_of" "reliable_kv memory_client memory_inv map_of"
  "map_order (\<lambda>m. m)"
  using memory.etcd_kv_axioms memory.reliable_kv_axioms insertion_order.order by auto

lemma sample_wf:
  "wf_set (Rangeset sample_allocator)" "Rangeset sample_allocator \<noteq> []"
  "wf_set (Rangeset pair_allocator)" "Rangeset pair_allocator \<noteq> []"
  "CHR ''/'' \<in> set (keyPrefix sample_store)"
  by code_simp+

definition sample_content :: gomap where
  "sample_content =
     [(''/n/a/10.0.0.2'', ''c1'' @ LineBreak @ ''eth0''), (''/n/a/last_reserved_ip.0'', ''10.0.0.2'')]"

definition sample_config :: ip_config where
  "sample_config = \<lparr>Version = ''4'', Interface = None,
     Address = \<lparr>IP = [10, 0, 0, 2], Mask = [255, 255, 255, 0]\<rparr>, CfgGateway = [10, 0, 0, 1]\<rparr>"

lemma sample_Get:
  "Get memory_ops sample_allocator ''c1'' ''eth0'' [] [] = Some (Returns (Inr sample_config), sample_content)"
  by code_simp

section \<open>Properties\<close>



text \<open>
  C21. When \<open>Get\<close> fails it does not panic, and either nothing was reserved or exactly one address that
  was free is left held for the container (as when the first write of a reservation was done and the second failed).
\<close>

theorem etcd_Get_failure:
  assumes "etcd_kv c I view" "map_order ord" "I s" "wf_set (Rangeset a)" "Rangeset a \<noteq> []"
    "Get (etcd_ops ord c st) a cid ifn req s = Some (out, s')" "\<forall>conf. out \<noteq> Returns (Inr conf)"
    "h0 = etcd_held (view (snd (mutexLock c s))) (keyPrefix st)"
  shows "out \<noteq> Panics \<and> (etcd_held (view s') (keyPrefix st) = h0 \<or>
    (\<exists>k. h0 k = None \<and> etcd_held (view s') (keyPrefix st) = h0(k \<mapsto> etcd_owner cid ifn)))"
  using backend_store.Get_spec [OF etcd_node.store_laws [OF etcd_nodeI [OF assms(1,2)]] assms(6,3,4,5)] assms(7,8)
  by (auto simp: get_spec_def etcd_ops_def Let_def split: outcome.splits sum.splits)

text \<open>A client whose write of the last reserved address fails, as etcd's does when it is overloaded.\<close>

definition flaky_client :: "gomap kv_client" where
  "flaky_client = memory_client\<lparr>kvPut :=
     \<lambda>k v m. if k = ''/n/a/last_reserved_ip.0'' then (Some (ErrNew ''etcdserver: request timed out''), m)
             else (None, AList.update k v m)\<rparr>"

interpretation flaky: etcd_kv flaky_client memory_inv map_of
  by unfold_locales
    (auto simp: flaky_client_def memory_client_def memory_inv_def update_conv' delete_conv' distinct_update distinct_delete
      map_of_filter_prefix distinct_filter_fst fun_eq_iff split: option.splits if_splits)

theorem etcd_Get_failure_witness:
  "\<exists>e s' k. Get (etcd_ops (\<lambda>m. m) flaky_client sample_store) sample_allocator ''c1'' ''eth0'' [] [] =
      Some (Returns (Inl e), s') \<and> etcd_held (map_of []) ''/n/a'' k = None \<and>
    etcd_held (map_of s') ''/n/a'' = (etcd_held (map_of []) ''/n/a'')(k \<mapsto> etcd_owner ''c1'' ''eth0'')"
proof -
  let ?s = "[(''/n/a/10.0.0.2'', etcd_owner ''c1'' ''eth0'')]"
  have e: "keyPrefix sample_store = ''/n/a''" "memory_inv []" "snd (mutexLock flaky_client []) = []"
    "etcd_held (map_of ?s) ''/n/a'' ''10.0.0.2'' \<noteq> None" "etcd_held (map_of []) ''/n/a'' ''10.0.0.2'' = None"
    by code_simp+
  have g: "Get (etcd_ops (\<lambda>m. m) flaky_client sample_store) sample_allocator ''c1'' ''eth0'' [] [] =
      Some (Returns (Inl (ErrNew ''etcdserver: request timed out'')), ?s)"
    by code_simp
  have "etcd_held (map_of ?s) ''/n/a'' \<noteq> etcd_held (map_of []) ''/n/a''" using e(4,5) by auto
  with etcd_Get_failure [OF flaky.etcd_kv_axioms memory_laws(3) e(2) sample_wf(1,2) g _ refl] e(1,3) g
  show ?thesis by auto
qed

text \<open>
  C3. In every history of calls of \<open>Get\<close> and \<open>Release\<close> of any allocators on one network, each call with
  the lock, an address that was handed out and not released since is held for its container, and no
  address is handed out twice.
\<close>

theorem etcd_history_unique:
  assumes "etcd_kv c I view" "map_order ord"
    "(ipam_step (etcd_ops ord c st) I etcd_owner etcd_releases)\<^sup>*\<^sup>* (s, []) (s', xs)"
  shows "distinct (map fst xs) \<and>
    list_all (\<lambda>(k, cid, ifn). etcd_held (view s') (keyPrefix st) k = Some (etcd_owner cid ifn)) xs"
proof -
  have "live_ok etcd_owner (etcd_held (view s') (keyPrefix st)) xs"
    using backend_store.ipam_run_ok [OF etcd_node.store_laws [OF etcd_nodeI [OF assms(1,2)]] assms(3)]
    by (simp add: live_ok_def)
  then show ?thesis by (simp add: live_ok_def list_all_iff)
qed

theorem etcd_history_unique_witness:
  "etcd_held (map_of sample_content) (keyPrefix sample_store) ''10.0.0.2'' = Some (etcd_owner ''c1'' ''eth0'')"
proof -
  have e: "memory_inv []" "[] = snd (Lock memory_ops [])"
    "ip_String (IP (Address sample_config)) = ''10.0.0.2''" by code_simp+
  have "ipam_step memory_ops memory_inv etcd_owner etcd_releases ([], [])
      (sample_content, [(''10.0.0.2'', ''c1'', ''eth0'')])"
    using step_get [of memory_inv, OF e(1) sample_wf(1,2) e(2) sample_Get, of etcd_owner etcd_releases "[]"] e(3) by simp
  then have "(ipam_step memory_ops memory_inv etcd_owner etcd_releases)\<^sup>*\<^sup>* ([], [])
      (sample_content, [(''10.0.0.2'', ''c1'', ''eth0'')])" by (rule r_into_rtranclp)
  from etcd_history_unique [OF memory_laws(1,3) this] show ?thesis by simp
qed

text \<open>
  C6. When etcd does not fail, the ranges are well formed, the key prefix has a slash as the default one has, and the last reserved address is not the last one of its range in a set of several
  ranges (\<open>resumes_ok\<close>; the iterator then goes on in another range and may run forever), a call of \<open>Get\<close> without a
  requested address returns: it gives the first address in round-robin order, behind the last reserved one, that is
  neither a gateway nor held, and the error "no IP addresses available" when there is none.
\<close>

theorem etcd_Get_first_free:
  assumes "reliable_kv c I view" "map_order ord" "I s" "s0 = snd (mutexLock c s)"
    "CHR ''/'' \<in> set (keyPrefix st)" "wf_set (Rangeset a)" "Rangeset a \<noteq> []"
    "prev = last_address (view s0) (keyPrefix st) (rangeID a)" "resumes_ok (Rangeset a) prev"
    "free = first_free (Rangeset a) (etcd_held (view s0) (keyPrefix st)) (try_order (Rangeset a) prev)"
  shows "\<exists>s'. Get (etcd_ops ord c st) a cid ifn [] s =
      Some (Returns (Get_result a (Inr (map_option (yield (Rangeset a)) free))), s') \<and>
    etcd_held (view s') (keyPrefix st) =
      take_free (etcd_owner cid ifn) free (etcd_held (view s0) (keyPrefix st))"
  using reliable_node.Get_first_free [OF reliable_nodeI [OF assms(1,2)] assms(3-10), of cid ifn] by blast

theorem etcd_Get_first_free_witness:
  "\<exists>s'. Get memory_ops pair_allocator ''c2'' ''eth0'' [] sample_content =
      Some (Returns (Get_result pair_allocator (Inr (Some (yield pair_set (0, [10, 0, 0, 3]))))), s') \<and>
    etcd_held (map_of s') (keyPrefix sample_store) =
      (etcd_held (map_of sample_content) (keyPrefix sample_store))(''10.0.0.3'' \<mapsto> etcd_owner ''c2'' ''eth0'')"
proof -
  let ?prev = "last_address (map_of sample_content) (keyPrefix sample_store) (rangeID pair_allocator)"
  have e: "memory_inv sample_content" "sample_content = snd (mutexLock memory_client sample_content)"
    "resumes_ok (Rangeset pair_allocator) ?prev"
    "Some (0, [10, 0, 0, 3]) = first_free (Rangeset pair_allocator)
       (etcd_held (map_of sample_content) (keyPrefix sample_store)) (try_order (Rangeset pair_allocator) ?prev)"
    "Rangeset pair_allocator = pair_set" "ip_String [10, 0, 0, 3] = ''10.0.0.3''"
    by code_simp+
  show ?thesis
    using etcd_Get_first_free [OF memory_laws(2,3) e(1,2) sample_wf(5,3,4) refl e(3,4), of "''c2''" "''eth0''"] e(5,6)
    by simp
qed

text \<open>
  C11. When etcd does not fail, a call of \<open>Get\<close> with a requested address returns: it reserves exactly
  that address when it lies in the range set, is not the gateway of its range and is not held; in
  every other case it gives an error and reserves nothing.
\<close>

theorem etcd_Get_requested:
  assumes "reliable_kv c I view" "map_order ord" "I s" "req \<noteq> []"
    "h0 = etcd_held (view (snd (mutexLock c s))) (keyPrefix st)"
  shows "\<exists>r s'. Get (etcd_ops ord c st) a cid ifn req s = Some (Returns r, s') \<and>
    (case RangeFor (Rangeset a) req of
       Inl e \<Rightarrow> isl r \<and> etcd_held (view s') (keyPrefix st) = h0
     | Inr rg \<Rightarrow>
         if ip_Equal (canon req) (Gateway rg) \<or> h0 (ip_String (canon req)) \<noteq> None
         then isl r \<and> etcd_held (view s') (keyPrefix st) = h0
         else r = Get_result a (Inr (Some (\<lparr>IP = canon req, Mask = Mask (Subnet rg)\<rparr>, Gateway rg))) \<and>
           etcd_held (view s') (keyPrefix st) = h0(ip_String (canon req) \<mapsto> etcd_owner cid ifn))"
proof -
  have l: "snd (mutexLock c s) = snd (Lock (etcd_ops ord c st) s)" by (simp add: etcd_ops_def Let_def)
  show ?thesis
    using reliable_store.Get_requested_decides
      [OF reliable_node.reliable_laws [OF reliable_nodeI [OF assms(1,2)]] assms(3,4) l, of a cid ifn] assms(5)
    by blast
qed

theorem etcd_Get_requested_witness:
  "\<exists>r s'. Get memory_ops pair_allocator ''c2'' ''eth0'' [10, 0, 0, 4] sample_content = Some (Returns r, s') \<and>
    etcd_held (map_of s') (keyPrefix sample_store) =
      (etcd_held (map_of sample_content) (keyPrefix sample_store))(''10.0.0.4'' \<mapsto> etcd_owner ''c2'' ''eth0'')"
proof -
  have e: "memory_inv sample_content" "snd (mutexLock memory_client sample_content) = sample_content"
    "RangeFor (Rangeset pair_allocator) [10, 0, 0, 4] = Inr (pair_set ! 1)"
    "\<not> ip_Equal (canon [10, 0, 0, 4]) (Gateway (pair_set ! 1))"
    "etcd_held (map_of sample_content) (keyPrefix sample_store) ''10.0.0.4'' = None"
    "ip_String (canon [10, 0, 0, 4]) = ''10.0.0.4''" by code_simp+
  have "[10, 0, 0, 4] \<noteq> ([] :: ip)" by simp
  from etcd_Get_requested [OF memory_laws(2,3) e(1) this refl, of sample_store pair_allocator "''c2''" "''eth0''"] e
  show ?thesis by auto
qed

text \<open>
  C22. \<open>Get\<close> can run forever, with the lock held: in a set of several ranges, when the last reserved
  address is the end of its range and every address of the set is held, \<open>Next\<close> never reports the
  end, because its stop test expects the start address in the range it started from.
\<close>

theorem etcd_Get_never_returns:
  assumes "reliable_kv c I view" "map_order ord" "I s" "s0 = snd (mutexLock c s)"
    "CHR ''/'' \<in> set (keyPrefix st)" "wf_set (Rangeset a)"
    "wraps_away (Rangeset a) (last_address (view s0) (keyPrefix st) (rangeID a))"
    "all_held (Rangeset a) (etcd_held (view s0) (keyPrefix st))"
  shows "Get (etcd_ops ord c st) a cid ifn [] s = None"
  using reliable_node.Get_hangs [OF reliable_nodeI [OF assms(1,2)] assms(3-8)] .

definition full_content :: gomap where
  "full_content =
     [(''/n/a/10.0.0.2'', ''c1'' @ LineBreak), (''/n/a/10.0.0.3'', ''c2'' @ LineBreak),
      (''/n/a/10.0.0.4'', ''c3'' @ LineBreak), (''/n/a/10.0.0.5'', ''c4'' @ LineBreak),
      (''/n/a/last_reserved_ip.0'', ''10.0.0.5'')]"

theorem etcd_Get_never_returns_witness:
  "Get memory_ops pair_allocator ''c5'' ''eth0'' [] full_content = None"
proof -
  have e: "memory_inv full_content" "full_content = snd (mutexLock memory_client full_content)"
    "wraps_away (Rangeset pair_allocator)
       (last_address (map_of full_content) (keyPrefix sample_store) (rangeID pair_allocator))"
    "all_held (Rangeset pair_allocator) (etcd_held (map_of full_content) (keyPrefix sample_store))"
    by code_simp+
  show ?thesis by (rule etcd_Get_never_returns [OF memory_laws(2,3) e(1,2) sample_wf(5,3) e(3,4)])
qed

text \<open>
  C23. The round robin of \<open>GetIter\<close>: over a single range, when the last reserved address is \<open>prev\<close>,
  \<open>Get\<close> returns \<open>prev\<close> again only when every other address of the range is held or the gateway, so a
  container that crashes in a loop does not see its address before the whole range was run through.
\<close>

theorem etcd_Get_round_robin:
  assumes "reliable_kv c I view" "map_order ord" "I s" "s0 = snd (mutexLock c s)"
    "CHR ''/'' \<in> set (keyPrefix st)" "wf_set (Rangeset a)" "length (Rangeset a) = 1"
    "view s0 (last_key (keyPrefix st) (rangeID a)) = Some (ip_String prev)" "proper_ip 4 prev"
    "RangeSet_Contains (Rangeset a) prev"
    "Get (etcd_ops ord c st) a cid ifn [] s = Some (Returns (Inr conf), s')" "IP (Address conf) = prev"
    "RangeSet_Contains (Rangeset a) other" "proper_ip 4 other" "other \<noteq> prev"
    "\<not> ip_Equal other (CfgGateway conf)"
  shows "etcd_held (view s0) (keyPrefix st) (ip_String other) \<noteq> None"
proof -
  obtain r where rs: "Rangeset a = [r]" using assms(7) by (auto simp: length_Suc_conv)
  let ?h = "etcd_held (view s0) (keyPrefix st)"
  let ?last = "last_address (view s0) (keyPrefix st) (rangeID a)"
  let ?free = "first_free (Rangeset a) ?h (try_order (Rangeset a) ?last)"
  have last: "canon ?last = prev"
    using assms(8,9) by (simp add: last_address_def canon_ParseIP_String)
  then have order: "try_order (Rangeset a) ?last = try_order (Rangeset a) prev"
    by (metis try_order_canon)
  obtain t where "Get (etcd_ops ord c st) a cid ifn [] s =
      Some (Returns (Get_result a (Inr (map_option (yield (Rangeset a)) ?free))), t)"
    using reliable_node.Get_first_free [OF reliable_nodeI [OF assms(1,2)] assms(3-6) _ refl
        resumes_ok_single refl, of cid ifn] assms(6,7) rs by auto
  then have g: "Get_result a (Inr (map_option (yield (Rangeset a)) ?free)) = Inr conf"
    using assms(11) by simp
  then obtain y where y: "?free = Some y" by (cases ?free) (auto simp: Get_result_def)
  with g have conf: "IP (Address conf) = snd y" "CfgGateway conf = Gateway (Rangeset a ! fst y)"
    by (auto simp: Get_result_def yield_def)
  obtain L where wf: "wf_range L r" using assms(6) rs wf_set_in by fastforce
  have mem: "(0, other) \<in> set (ring (Rangeset a))"
    using assms(13,14) rs wf
    by (auto simp: in_ring set_range_addrs RangeSet_Contains_iff Range_Contains_wf)
  have "y \<in> set (ring (Rangeset a))"
    using y set_try_order [of "Rangeset a" ?last] by (auto simp: first_free_def find_Some_iff dest: nth_mem)
  then have "fst y = 0" using rs in_ring [of "fst y" "snd y" "Rangeset a"] by simp
  then have gw: "\<not> is_gateway (Rangeset a) (0, other)" using conf(2) assms(16) by (simp add: is_gateway_def)
  have "(0, other) \<noteq> y" using conf(1) assms(12,15) by auto
  then show ?thesis
    using try_order_again [OF assms(6,7,9,10) y [unfolded order] _ mem _ gw] conf(1) assms(12) by simp
qed

definition single_allocator :: ip_allocator where
  "single_allocator = NewIPAllocator [pair_set ! 0] 0"

definition round_content :: gomap where
  "round_content =
     [(''/n/a/10.0.0.3'', ''c9'' @ LineBreak), (''/n/a/last_reserved_ip.0'', ''10.0.0.2'')]"

theorem etcd_Get_round_robin_witness:
  "etcd_held (map_of round_content) (keyPrefix sample_store) (ip_String [10, 0, 0, 3]) \<noteq> None"
proof -
  let ?conf = "\<lparr>Version = ''4'', Interface = None,
     Address = \<lparr>IP = [10, 0, 0, 2], Mask = [255, 255, 255, 0]\<rparr>, CfgGateway = [10, 0, 0, 1]\<rparr>"
  let ?s' = "[(''/n/a/10.0.0.3'', ''c9'' @ LineBreak), (''/n/a/last_reserved_ip.0'', ''10.0.0.2''),
      (''/n/a/10.0.0.2'', ''c1'' @ LineBreak @ ''eth0'')]"
  have e: "memory_inv round_content" "round_content = snd (mutexLock memory_client round_content)"
    "wf_set (Rangeset single_allocator)" "length (Rangeset single_allocator) = 1"
    "map_of round_content (last_key (keyPrefix sample_store) (rangeID single_allocator)) =
       Some (ip_String [10, 0, 0, 2])"
    "proper_ip 4 [10, 0, 0, 2]" "RangeSet_Contains (Rangeset single_allocator) [10, 0, 0, 2]"
    "Get memory_ops single_allocator ''c1'' ''eth0'' [] round_content = Some (Returns (Inr ?conf), ?s')"
    "IP (Address ?conf) = [10, 0, 0, 2]"
    "RangeSet_Contains (Rangeset single_allocator) [10, 0, 0, 3]" "proper_ip 4 [10, 0, 0, 3]"
    "[10, 0, 0, 3] \<noteq> ([10, 0, 0, 2] :: ip)" "\<not> ip_Equal [10, 0, 0, 3] (CfgGateway ?conf)"
    by code_simp+
  show ?thesis
    by (rule etcd_Get_round_robin [OF memory_laws(2,3) e(1,2) sample_wf(5) e(3-13)])
qed

text \<open>
  C25. The check for a duplicate allocation never fires: \<open>GetByID\<close> parses whole keys, which contain
  slashes, as addresses, so it returns nothing. A second \<open>Get\<close> for the same container and interface
  reserves a second address whenever one is free.
\<close>

theorem etcd_Get_twice:
  assumes "reliable_kv c I view" "map_order ord" "I s" "s0 = snd (mutexLock c s)"
    "CHR ''/'' \<in> set (keyPrefix st)" "wf_set (Rangeset a)" "length (Rangeset a) = 1"
    "etcd_held (view s0) (keyPrefix st) (ip_String mine) = Some (etcd_owner cid ifn)"
    "(0, free) \<in> set (ring (Rangeset a))" "\<not> is_gateway (Rangeset a) (0, free)"
    "etcd_held (view s0) (keyPrefix st) (ip_String free) = None"
  shows "fst (etcd_GetByID ord c (keyPrefix st) cid ifn s0) = [] \<and>
    (\<exists>conf s'. Get (etcd_ops ord c st) a cid ifn [] s = Some (Returns (Inr conf), s') \<and>
       ip_String (IP (Address conf)) \<noteq> ip_String mine \<and>
       etcd_held (view s') (keyPrefix st) (ip_String mine) = Some (etcd_owner cid ifn) \<and>
       etcd_held (view s') (keyPrefix st) (ip_String (IP (Address conf))) = Some (etcd_owner cid ifn))"
proof -
  let ?h = "etcd_held (view s0) (keyPrefix st)"
  let ?last = "last_address (view s0) (keyPrefix st) (rangeID a)"
  let ?f = "first_free (Rangeset a) ?h (try_order (Rangeset a) ?last)"
  note node = reliable_nodeI [OF assms(1,2)]
  have ne: "Rangeset a \<noteq> []" using assms(7) by auto
  have kv: "etcd_kv c I view" using assms(1) by (simp add: reliable_kv_def)
  have "I s0" using etcd_kv.mutex_lock [OF kv assms(3)] assms(4) by (metis prod.collapse)
  then have none: "fst (etcd_GetByID ord c (keyPrefix st) cid ifn s0) = []"
    using etcd_node.GetByID_nothing [OF etcd_nodeI [OF kv assms(2)], of s0 st cid ifn] assms(5)
    by (simp add: etcd_ops_def Let_def)
  obtain y where y: "?f = Some y" "?h (ip_String (snd y)) = None"
  proof (cases ?f)
    case None
    then have "\<not> (\<not> is_gateway (Rangeset a) (0, free) \<and> ?h (ip_String (snd (0 :: nat, free))) = None)"
      using assms(9) unfolding first_free_def find_None_iff set_try_order by blast
    with assms(10,11) show ?thesis by simp
  next
    case (Some y)
    then have "?h (ip_String (snd y)) = None" unfolding first_free_def find_Some_iff by blast
    with Some that show ?thesis by blast
  qed
  have diff: "ip_String (snd y) \<noteq> ip_String mine" using y(2) assms(8) by (metis option.distinct(1))
  obtain s' where s': "Get (etcd_ops ord c st) a cid ifn [] s =
      Some (Returns (Get_result a (Inr (Some (yield (Rangeset a) y)))), s')"
    "etcd_held (view s') (keyPrefix st) = ?h(ip_String (snd y) \<mapsto> etcd_owner cid ifn)"
    using reliable_node.Get_first_free [OF node assms(3-6) ne refl resumes_ok_single [OF assms(7,6)] refl,
        of cid ifn] y(1) by auto
  obtain conf where conf: "Get_result a (Inr (Some (yield (Rangeset a) y))) = Inr conf"
    "IP (Address conf) = snd y" by (simp add: Get_result_def yield_def)
  have "etcd_held (view s') (keyPrefix st) (ip_String mine) = Some (etcd_owner cid ifn)"
    "etcd_held (view s') (keyPrefix st) (ip_String (snd y)) = Some (etcd_owner cid ifn)"
    unfolding s'(2) using diff assms(8) by (simp_all del: etcd_held_ip)
  with diff s'(1) conf show ?thesis
    by (intro conjI exI [of _ conf] exI [of _ s']) (rule none, simp_all)
qed

theorem etcd_Get_twice_witness:
  "\<exists>conf s'. Get memory_ops single_allocator ''c1'' ''eth0'' [] sample_content = Some (Returns (Inr conf), s') \<and>
     etcd_held (map_of s') (keyPrefix sample_store) ''10.0.0.2'' = Some (etcd_owner ''c1'' ''eth0'') \<and>
     etcd_held (map_of s') (keyPrefix sample_store) (ip_String (IP (Address conf))) =
       Some (etcd_owner ''c1'' ''eth0'')"
proof -
  have e: "memory_inv sample_content" "sample_content = snd (mutexLock memory_client sample_content)"
    "wf_set (Rangeset single_allocator)" "length (Rangeset single_allocator) = 1"
    "etcd_held (map_of sample_content) (keyPrefix sample_store) (ip_String [10, 0, 0, 2]) =
       Some (etcd_owner ''c1'' ''eth0'')"
    "(0, [10, 0, 0, 3]) \<in> set (ring (Rangeset single_allocator))"
    "\<not> is_gateway (Rangeset single_allocator) (0, [10, 0, 0, 3])"
    "etcd_held (map_of sample_content) (keyPrefix sample_store) (ip_String [10, 0, 0, 3]) = None"
    "ip_String [10, 0, 0, 2] = ''10.0.0.2''"
    by code_simp+
  show ?thesis
    using etcd_Get_twice [OF memory_laws(2,3) e(1,2) sample_wf(5) e(3-8)] e(9) by auto
qed

text \<open>
  C24. \<open>Release\<close> frees at most one key of the network, one whose value is the container's, and it
  reports success without freeing anything only when no key has such a value; of two addresses of
  one container and interface, one call keeps one.
\<close>

theorem etcd_Release_one:
  assumes "etcd_kv c I view" "map_order ord" "I s" "v0 = view (snd (mutexLock c s))"
    "Alloc_Release (etcd_ops ord c st) cid ifn s = (e, s')"
  shows "(view s' = v0 \<and> (e = None \<longrightarrow> (\<forall>k v. HasPrefix k (keyPrefix st) \<and> v0 k = Some v \<longrightarrow> \<not> etcd_releases cid ifn v))) \<or>
    (\<exists>k v. HasPrefix k (keyPrefix st) \<and> v0 k = Some v \<and> etcd_releases cid ifn v \<and> view s' = v0(k := None))"
proof -
  let ?s0 = "snd (mutexLock c s)"
  have i0: "I ?s0" using etcd_kv.mutex_lock [OF assms(1,3)] by (metis prod.collapse)
  obtain e1 s1 where r: "etcd_ReleaseByID ord c (keyPrefix st) cid ifn ?s0 = (e1, s1)"
    by (cases "etcd_ReleaseByID ord c (keyPrefix st) cid ifn ?s0")
  have eq: "e = e1" "s' = snd (mutexUnlock c s1)"
    using assms(5) r by (simp_all add: Alloc_Release_def etcd_ops_def Let_def)
  note law = etcd_kv.etcd_ReleaseByID_cases [OF assms(1) i0 assms(2) r]
  have "view s' = view s1" using etcd_kv.mutex_unlock [OF assms(1) law(1)] eq(2) by (metis prod.collapse)
  with law(2,3) eq(1) assms(4) show ?thesis by metis
qed

definition two_content :: gomap where
  "two_content =
     [(''/n/a/10.0.0.2'', ''c1'' @ LineBreak @ ''eth0''), (''/n/a/10.0.0.3'', ''c1'' @ LineBreak @ ''eth0'')]"

theorem etcd_Release_one_witness:
  "Alloc_Release memory_ops ''c1'' ''eth0'' two_content = (None, tl two_content) \<and>
   (\<exists>k v. map_of two_content k = Some v \<and> etcd_releases ''c1'' ''eth0'' v \<and>
     map_of (tl two_content) = (map_of two_content)(k := None))"
proof -
  have r: "Alloc_Release memory_ops ''c1'' ''eth0'' two_content = (None, tl two_content)"
    and i: "memory_inv two_content" and l: "snd (mutexLock memory_client two_content) = two_content"
    and d: "map_of (tl two_content) ''/n/a/10.0.0.2'' \<noteq> map_of two_content ''/n/a/10.0.0.2''"
    by code_simp+
  from etcd_Release_one [OF memory_laws(1,3) i refl r] l d r show ?thesis by auto
qed

text \<open>
  \<open>Release\<close> reads the keys by the prefix of the network without a slash behind it, so it can
  remove an address of another network whose name starts with the name of this one.
\<close>

definition other_store :: etcd_store where
  "other_store = sample_store\<lparr>keyPrefix := ''/n/ab''\<rparr>"

theorem etcd_Release_other_network:
  "\<exists>m m'. etcd_held (map_of m) (keyPrefix other_store) ''10.1.0.7'' = Some (etcd_owner ''c1'' ''eth0'') \<and>
     Alloc_Release (etcd_ops (\<lambda>m. m) memory_client sample_store) ''c1'' ''eth0'' m = (None, m') \<and>
     etcd_held (map_of m') (keyPrefix other_store) ''10.1.0.7'' = None"
proof -
  have "etcd_held (map_of [(''/n/ab/10.1.0.7'', ''c1'' @ LineBreak @ ''eth0'')]) (keyPrefix other_store) ''10.1.0.7'' =
      Some (etcd_owner ''c1'' ''eth0'')"
    "Alloc_Release (etcd_ops (\<lambda>m. m) memory_client sample_store) ''c1'' ''eth0''
      [(''/n/ab/10.1.0.7'', ''c1'' @ LineBreak @ ''eth0'')] = (None, [])"
    "etcd_held (map_of []) (keyPrefix other_store) ''10.1.0.7'' = None"
    by code_simp+
  then show ?thesis by blast
qed

text \<open>
  C26. \<open>LastReservedIP\<close> reads back what \<open>Reserve\<close> stored: after a successful reservation of an IPv4
  address it returns that address, in the form that \<open>ParseIP\<close> gives it.
\<close>

theorem etcd_last_reserved_roundtrip:
  assumes "etcd_kv c I view" "I s" "proper_ip 4 a"
    "etcd_Reserve c p cid ifn a rid s = (Inr True, s')"
    "etcd_LastReservedIP c p rid s' = (Inr x, s'')"
  shows "canon x = a \<and> view s'' = view s'"
proof -
  note r = etcd_kv.etcd_Reserve_cases(1,2) [OF assms(1,2,4)]
  have "x = ParseIP (ip_String a)"
    using assms(5) etcd_kv.kv_get_ok [OF assms(1) r(1)] r(2)
    by (fastforce simp: etcd_LastReservedIP_def split: prod.splits sum.splits)
  then show ?thesis
    using canon_ParseIP_String [OF assms(3)] etcd_kv.etcd_LastReservedIP_frame [OF assms(1) r(1) assms(5)] by simp
qed

theorem etcd_last_reserved_roundtrip_witness:
  "canon (last_address (map_of sample_content) ''/n/a'' ''0'') = [10, 0, 0, 2]"
proof -
  have e: "memory_inv []" "proper_ip 4 [10, 0, 0, 2]"
    "etcd_Reserve memory_client ''/n/a'' ''c1'' ''eth0'' [10, 0, 0, 2] ''0'' [] = (Inr True, sample_content)"
    "etcd_LastReservedIP memory_client ''/n/a'' ''0'' sample_content =
       (Inr (last_address (map_of sample_content) ''/n/a'' ''0''), sample_content)"
    by code_simp+
  from etcd_last_reserved_roundtrip [OF memory_laws(1) e] show ?thesis by simp
qed

text \<open>
  Closing a store panics: \<open>NewEtcdLock\<close> drops its session, and \<open>Close\<close> uses it.
\<close>

lemma etcd_Close_panics:
  assumes "New newClient newSession network key = Inr st"
  shows "Close (etcd_ops ord c st) s = (Panics, s)"
  using assms
  by (auto simp: New_def NewEtcdLock_def etcd_ops_def lock_Close_def Let_def split: sum.splits)

theorem etcd_Close_panics_witness:
  "Close (etcd_ops (\<lambda>m. m) memory_client
     \<lparr>etcdLock = \<lparr>mutexKey = EtcdLockKey, sess = None\<rparr>, keyPrefix = ''/kubeovsio/networks/ovs''\<rparr>) [] = (Panics, [])"
proof (rule etcd_Close_panics)
  show "New (Inr ()) (Inr ()) ''ovs'' [] =
      Inr \<lparr>etcdLock = \<lparr>mutexKey = EtcdLockKey, sess = None\<rparr>, keyPrefix = ''/kubeovsio/networks/ovs''\<rparr>"
    by code_simp
qed

end
