(* ===== verification/IpamConfig.thy ===== *)
theory IpamConfig
  imports AllocRange
begin

text \<open>
  The configuration of the allocators: \<open>LoadIPAMConfig\<close> (\<open>allocator/config.go\<close>) and the argument string
  parser \<open>LoadArgs\<close> of the CNI types it calls, for the argument struct \<open>IPAMEnvArgs\<close>. The result of
  \<open>json.Unmarshal\<close> is the parameter \<open>unmarshalled\<close>: an error or the filled structs. An address that is nil
  is the empty list. The lemmas state what an accepted configuration satisfies.
\<close>

record route =
  Dst :: ipnet
  GW :: ip

record ipam_conf =
  OldRange :: "range option"
  ConfName :: string
  ConfType :: string
  Routes :: "route list"
  PrefixKey :: string
  EtcdServer :: "string list"
  ResolvConfFile :: string
  Ranges :: "rangeset list"
  IPArgs :: "ip list"

record net_conf =
  NetName :: string
  CNIVersion :: string
  IPAM :: "ipam_conf option"
  IPRanges :: "rangeset list"
  Args :: "ip list option"

section \<open>The argument string\<close>

record env_args =
  IgnoreUnknown :: bool
  EnvIP :: ip

definition lower :: "char \<Rightarrow> char" where
  "lower c = (if 65 \<le> code c \<and> code c \<le> 90 then char_of (code c + 32) else c)"

definition UnmarshalBool :: "string \<Rightarrow> go_error + bool" where
  "UnmarshalBool data =
     (let s = map lower data in
      if s = ''1'' \<or> s = ''true'' then Inr True
      else if s = ''0'' \<or> s = ''false'' then Inr False
      else Inl (Errorf ''Boolean unmarshal error: invalid input %s'' [s]))"

definition UnmarshalIP :: "string \<Rightarrow> go_error + ip" where
  "UnmarshalIP s =
     (if s = [] then Inr []
      else let x = ParseIP s in
        if x = [] then Inl (Errorf ''invalid IP address: %s'' [s]) else Inr x)"

definition load_pair :: "string \<Rightarrow> string list \<Rightarrow> env_args \<Rightarrow> go_error + (string list \<times> env_args)" where
  "load_pair pair unknown e =
     (case Split pair CHR ''='' of
        [k, v] \<Rightarrow>
          if k = ''IgnoreUnknown''
          then (case UnmarshalBool v of
                  Inl err \<Rightarrow> Inl (Wrapf ''ARGS: error parsing value of pair %q: %v)'' [pair] err)
                | Inr b \<Rightarrow> Inr (unknown, e\<lparr>IgnoreUnknown := b\<rparr>))
          else if k = ''IP''
          then (case UnmarshalIP v of
                  Inl err \<Rightarrow> Inl (Wrapf ''ARGS: error parsing value of pair %q: %v)'' [pair] err)
                | Inr a \<Rightarrow> Inr (unknown, e\<lparr>EnvIP := a\<rparr>))
          else if k = ''CommonArgs''
          then Inl (Errorf ''ARGS: cannot unmarshal into field '%s' - type '%s' does not implement encoding.TextUnmarshaler'' [k])
          else Inr (unknown @ [pair], e)
      | _ \<Rightarrow> Inl (Errorf ''ARGS: invalid pair %q'' [pair]))"

fun load_pairs :: "string list \<Rightarrow> string list \<Rightarrow> env_args \<Rightarrow> go_error + (string list \<times> env_args)" where
  "load_pairs [] unknown e = Inr (unknown, e)"
| "load_pairs (p # ps) unknown e =
     (case load_pair p unknown e of
        Inl err \<Rightarrow> Inl err
      | Inr (unknown', e') \<Rightarrow> load_pairs ps unknown' e')"

definition LoadArgs :: "string \<Rightarrow> env_args \<Rightarrow> go_error + env_args" where
  "LoadArgs args container =
     (if args = [] then Inr container
      else case load_pairs (Split args CHR '';'') [] container of
             Inl err \<Rightarrow> Inl err
           | Inr (unknownArgs, e) \<Rightarrow>
               if unknownArgs \<noteq> [] \<and> \<not> IgnoreUnknown e
               then Inl (Errorf ''ARGS: unknown args %q'' unknownArgs)
               else Inr e)"

section \<open>LoadIPAMConfig\<close>

definition SupportedVersions :: "string list" where
  "SupportedVersions = [[], ''0.1.0'', ''0.2.0'']"

text \<open>The requested addresses: from the argument string, then from the top-level arguments.\<close>

definition requested_args :: "net_conf \<Rightarrow> string \<Rightarrow> ip list \<Rightarrow> go_error + ip list" where
  "requested_args n envArgs ipArgs =
     (case (if envArgs = [] then Inr ipArgs
            else case LoadArgs envArgs \<lparr>IgnoreUnknown = False, EnvIP = []\<rparr> of
                   Inl err \<Rightarrow> Inl err
                 | Inr e \<Rightarrow> Inr (if EnvIP e \<noteq> [] then [EnvIP e] else ipArgs)) of
        Inl err \<Rightarrow> Inl err
      | Inr ips \<Rightarrow>
          Inr (case Args n of None \<Rightarrow> ips | Some extra \<Rightarrow> if extra = [] then ips else ips @ extra))"

fun canonicalize_all :: "ip list \<Rightarrow> go_error + ip list" where
  "canonicalize_all [] = Inr []"
| "canonicalize_all (a # as) =
     (case canonicalizeIP a of
        Inl err \<Rightarrow> Inl (Wrapf ''cannot understand ip: %v'' [] err)
      | Inr a' \<Rightarrow>
          (case canonicalize_all as of
             Inl err \<Rightarrow> Inl err
           | Inr as' \<Rightarrow> Inr (a' # as')))"

definition all_ranges :: "net_conf \<Rightarrow> ipam_conf \<Rightarrow> rangeset list" where
  "all_ranges n c =
     (let rs = (case OldRange c of
                  None \<Rightarrow> Ranges c
                | Some r \<Rightarrow> if IP (Subnet r) \<noteq> [] then [r] # Ranges c else Ranges c)
      in if IPRanges n \<noteq> [] then IPRanges n @ rs else rs)"

fun canonicalize_sets :: "nat \<Rightarrow> rangeset list \<Rightarrow> go_error + rangeset list" where
  "canonicalize_sets i [] = Inr []"
| "canonicalize_sets i (s # ss) =
     (case RangeSet_Canonicalize s of
        Inl err \<Rightarrow> Inl (Wrapf ''invalid range set %d: %s'' [itoa i] err)
      | Inr s' \<Rightarrow>
          (case canonicalize_sets (Suc i) ss of
             Inl err \<Rightarrow> Inl err
           | Inr ss' \<Rightarrow> Inr (s' # ss')))"

definition starts_v4 :: "rangeset \<Rightarrow> bool" where
  "starts_v4 s \<longleftrightarrow> To4 (RangeStart (hd s)) \<noteq> []"

fun sets_overlap_with :: "rangeset \<Rightarrow> nat \<Rightarrow> nat \<Rightarrow> rangeset list \<Rightarrow> go_error option" where
  "sets_overlap_with p1 i k [] = None"
| "sets_overlap_with p1 i k (p2 # ps) =
     (if RangeSet_Overlaps p1 p2
      then Some (Errorf ''range set %d overlaps with %d'' [itoa i, itoa k])
      else sets_overlap_with p1 i (Suc k) ps)"

fun sets_overlap :: "nat \<Rightarrow> rangeset list \<Rightarrow> go_error option" where
  "sets_overlap i [] = None"
| "sets_overlap i (p1 # ps) =
     (case sets_overlap_with p1 i (Suc i) ps of
        Some err \<Rightarrow> Some err
      | None \<Rightarrow> sets_overlap (Suc i) ps)"

definition LoadIPAMConfig :: "go_error + net_conf \<Rightarrow> string \<Rightarrow> go_error + (ipam_conf \<times> string)" where
  "LoadIPAMConfig unmarshalled envArgs =
     (case unmarshalled of
        Inl err \<Rightarrow> Inl err
      | Inr n \<Rightarrow>
        (case IPAM n of
           None \<Rightarrow> Inl (Errorf ''IPAM config missing 'ipam' key'' [])
         | Some c \<Rightarrow>
           (case requested_args n envArgs (IPArgs c) of
              Inl err \<Rightarrow> Inl err
            | Inr ips \<Rightarrow>
              (case canonicalize_all ips of
                 Inl err \<Rightarrow> Inl err
               | Inr ips' \<Rightarrow>
                 if all_ranges n c = [] then Inl (Errorf ''no IP ranges specified'' [])
                 else
                   (case canonicalize_sets 0 (all_ranges n c) of
                      Inl err \<Rightarrow> Inl err
                    | Inr rss \<Rightarrow>
                      (let numV4 = length (filter starts_v4 rss);
                           numV6 = length (filter (\<lambda>s. \<not> starts_v4 s) rss) in
                       if (numV4 > 1 \<or> numV6 > 1) \<and> CNIVersion n \<in> set SupportedVersions
                       then Inl (Errorf ''CNI version %v does not support more than 1 address per family''
                              [CNIVersion n])
                       else case sets_overlap 0 rss of
                              Some err \<Rightarrow> Inl err
                            | None \<Rightarrow>
                                Inr (c\<lparr>OldRange := None, Ranges := rss, IPArgs := ips', ConfName := NetName n\<rparr>,
                                     CNIVersion n)))))))"

section \<open>What an accepted configuration satisfies\<close>

lemma canonicalize_all_ok:
  "canonicalize_all as = Inr as' \<Longrightarrow> as' = map canon as \<and> (\<forall>a \<in> set as. canon a \<noteq> [])"
proof (induction as arbitrary: as')
  case (Cons a as)
  then show ?case by (auto simp: canonicalizeIP_canon split: sum.splits if_splits)
qed simp

lemma canonicalize_sets_ok:
  "canonicalize_sets i ss = Inr ss' \<Longrightarrow> list_all2 (\<lambda>s s'. RangeSet_Canonicalize s = Inr s') ss ss'"
  by (induction i ss arbitrary: ss' rule: canonicalize_sets.induct) (auto split: sum.splits)

lemma sets_overlap_with_None:
  "sets_overlap_with p1 i k ps = None \<longleftrightarrow> (\<forall>p2 \<in> set ps. \<not> RangeSet_Overlaps p1 p2)"
  by (induction p1 i k ps rule: sets_overlap_with.induct) auto

lemma sets_overlap_None:
  "sets_overlap i ps = None \<longleftrightarrow> sorted_wrt (\<lambda>p1 p2. \<not> RangeSet_Overlaps p1 p2) ps"
proof (induction i ps rule: sets_overlap.induct)
  case (2 i p1 ps)
  then show ?case using sets_overlap_with_None [of p1 i "Suc i" ps]
    by (cases "sets_overlap_with p1 i (Suc i) ps") auto
qed simp

lemma LoadIPAMConfig_ok:
  assumes "LoadIPAMConfig (Inr n) envArgs = Inr (c', v)"
  shows "v = CNIVersion n \<and> ConfName c' = NetName n \<and> OldRange c' = None \<and>
    (\<exists>c. IPAM n = Some c \<and> list_all2 (\<lambda>s s'. RangeSet_Canonicalize s = Inr s') (all_ranges n c) (Ranges c') \<and>
       all_ranges n c \<noteq> [] \<and> PrefixKey c' = PrefixKey c) \<and>
    (\<forall>a \<in> set (IPArgs c'). a \<noteq> [] \<and> canon a = a) \<and>
    sorted_wrt (\<lambda>p1 p2. \<not> RangeSet_Overlaps p1 p2) (Ranges c')"
proof -
  obtain c ips ips' rss where c: "IPAM n = Some c" "requested_args n envArgs (IPArgs c) = Inr ips"
    "canonicalize_all ips = Inr ips'" "all_ranges n c \<noteq> []" "canonicalize_sets 0 (all_ranges n c) = Inr rss"
    "sets_overlap 0 rss = None" "v = CNIVersion n"
    "c' = c\<lparr>OldRange := None, Ranges := rss, IPArgs := ips', ConfName := NetName n\<rparr>"
    using assms by (auto simp: LoadIPAMConfig_def Let_def split: option.splits sum.splits if_splits)
  have "(\<forall>a \<in> set ips'. a \<noteq> [] \<and> canon a = a)"
    using canonicalize_all_ok [OF c(3)] by auto
  with c canonicalize_sets_ok [OF c(5)] sets_overlap_None [of 0 rss] show ?thesis by simp
qed

lemma Split_one: "sep \<notin> set s \<Longrightarrow> Split (s @ sep # u) sep = s # Split u sep"
  by (induction s) auto

lemma Split_Join:
  "ws \<noteq> [] \<Longrightarrow> list_all (\<lambda>w. sep \<notin> set w) ws \<Longrightarrow> Split (Join ws [sep]) sep = ws"
proof (induction ws "[sep]" rule: Join.induct)
  case (2 w)
  then show ?case by (simp add: Split_no_sep)
next
  case (3 w v vs)
  then show ?case using Split_one [of sep w "Join (v # vs) [sep]"] by simp
qed simp

lemma Join_nonempty: "w \<noteq> [] \<Longrightarrow> Join (ws @ w # vs) sep \<noteq> []"
proof (induction ws)
  case Nil
  then show ?case by (cases vs) simp_all
next
  case (Cons v ws)
  then show ?case by (cases "ws @ w # vs") auto
qed

lemma ip_String_no_seps: "CHR '';'' \<notin> set (ip_String a)" "CHR ''='' \<notin> set (ip_String a)"
  using ip_String_chars [of "CHR '';''" a] ip_String_chars [of "CHR ''=''" a]
  by (auto simp: text_char_def addr_char_def hex_val_def code_def)

text \<open>The last pair with the key \<open>IP\<close> sets the address.\<close>

lemma load_pair_ip:
  assumes "proper_ip 4 a"
  shows "load_pair (''IP='' @ ip_String a) unknown e = Inr (unknown, e\<lparr>EnvIP := ParseIP (ip_String a)\<rparr>)"
proof -
  have p: "ParseIP (ip_String a) \<noteq> []"
    using To4_ParseIP_String [of a] assms by (auto simp: proper_ip_To4)
  then have ne: "ip_String a \<noteq> []" by auto
  have "Split (''IP'' @ CHR ''='' # ip_String a) CHR ''='' = ''IP'' # [ip_String a]"
    using Split_no_sep [OF ip_String_no_seps(2)] by (subst Split_one) simp_all
  then show ?thesis using p ne by (simp add: load_pair_def UnmarshalIP_def)
qed

lemma load_pair_other:
  "load_pair pair unknown e = Inr (unknown', e') \<Longrightarrow> hd (Split pair CHR ''='') \<noteq> ''IP'' \<Longrightarrow> EnvIP e' = EnvIP e"
  by (auto simp: load_pair_def split: list.splits if_splits sum.splits)

lemma load_pairs_others:
  "load_pairs pairs unknown e = Inr (unknown', e') \<Longrightarrow> list_all (\<lambda>pair. hd (Split pair CHR ''='') \<noteq> ''IP'') pairs \<Longrightarrow>
    EnvIP e' = EnvIP e"
proof (induction pairs unknown e rule: load_pairs.induct)
  case (2 p ps unknown e)
  then obtain u1 e1 where p: "load_pair p unknown e = Inr (u1, e1)" "load_pairs ps u1 e1 = Inr (unknown', e')"
    by (auto split: sum.splits)
  with 2 load_pair_other [OF p(1)] show ?case by simp
qed simp

lemma load_pairs_append:
  "load_pairs (ps @ qs) unknown e =
    (case load_pairs ps unknown e of Inl err \<Rightarrow> Inl err | Inr (unknown', e') \<Rightarrow> load_pairs qs unknown' e')"
  by (induction ps unknown e rule: load_pairs.induct) (auto split: sum.split prod.split)

lemma LoadArgs_ip:
  assumes "LoadArgs (Join (before @ (''IP='' @ ip_String a) # behind) [CHR '';'']) e = Inr e'" "proper_ip 4 a"
    "list_all (\<lambda>pair. CHR '';'' \<notin> set pair) (before @ behind)"
    "list_all (\<lambda>pair. hd (Split pair CHR ''='') \<noteq> ''IP'') behind"
  shows "EnvIP e' = ParseIP (ip_String a)"
proof -
  let ?pairs = "before @ (''IP='' @ ip_String a) # behind"
  have "list_all (\<lambda>pair. CHR '';'' \<notin> set pair) ?pairs" using assms(3) ip_String_no_seps(1) by simp
  then have split: "Split (Join ?pairs [CHR '';'']) CHR '';'' = ?pairs" by (intro Split_Join) simp_all
  then have "Join ?pairs [CHR '';''] \<noteq> []" by (intro Join_nonempty) simp
  with assms(1) split obtain unknown where "load_pairs ?pairs [] e = Inr (unknown, e')"
    by (auto simp: LoadArgs_def split: sum.splits if_splits)
  then obtain u1 e1 where "load_pairs ((''IP='' @ ip_String a) # behind) u1 e1 = Inr (unknown, e')"
    unfolding load_pairs_append by (auto split: sum.splits)
  then have "load_pairs behind u1 (e1\<lparr>EnvIP := ParseIP (ip_String a)\<rparr>) = Inr (unknown, e')"
    using load_pair_ip [OF assms(2)] by simp
  from load_pairs_others [OF this assms(4)] show ?thesis by simp
qed

section \<open>Properties\<close>

text \<open>
  C31. An accepted configuration has at least one range set, each the canonical form of a given one,
  no two sets that are well formed share an address, and every requested address is canonical.
\<close>

theorem LoadIPAMConfig_sound:
  assumes "LoadIPAMConfig (Inr n) envArgs = Inr (c, v)" "list_all wf_set (Ranges c)"
  shows "Ranges c \<noteq> [] \<and> list_all (\<lambda>s. \<exists>s0. RangeSet_Canonicalize s0 = Inr s) (Ranges c) \<and>
    sorted_wrt (\<lambda>s p. \<not> (\<exists>a. RangeSet_Contains s a \<and> RangeSet_Contains p a)) (Ranges c) \<and>
    list_all (\<lambda>a. a \<noteq> [] \<and> canon a = a) (IPArgs c)"
proof -
  note ok = LoadIPAMConfig_ok [OF assms(1)]
  obtain c0 where c0: "list_all2 (\<lambda>s s'. RangeSet_Canonicalize s = Inr s') (all_ranges n c0) (Ranges c)"
    "all_ranges n c0 \<noteq> []" using ok by blast
  have "Ranges c \<noteq> []" using c0 by auto
  moreover have "list_all (\<lambda>s. \<exists>s0. RangeSet_Canonicalize s0 = Inr s) (Ranges c)"
    using c0(1) by (fastforce simp: list_all_iff list_all2_conv_all_nth in_set_conv_nth)
  moreover have "sorted_wrt (\<lambda>s p. \<not> (\<exists>a. RangeSet_Contains s a \<and> RangeSet_Contains p a)) (Ranges c)"
  proof (rule sorted_wrt_mono_rel [rotated])
    show "sorted_wrt (\<lambda>p1 p2. \<not> RangeSet_Overlaps p1 p2) (Ranges c)" using ok by blast
    show "\<not> (\<exists>a. RangeSet_Contains s a \<and> RangeSet_Contains p a)"
      if "s \<in> set (Ranges c)" "p \<in> set (Ranges c)" "\<not> RangeSet_Overlaps s p" for s p
      using that assms(2) RangeSet_Overlaps_common [of s p] by (auto simp: list_all_iff)
  qed
  ultimately show ?thesis using ok by (simp add: list_all_iff)
qed

definition sample_conf :: ipam_conf where
  "sample_conf = \<lparr>OldRange = Some sample_range, ConfName = [], ConfType = ''host-local'', Routes = [],
     PrefixKey = [], EtcdServer = [''127.0.0.1:2379''], ResolvConfFile = [], Ranges = [], IPArgs = []\<rparr>"

definition sample_net :: net_conf where
  "sample_net = \<lparr>NetName = ''kubeovs-net'', CNIVersion = ''0.3.1'', IPAM = Some sample_conf,
     IPRanges = [], Args = None\<rparr>"

definition loaded_conf :: ipam_conf where
  "loaded_conf = sample_conf\<lparr>OldRange := None, Ranges := [[sample_range']], IPArgs := [[10, 0, 0, 7]],
     ConfName := ''kubeovs-net''\<rparr>"

lemma LoadIPAMConfig_sample:
  "LoadIPAMConfig (Inr sample_net) ''IP=10.0.0.7'' = Inr (loaded_conf, ''0.3.1'')"
  by code_simp

theorem LoadIPAMConfig_sound_witness:
  "list_all (\<lambda>s. \<exists>s0. RangeSet_Canonicalize s0 = Inr s) [[sample_range']] \<and>
   list_all (\<lambda>a. a \<noteq> [] \<and> canon a = a) (IPArgs loaded_conf)"
proof -
  have "list_all wf_set (Ranges loaded_conf)" by code_simp
  from LoadIPAMConfig_sound [OF LoadIPAMConfig_sample this] show ?thesis by (simp add: loaded_conf_def)
qed

text \<open>
  C32. When a configuration is accepted with an argument string of pairs among which \<open>IP=\<close> and an address is the last
  one with that key, that address, its text parsed back to the same four bytes, is the first requested address of the
  configuration, whatever addresses the configuration itself had; behind it come the top-level addresses, if there are any.
\<close>

theorem LoadIPAMConfig_env_ip:
  assumes "LoadIPAMConfig (Inr n) (Join (before @ (''IP='' @ ip_String a) # behind) [CHR '';'']) = Inr (c, v)" "proper_ip 4 a"
    "list_all (\<lambda>pair. CHR '';'' \<notin> set pair) (before @ behind)"
    "list_all (\<lambda>pair. hd (Split pair CHR ''='') \<noteq> ''IP'') behind"
  shows "IPArgs c = a # map canon (case Args n of None \<Rightarrow> [] | Some extra \<Rightarrow> extra)"
proof -
  let ?args = "Join (before @ (''IP='' @ ip_String a) # behind) [CHR '';'']"
  have p: "ParseIP (ip_String a) \<noteq> []" "canon (ParseIP (ip_String a)) = a"
    using To4_ParseIP_String [of a] assms(2) by (auto simp: proper_ip_To4 canon_def)
  obtain ips0 ips where ips: "requested_args n ?args ips0 = Inr ips" "canonicalize_all ips = Inr (IPArgs c)"
    using assms(1) by (auto simp: LoadIPAMConfig_def Let_def split: option.splits sum.splits if_splits)
  have "?args \<noteq> []" by (rule Join_nonempty) simp
  then obtain e where "LoadArgs ?args \<lparr>IgnoreUnknown = False, EnvIP = []\<rparr> = Inr e"
    "ips = (case Args n of None \<Rightarrow> if EnvIP e \<noteq> [] then [EnvIP e] else ips0
      | Some extra \<Rightarrow> if extra = [] then (if EnvIP e \<noteq> [] then [EnvIP e] else ips0)
          else (if EnvIP e \<noteq> [] then [EnvIP e] else ips0) @ extra)"
    using ips(1) by (auto simp: requested_args_def split: sum.splits)
  with LoadArgs_ip [OF _ assms(2-4)] p have "ips = ParseIP (ip_String a) # (case Args n of None \<Rightarrow> [] | Some extra \<Rightarrow> extra)"
    by (auto split: option.splits)
  with canonicalize_all_ok [OF ips(2)] p show ?thesis by simp
qed

theorem LoadIPAMConfig_env_ip_witness:
  "\<exists>c v. LoadIPAMConfig (Inr (sample_net\<lparr>Args := Some [[10, 0, 0, 9]]\<rparr>))
       ''IgnoreUnknown=1;IP=10.0.0.7;K8S_POD_NAME=web'' = Inr (c, v) \<and>
     IPArgs c = [[10, 0, 0, 7], [10, 0, 0, 9]]"
proof -
  let ?n = "sample_net\<lparr>Args := Some [[10, 0, 0, 9]]\<rparr>"
  have e: "Join ([''IgnoreUnknown=1''] @ (''IP='' @ ip_String [10, 0, 0, 7]) # [''K8S_POD_NAME=web'']) [CHR '';''] =
      ''IgnoreUnknown=1;IP=10.0.0.7;K8S_POD_NAME=web''" "proper_ip 4 [10, 0, 0, 7]"
    "list_all (\<lambda>pair. CHR '';'' \<notin> set pair) ([''IgnoreUnknown=1''] @ [''K8S_POD_NAME=web''])"
    "list_all (\<lambda>pair. hd (Split pair CHR ''='') \<noteq> ''IP'') [''K8S_POD_NAME=web'']"
    by code_simp+
  have "case LoadIPAMConfig (Inr ?n) ''IgnoreUnknown=1;IP=10.0.0.7;K8S_POD_NAME=web'' of Inl err \<Rightarrow> False | Inr p \<Rightarrow> True"
    by code_simp
  then obtain c v where l: "LoadIPAMConfig (Inr ?n) ''IgnoreUnknown=1;IP=10.0.0.7;K8S_POD_NAME=web'' = Inr (c, v)"
    by (auto split: sum.splits)
  have "IPArgs c = [10, 0, 0, 7] # map canon [[10, 0, 0, 9]]"
    using LoadIPAMConfig_env_ip [OF l [folded e(1)] e(2-4)] by simp
  moreover have "canon [10, 0, 0, 9] = [10, 0, 0, 9]" by code_simp
  ultimately show ?thesis using l by simp
qed

end
