(* ===== verification/ResolvConf.thy ===== *)
theory ResolvConf
  imports GoStrings
begin

text \<open>
  \<open>parseResolvConf\<close> (\<open>pkg/daemon/util.go\<close>): a file is its text and the error that reading it ends
  with, if any. \<open>bufio.Scanner\<close> gives the lines without line ends and fails on a line of 64 KiB. The main
  lemma: parsing the text of a DNS configuration gives it back.
\<close>

record dns =
  Nameservers :: "string list"
  Domain :: string
  Search :: "string list"
  Options :: "string list"

definition empty_dns :: dns where
  "empty_dns = \<lparr>Nameservers = [], Domain = [], Search = [], Options = []\<rparr>"

section \<open>Lines\<close>

definition newline :: char where
  "newline = CHR 0x0A"

definition drop_cr :: "string \<Rightarrow> string" where
  "drop_cr w = (if w \<noteq> [] \<and> last w = CHR 0x0D then butlast w else w)"

definition scan_lines :: "string \<Rightarrow> string list" where
  "scan_lines s =
     (let ls = Split s newline
      in map drop_cr (if last ls = [] then butlast ls else ls))"

definition max_token :: nat where
  "max_token = 64 * 1024"

definition line_too_long :: "string \<Rightarrow> bool" where
  "line_too_long s = list_ex (\<lambda>l. max_token \<le> length l) (Split s newline)"

definition ErrTooLong :: go_error where
  "ErrTooLong = ErrNew ''bufio.Scanner: token too long''"

section \<open>The parser\<close>

definition parse_fields :: "dns \<Rightarrow> string list \<Rightarrow> dns" where
  "parse_fields d flds =
     (if length flds < 2 then d
      else if flds ! 0 = ''nameserver'' then d\<lparr>Nameservers := Nameservers d @ [flds ! 1]\<rparr>
      else if flds ! 0 = ''domain'' then d\<lparr>Domain := flds ! 1\<rparr>
      else if flds ! 0 = ''search'' then d\<lparr>Search := Search d @ drop 1 flds\<rparr>
      else if flds ! 0 = ''options'' then d\<lparr>Options := Options d @ drop 1 flds\<rparr>
      else d)"

definition parse_line :: "string \<Rightarrow> dns \<Rightarrow> dns" where
  "parse_line text d =
     (let line = TrimSpace text in
      if line = [] \<or> hd line = CHR ''#'' \<or> hd line = CHR '';'' then d
      else parse_fields d (Fields line))"

definition parseResolvConf :: "go_error + (string \<times> go_error option) \<Rightarrow> go_error + dns" where
  "parseResolvConf opened =
     (case opened of
        Inl e \<Rightarrow> Inl e
      | Inr (content, readErr) \<Rightarrow>
          if line_too_long content then Inl ErrTooLong
          else case readErr of
                 Some e \<Rightarrow> Inl e
               | None \<Rightarrow> Inr (fold parse_line (scan_lines content) empty_dns))"

section \<open>The round trip\<close>

definition word_ok :: "string \<Rightarrow> bool" where
  "word_ok w \<longleftrightarrow> w \<noteq> [] \<and> list_all (\<lambda>c. \<not> is_space c) w"

definition dns_ok :: "dns \<Rightarrow> bool" where
  "dns_ok d \<longleftrightarrow> list_all word_ok (Nameservers d) \<and> (Domain d = [] \<or> word_ok (Domain d)) \<and>
     list_all word_ok (Search d) \<and> list_all word_ok (Options d)"

definition dns_lines :: "dns \<Rightarrow> string list list" where
  "dns_lines d =
     map (\<lambda>n. [''nameserver'', n]) (Nameservers d) @
     (if Domain d = [] then [] else [[''domain'', Domain d]]) @
     (if Search d = [] then [] else [''search'' # Search d]) @
     (if Options d = [] then [] else [''options'' # Options d])"

definition render :: "dns \<Rightarrow> string" where
  "render d = concat (map (\<lambda>ws. Join ws '' '' @ [newline]) (dns_lines d))"

lemma is_space_blank: "is_space CHR '' ''" "is_space newline" "is_space CHR 0x0D"
  by (simp_all add: is_space_def code_def newline_def)

lemma fields_from_word:
  "list_all (\<lambda>c. \<not> is_space c) w \<Longrightarrow> fields_from acc (w @ s) = fields_from (rev w @ acc) s"
  by (induction w arbitrary: acc) simp_all

lemma Fields_Join: "list_all word_ok ws \<Longrightarrow> Fields (Join ws '' '') = ws"
proof (induction ws "'' ''" rule: Join.induct)
  case 1
  then show ?case by (simp add: Fields_def)
next
  case (2 w)
  then show ?case using fields_from_word [of w "[]" "[]"] by (simp add: Fields_def word_ok_def)
next
  case (3 w v vs)
  then show ?case by (simp add: Fields_def word_ok_def fields_from_word is_space_blank(1))
qed

lemma hd_Join: "w \<noteq> [] \<Longrightarrow> hd (Join (w # ws) '' '') = hd w \<and> Join (w # ws) '' '' \<noteq> []"
  by (cases ws) simp_all

lemma last_Join: "ws \<noteq> [] \<Longrightarrow> list_all word_ok ws \<Longrightarrow>
   last (Join ws '' '') = last (last ws) \<and> Join ws '' '' \<noteq> []"
proof (induction ws "'' ''" rule: Join.induct)
  case (3 w v vs)
  then show ?case by (simp add: word_ok_def)
qed (simp_all add: word_ok_def)

lemma word_ok_ends: "word_ok w \<Longrightarrow> \<not> is_space (hd w) \<and> \<not> is_space (last w)"
  by (cases w) (auto simp: word_ok_def list_all_iff)

lemma parse_line_Join:
  assumes "list_all word_ok (w # ws)" "hd w \<noteq> CHR ''#''" "hd w \<noteq> CHR '';''"
  shows "parse_line (drop_cr (Join (w # ws) '' '')) d = parse_fields d (w # ws)"
proof -
  let ?l = "Join (w # ws) '' ''"
  have "word_ok w" "word_ok (last (w # ws))"
    using assms(1) by (simp, metis list_all_iff last_in_set list.distinct(1))
  then have w: "w \<noteq> []" "\<not> is_space (hd w)" "\<not> is_space (last (last (w # ws)))"
    using word_ok_ends by (auto simp: word_ok_def)
  have l: "?l \<noteq> []" "hd ?l = hd w" "last ?l = last (last (w # ws))"
    using hd_Join [OF w(1), of ws] last_Join [OF _ assms(1)] by auto
  have "drop_cr ?l = ?l" using l w(3) is_space_blank(3) by (auto simp: drop_cr_def)
  moreover have "TrimSpace ?l = ?l" using l w by (intro TrimSpace_id) simp_all
  ultimately show ?thesis using l(1,2) assms Fields_Join [OF assms(1)] by (simp add: parse_line_def)
qed

lemma Split_lines:
  "list_all (\<lambda>l. newline \<notin> set l) ls \<Longrightarrow>
   Split (concat (map (\<lambda>l. l @ [newline]) ls)) newline = ls @ [[]]"
proof (induction ls)
  case (Cons l ls)
  have "Split (l @ newline # s) newline = l # Split s newline" if "newline \<notin> set l" for s
    using that by (induction l) auto
  with Cons show ?case by simp
qed simp

lemma Join_no_newline: "list_all word_ok ws \<Longrightarrow> newline \<notin> set (Join ws '' '')"
proof (induction ws "'' ''" rule: Join.induct)
  case (3 w v vs)
  then show ?case using is_space_blank(2) by (auto simp: word_ok_def list_all_iff newline_def)
qed (use is_space_blank(2) in \<open>auto simp: word_ok_def list_all_iff\<close>)

lemma parse_fields_simps:
  "parse_fields d [''nameserver'', n] = d\<lparr>Nameservers := Nameservers d @ [n]\<rparr>"
  "parse_fields d [''domain'', n] = d\<lparr>Domain := n\<rparr>"
  "xs \<noteq> [] \<Longrightarrow> parse_fields d (''search'' # xs) = d\<lparr>Search := Search d @ xs\<rparr>"
  "xs \<noteq> [] \<Longrightarrow> parse_fields d (''options'' # xs) = d\<lparr>Options := Options d @ xs\<rparr>"
  by (cases xs; simp add: parse_fields_def)+

lemma fold_nameservers:
  "fold (\<lambda>ws d. parse_fields d ws) (map (\<lambda>n. [''nameserver'', n]) ns) d =
   d\<lparr>Nameservers := Nameservers d @ ns\<rparr>"
  by (induction ns arbitrary: d) (simp_all add: parse_fields_simps)

lemma parse_dns_lines: "fold (\<lambda>ws d. parse_fields d ws) (dns_lines d) empty_dns = d"
  by (cases d) (simp add: dns_lines_def fold_nameservers empty_dns_def parse_fields_simps)

lemma dns_lines_ok:
  assumes "dns_ok d" "ws \<in> set (dns_lines d)"
  shows "list_all word_ok ws \<and> ws \<noteq> [] \<and> hd (hd ws) \<noteq> CHR ''#'' \<and> hd (hd ws) \<noteq> CHR '';''"
proof -
  have k: "word_ok ''nameserver''" "word_ok ''domain''" "word_ok ''search''" "word_ok ''options''"
    by code_simp+
  show ?thesis
    using assms k by (auto simp: dns_ok_def dns_lines_def list_all_iff split: if_splits)
qed

lemma parse_render:
  assumes "dns_ok d" "list_all (\<lambda>ws. length (Join ws '' '') < max_token) (dns_lines d)"
  shows "parseResolvConf (Inr (render d, None)) = Inr d"
proof -
  let ?ls = "map (\<lambda>ws. Join ws '' '') (dns_lines d)"
  have nl: "list_all (\<lambda>l. newline \<notin> set l) ?ls"
    unfolding list_all_iff using dns_lines_ok [OF assms(1)] Join_no_newline by auto
  have r: "render d = concat (map (\<lambda>l. l @ [newline]) ?ls)" by (simp add: render_def comp_def)
  have split: "Split (render d) newline = ?ls @ [[]]" unfolding r by (rule Split_lines [OF nl])
  have short: "\<not> line_too_long (render d)"
    using assms(2) by (auto simp: line_too_long_def split list_ex_iff list_all_iff max_token_def)
  have step: "fold parse_line (map (\<lambda>ws. drop_cr (Join ws '' '')) xs) e = fold (\<lambda>ws d. parse_fields d ws) xs e"
    if "set xs \<subseteq> set (dns_lines d)" for xs e
    using that
  proof (induction xs arbitrary: e)
    case (Cons x xs)
    then have "list_all word_ok x \<and> x \<noteq> [] \<and> hd (hd x) \<noteq> CHR ''#'' \<and> hd (hd x) \<noteq> CHR '';''"
      using dns_lines_ok [OF assms(1), of x] by simp
    with Cons show ?case using parse_line_Join [of "hd x" "tl x"] by simp
  qed simp
  have "scan_lines (render d) = map (\<lambda>ws. drop_cr (Join ws '' '')) (dns_lines d)"
    by (simp add: scan_lines_def split Let_def comp_def)
  then show ?thesis using short step [OF order.refl] parse_dns_lines
    by (simp add: parseResolvConf_def)
qed

text \<open>
  C33. Parsing a resolv.conf text that lists a DNS configuration gives the configuration back: name
  servers, domain, search list and options, each word in its order.
\<close>

theorem parseResolvConf_render:
  assumes "dns_ok d" "list_all (\<lambda>ws. length (Join ws '' '') < max_token) (dns_lines d)"
  shows "parseResolvConf (Inr (render d, None)) = Inr d"
  using assms by (rule parse_render)

definition sample_dns :: dns where
  "sample_dns = \<lparr>Nameservers = [''10.96.0.10'', ''8.8.8.8''], Domain = ''cluster.local'',
     Search = [''default.svc'', ''svc''], Options = [''ndots:5'']\<rparr>"

theorem parseResolvConf_render_witness:
  "parseResolvConf (Inr (render sample_dns, None)) = Inr sample_dns"
  by (rule parseResolvConf_render) code_simp+

end
