(* ===== verification/IpamServer.thy ===== *)
theory IpamServer
  imports EtcdIpam IpamConfig ResolvConf
begin

text \<open>
  The address server of the daemon (\<open>pkg/daemon/handler.go\<close>): \<open>NewIpamServer\<close> and the handlers \<open>Add\<close>,
  \<open>Del\<close> and \<open>Check\<close>. A request is its form values, a response what the handler writes; \<open>ordR\<close> is the
  order in which Go visits the map of requested addresses, \<open>file\<close> the result of reading the configured
  resolv.conf. HTTP, the socket and logging are left out. \<open>None\<close> is a handler that never returns.
\<close>

record ipam_server =
  allocs :: "ip_allocator list"
  ipamConf :: ipam_conf
  srvStore :: etcd_store

record form =
  formIps :: string
  formContainerID :: string
  formIfName :: string

record ipam_result =
  IPs :: "ip_config list"
  ResultRoutes :: "route list"
  ResultDNS :: dns

datatype 'r response = OkJSON 'r | ErrJSON nat string | NoResponse

abbreviation StatusBadRequest :: nat where
  "StatusBadRequest \<equiv> 400"

text \<open>
  The loop that makes the allocators. \<open>&rangeset\<close> is the address of the loop variable, one cell for all
  rounds in the Go version of the repository: an allocator is its number, and the cell is read when the
  allocator is used, after the loop.
\<close>

fun range_loop :: "nat \<Rightarrow> rangeset list \<Rightarrow> rangeset \<Rightarrow> nat list \<Rightarrow> nat list \<times> rangeset" where
  "range_loop idx [] cell made = (made, cell)"
| "range_loop idx (rangeset # rest) cell made = range_loop (Suc idx) rest rangeset (made @ [idx])"

definition NewIpamServer :: "go_error + unit \<Rightarrow> go_error + unit \<Rightarrow> ipam_conf \<Rightarrow> go_error + ipam_server" where
  "NewIpamServer newClient newSession conf =
     (case New newClient newSession (ConfName conf) (PrefixKey conf) of
        Inl e \<Rightarrow> Inl (Wrapf ''new etcd store error: %v'' [] e)
      | Inr store \<Rightarrow>
          (let (made, cell) = range_loop 0 (Ranges conf) [] [] in
           Inr \<lparr>allocs = map (NewIPAllocator cell) made, ipamConf = conf, srvStore = store\<rparr>))"

section \<open>Add\<close>

type_synonym ip_requests = "(string \<times> ip) list"

definition parse_requests :: "string \<Rightarrow> ip_requests" where
  "parse_requests reqIPs = fold (\<lambda>t m. AList.update t (ParseIP t) m) (Split reqIPs CHR '','') []"

definition take_request :: "(ip_requests \<Rightarrow> ip_requests) \<Rightarrow> rangeset \<Rightarrow> ip_requests \<Rightarrow> ip \<times> ip_requests" where
  "take_request ordR rs requested =
     (case find (\<lambda>(k, a). RangeSet_Contains rs a) (ordR requested) of
        None \<Rightarrow> ([], requested)
      | Some (k, a) \<Rightarrow> (a, AList.delete k requested))"

text \<open>The allocation loop: the error of a range, or the requests left over and the addresses.\<close>

fun add_loop ::
    "'s store_ops \<Rightarrow> (ip_requests \<Rightarrow> ip_requests) \<Rightarrow> string \<Rightarrow> string \<Rightarrow> ip_allocator list \<Rightarrow>
     ip_requests \<Rightarrow> ip_config list \<Rightarrow> 's \<Rightarrow>
     ((go_error + (ip_requests \<times> ip_config list)) outcome \<times> 's) option" where
  "add_loop ops ordR cid ifname [] requested acc s = Some (Returns (Inr (requested, acc)), s)"
| "add_loop ops ordR cid ifname (a # as) requested acc s =
     (let (requestedIP, requested') = take_request ordR (Rangeset a) requested in
      case Get ops a cid ifname requestedIP s of
        None \<Rightarrow> None
      | Some (Panics, s') \<Rightarrow> Some (Panics, s')
      | Some (Returns (Inl err), s') \<Rightarrow> Some (Returns (Inl err), s')
      | Some (Returns (Inr ipConf), s') \<Rightarrow>
          add_loop ops ordR cid ifname as requested' (acc @ [ipConf]) s')"

text \<open>\<open>for _, alloc := range s.allocs { _ = alloc.Release(contID, ifName) }\<close>\<close>

definition release_all :: "'s store_ops \<Rightarrow> ip_allocator list \<Rightarrow> string \<Rightarrow> string \<Rightarrow> 's \<Rightarrow> 's" where
  "release_all ops as cid ifname s = fold (\<lambda>_ s. snd (Alloc_Release ops cid ifname s)) as s"

definition Add ::
    "'s store_ops \<Rightarrow> (ip_requests \<Rightarrow> ip_requests) \<Rightarrow> go_error + (string \<times> go_error option) \<Rightarrow>
     ipam_server \<Rightarrow> form \<Rightarrow> 's \<Rightarrow> (ipam_result response outcome \<times> 's) option" where
  "Add ops ordR file srv req s =
     (let cid = formContainerID req; ifname = formIfName req in
      case add_loop ops ordR cid ifname (allocs srv) (parse_requests (formIps req)) [] s of
        None \<Rightarrow> None
      | Some (Panics, s1) \<Rightarrow> Some (Panics, s1)
      | Some (Returns (Inl err), s1) \<Rightarrow>
          Some (Returns (ErrJSON StatusBadRequest ''errInfo''), release_all ops (allocs srv) cid ifname s1)
      | Some (Returns (Inr (requested, allocatedIPs)), s1) \<Rightarrow>
          if requested \<noteq> []
          then Some (Returns (ErrJSON StatusBadRequest ''errInfo''), release_all ops (allocs srv) cid ifname s1)
          else
            (let result = \<lparr>IPs = allocatedIPs, ResultRoutes = Routes (ipamConf srv), ResultDNS = empty_dns\<rparr> in
             if ResolvConfFile (ipamConf srv) \<noteq> []
             then (case parseResolvConf file of
                     Inl err \<Rightarrow> Some (Returns NoResponse, s1)
                   | Inr d \<Rightarrow> Some (Returns (OkJSON (result\<lparr>ResultDNS := d\<rparr>)), s1))
             else Some (Returns (OkJSON result), s1)))"

section \<open>Del and Check\<close>

fun del_loop :: "'s store_ops \<Rightarrow> string \<Rightarrow> string \<Rightarrow> ip_allocator list \<Rightarrow> 's \<Rightarrow> go_error list \<times> 's" where
  "del_loop ops cid ifname [] s = ([], s)"
| "del_loop ops cid ifname (a # as) s =
     (let (err, s1) = Alloc_Release ops cid ifname s; (errs, s2) = del_loop ops cid ifname as s1
      in (case err of None \<Rightarrow> errs | Some e \<Rightarrow> e # errs, s2))"

definition Del :: "'s store_ops \<Rightarrow> ipam_server \<Rightarrow> form \<Rightarrow> 's \<Rightarrow> unit response \<times> 's" where
  "Del ops srv req s =
     (let (errors, s') = del_loop ops (formContainerID req) (formIfName req) (allocs srv) s
      in (if errors \<noteq> [] then ErrJSON StatusBadRequest ''release ip failed'' else OkJSON (), s'))"

definition Check ::
    "(gomap \<Rightarrow> gomap) \<Rightarrow> 'c kv_client \<Rightarrow> ipam_server \<Rightarrow> form \<Rightarrow> 'c \<Rightarrow> unit response \<times> 'c" where
  "Check ord c srv req s =
     (let (found, s') = FindByID ord c (keyPrefix (srvStore srv)) (formContainerID req) (formIfName req) s
      in (if found then OkJSON ()
          else ErrJSON StatusBadRequest
            (''host-local: Failed to find address added by container '' @ formContainerID req), s'))"

end
