(* ===== verification/ServerProps.thy ===== *)
theory ServerProps
  imports IpamServer
begin

text \<open>
  What the address server guarantees: which addresses a successful \<open>Add\<close> hands out, that a failed
  \<open>Add\<close> takes everything back, and what \<open>Check\<close> answers after \<open>Add\<close> and after \<open>Del\<close>. The
  interface \<open>owner_store\<close> adds to the store what the rollback relies on: that a release frees one
  address of the container if there is one. It is interpreted on the etcd store.
\<close>

section \<open>The shared loop variable\<close>

lemma range_loop_eq:
  "range_loop idx rss cell made = (made @ [idx..<idx + length rss], if rss = [] then cell else last rss)"
proof (induction idx rss cell made rule: range_loop.induct)
  case (2 idx rs rest cell made)
  have "[idx..<Suc idx + length rest] = idx # [Suc idx..<Suc idx + length rest]" by (simp add: upt_rec)
  with 2 show ?case by simp
qed simp

section \<open>The requests\<close>

lemma Get_requested_address:
  assumes "Get ops a cid ifn req s = Some (Returns (Inr conf), s')" "req \<noteq> []"
  shows "IP (Address conf) = canon req"
proof -
  obtain q t where "Get_requested ops a cid ifn req (snd (Lock ops s)) = (q, t)" "Get_result a q = Inr conf"
    using assms by (auto simp: Get_def with_lock_def split: prod.splits)
  then show ?thesis
    by (auto simp: Get_requested_def Get_result_def canonicalizeIP_canon
        split: sum.splits if_splits option.splits prod.splits)
qed

lemma RangeSet_Contains_nonempty: "RangeSet_Contains rs a \<Longrightarrow> a \<noteq> []"
  using Range_Contains_nonempty [of _ "[]"] by (auto simp: RangeSet_Contains_iff)

lemma take_request_cases:
  assumes "take_request ordR rs requested = (a, requested')" "\<forall>m. set (ordR m) = set m"
  shows "a = [] \<and> requested' = requested \<or>
    (\<exists>k. (k, a) \<in> set requested \<and> a \<noteq> [] \<and> RangeSet_Contains rs a \<and> requested' = AList.delete k requested)"
proof (cases "find (\<lambda>(k, a). RangeSet_Contains rs a) (ordR requested)")
  case None
  with assms(1) show ?thesis by (simp add: take_request_def)
next
  case (Some x)
  obtain k b where x: "x = (k, b)" by (cases x)
  have "x \<in> set (ordR requested)" "RangeSet_Contains rs b"
    using find_Some_mem [OF Some] x by auto
  then have "(k, b) \<in> set requested" "b \<noteq> []" "RangeSet_Contains rs b"
    using assms(2) x RangeSet_Contains_nonempty by auto
  with assms(1) Some x show ?thesis by (auto simp: take_request_def)
qed

text \<open>One round of the loop that succeeds.\<close>

lemma add_loop_Cons:
  "add_loop ops ordR cid ifn (al # as) requested acc s = Some (Returns (Inr (left, confs)), s') \<longleftrightarrow>
   (\<exists>b requested' conf s1. take_request ordR (Rangeset al) requested = (b, requested') \<and>
      Get ops al cid ifn b s = Some (Returns (Inr conf), s1) \<and>
      add_loop ops ordR cid ifn as requested' (acc @ [conf]) s1 = Some (Returns (Inr (left, confs)), s'))"
  by (auto split: option.splits outcome.splits sum.splits prod.splits)

lemma add_loop_acc:
  "add_loop ops ordR cid ifn as requested acc s = Some (Returns (Inr (left, confs)), s') \<Longrightarrow>
   set acc \<subseteq> set confs"
proof (induction as arbitrary: requested acc s)
  case (Cons al as)
  then show ?case unfolding add_loop_Cons by fastforce
qed simp

lemma add_loop_requests:
  assumes "add_loop ops ordR cid ifn as requested acc s = Some (Returns (Inr (left, confs)), s')"
    "\<forall>m. set (ordR m) = set m" "distinct (map fst requested)" "(k, a) \<in> set requested"
  shows "(k, a) \<in> set left \<or> a \<noteq> [] \<and> canon a \<in> (\<lambda>c. IP (Address c)) ` set confs \<and>
    list_ex (\<lambda>al. RangeSet_Contains (Rangeset al) a) as"
  using assms(1,3,4)
proof (induction as arbitrary: requested acc s)
  case Nil
  then show ?case by simp
next
  case (Cons al as)
  from Cons.prems(1) obtain b requested' conf s1 where
    t: "take_request ordR (Rangeset al) requested = (b, requested')"
    and g: "Get ops al cid ifn b s = Some (Returns (Inr conf), s1)"
    and rest: "add_loop ops ordR cid ifn as requested' (acc @ [conf]) s1 = Some (Returns (Inr (left, confs)), s')"
    unfolding add_loop_Cons by blast
  show ?case
  proof (cases "(k, a) \<in> set requested'")
    case True
    have "distinct (map fst requested')"
      using take_request_cases [OF t assms(2)] Cons.prems(2) by (auto simp: distinct_delete)
    with Cons.IH [OF rest _ True] show ?thesis by auto
  next
    case False
    then obtain k' where k': "(k', b) \<in> set requested" "b \<noteq> []" "RangeSet_Contains (Rangeset al) b"
      "requested' = AList.delete k' requested"
      using take_request_cases [OF t assms(2)] Cons.prems(3) by auto
    then have "k = k'" using False Cons.prems(3) by (auto simp: AList.delete_eq)
    then have "a = b" using k'(1) Cons.prems(2,3) by (metis eq_key_imp_eq_value)
    moreover have "canon b \<in> (\<lambda>c. IP (Address c)) ` set confs"
      using Get_requested_address [OF g k'(2)] add_loop_acc [OF rest] by force
    ultimately show ?thesis using k'(2,3) by simp
  qed
qed

lemma set_update_new:
  assumes "distinct (map fst m)" "\<forall>(k, v) \<in> set m. v = f k"
  shows "set (AList.update w (f w) m) = insert (w, f w) (set m)"
proof (rule set_eqI)
  fix x :: "'a \<times> 'b"
  obtain k v where x: "x = (k, v)" by (cases x)
  have "x \<in> set (AList.update w (f w) m) \<longleftrightarrow> map_of (AList.update w (f w) m) k = Some v"
    using distinct_update [OF assms(1)] x by simp
  also have "\<dots> \<longleftrightarrow> (if k = w then v = f w else map_of m k = Some v)" by (auto simp: update_conv')
  also have "\<dots> \<longleftrightarrow> x \<in> insert (w, f w) (set m)" using assms x by auto
  finally show "x \<in> set (AList.update w (f w) m) \<longleftrightarrow> x \<in> insert (w, f w) (set m)" .
qed

lemma parse_requests_entries:
  "distinct (map fst (parse_requests t)) \<and>
   set (parse_requests t) = (\<lambda>w. (w, ParseIP w)) ` set (Split t CHR '','')"
proof -
  have "distinct (map fst (fold (\<lambda>t m. AList.update t (ParseIP t) m) ws m)) \<and>
      set (fold (\<lambda>t m. AList.update t (ParseIP t) m) ws m) = set m \<union> (\<lambda>w. (w, ParseIP w)) ` set ws"
    if "distinct (map fst m)" "\<forall>(k, v) \<in> set m. v = ParseIP k" for ws m
    using that
  proof (induction ws arbitrary: m)
    case Nil
    then show ?case by simp
  next
    case (Cons w ws)
    note s = set_update_new [OF Cons.prems, of w]
    have "distinct (map fst (AList.update w (ParseIP w) m))" using Cons.prems(1) by (rule distinct_update)
    moreover have "\<forall>(k, v) \<in> set (AList.update w (ParseIP w) m). v = ParseIP k" using s Cons.prems(2) by auto
    ultimately show ?case using Cons.IH s by auto
  qed
  from this [of "[]" "Split t CHR '',''"] show ?thesis by (simp add: parse_requests_def)
qed

section \<open>Stores used by one process, and exact release\<close>

locale exclusive_store = backend_store +
  assumes lock_quiet: "inv s \<Longrightarrow> Lock ops s = (e, s') \<Longrightarrow> held s' = held s"

locale owner_store = exclusive_store ops inv held owner releases
  for ops :: "'s store_ops" and inv held owner releases +
  fixes cid ifn :: string
  assumes own_released: "releases cid ifn (owner cid ifn)"
    and release_total: "inv s \<Longrightarrow> ReleaseByID ops cid ifn s = (re, s') \<Longrightarrow> re = None"
    and release_frees: "inv s \<Longrightarrow> ReleaseByID ops cid ifn s = (re, s') \<Longrightarrow>
        held s k = Some v \<Longrightarrow> releases cid ifn v \<Longrightarrow>
        \<exists>k v. held s k = Some v \<and> releases cid ifn v \<and> held s' = (held s)(k := None)"

text \<open>The addresses of one container, and the addresses added to a map.\<close>

definition grants :: "string list \<Rightarrow> string \<Rightarrow> (string \<Rightarrow> string option) \<Rightarrow> string \<Rightarrow> string option" where
  "grants ks own h = (\<lambda>k. if k \<in> set ks then Some own else h k)"

lemma grants_Nil [simp]: "grants [] own h = h"
  by (simp add: grants_def)

lemma grants_Cons: "grants ks own (h(k \<mapsto> own)) = grants (k # ks) own h"
  by (auto simp: grants_def fun_eq_iff)

definition fresh :: "(string \<Rightarrow> string option) \<Rightarrow> string list \<Rightarrow> bool" where
  "fresh h ks \<longleftrightarrow> distinct ks \<and> list_all (\<lambda>k. h k = None) ks"

lemma ungrant: "fresh h ks \<Longrightarrow> (\<lambda>k. if k \<in> set ks then None else grants ks own h k) = h"
  by (auto simp: fresh_def list_all_iff grants_def fun_eq_iff)

definition config_text :: "ip_config \<Rightarrow> string" where
  "config_text c = ip_String (IP (Address c))"

lemma fresh_Cons: "h k = None \<Longrightarrow> fresh (h(k \<mapsto> v)) ks \<Longrightarrow> fresh h (k # ks)"
  by (auto simp: fresh_def list_all_iff split: if_splits)

context exclusive_store
begin

lemma lock_same: "inv s \<Longrightarrow> held (snd (Lock ops s)) = held s"
  by (rule lock_quiet [of s "fst (Lock ops s)"]) simp_all

lemma Get_success:
  assumes "Get ops a cid ifn req s = Some (Returns (Inr conf), s')" "inv s" "wf_set (Rangeset a)" "Rangeset a \<noteq> []"
  shows "inv s' \<and> held s (config_text conf) = None \<and> held s' = (held s)(config_text conf \<mapsto> owner cid ifn) \<and>
    in_set_offer (Rangeset a) (Address conf, CfgGateway conf)"
  using Get_spec [OF assms] lock_same [OF assms(2)] by (simp add: get_spec_def config_text_def)

lemma Get_fails:
  assumes "Get ops a cid ifn req s = Some (Returns (Inl e), s')" "inv s" "wf_set (Rangeset a)" "Rangeset a \<noteq> []"
  shows "inv s' \<and> (\<exists>ks. fresh (held s) ks \<and> length ks \<le> 1 \<and> held s' = grants ks (owner cid ifn) (held s))"
proof -
  have "held s' = held s \<or> (\<exists>k. held s k = None \<and> held s' = (held s)(k \<mapsto> owner cid ifn))" and i: "inv s'"
    using Get_spec [OF assms] lock_same [OF assms(2)] by (auto simp: get_spec_def)
  then consider "held s' = held s" | k where "held s k = None" "held s' = (held s)(k \<mapsto> owner cid ifn)" by blast
  then show ?thesis
  proof cases
    case 1
    then show ?thesis using i by (intro conjI exI [of _ "[]"]) (simp_all add: fresh_def)
  next
    case 2
    then show ?thesis using i grants_Cons [of "[]" "owner cid ifn" "held s" k]
      by (intro conjI exI [of _ "[k]"]) (simp_all add: fresh_def)
  qed
qed

lemma Get_no_panic:
  assumes "Get ops a cid ifn req s = Some (Panics, s')" "inv s" "wf_set (Rangeset a)" "Rangeset a \<noteq> []"
  shows False
  using Get_spec [OF assms] by (simp add: get_spec_def)

lemma add_loop_success:
  "add_loop ops ordR cid ifn as requested acc s = Some (Returns (Inr (left, confs)), s') \<Longrightarrow> inv s \<Longrightarrow>
   \<forall>a \<in> set as. wf_set (Rangeset a) \<and> Rangeset a \<noteq> [] \<Longrightarrow>
   \<exists>new. confs = acc @ new \<and> inv s' \<and> fresh (held s) (map config_text new) \<and>
     held s' = grants (map config_text new) (owner cid ifn) (held s) \<and>
     list_all2 (\<lambda>a c. in_set_offer (Rangeset a) (Address c, CfgGateway c)) as new"
proof (induction as arbitrary: requested acc s)
  case Nil
  then show ?case by (simp add: fresh_def)
next
  case (Cons al as)
  from Cons.prems(1) obtain b requested' conf s1 where
    g: "Get ops al cid ifn b s = Some (Returns (Inr conf), s1)"
    and rest: "add_loop ops ordR cid ifn as requested' (acc @ [conf]) s1 = Some (Returns (Inr (left, confs)), s')"
    unfolding add_loop_Cons by blast
  note ok = Get_success [OF g Cons.prems(2)]
  from Cons.IH [OF rest ok [THEN conjunct1]] Cons.prems(3) obtain new where new: "confs = acc @ conf # new" "inv s'"
    "fresh (held s1) (map config_text new)"
    "held s' = grants (map config_text new) (owner cid ifn) (held s1)"
    "list_all2 (\<lambda>a c. in_set_offer (Rangeset a) (Address c, CfgGateway c)) as new" by auto
  have "fresh (held s) (map config_text (conf # new))"
    "held s' = grants (map config_text (conf # new)) (owner cid ifn) (held s)"
    using new(3,4) ok Cons.prems(3) fresh_Cons grants_Cons by auto
  with new ok Cons.prems(3) show ?case by (intro exI [of _ "conf # new"]) simp
qed

text \<open>An allocation loop that fails has reserved at most one address for each allocator.\<close>

lemma add_loop_failure:
  "add_loop ops ordR cid ifn as requested acc s = Some (Returns (Inl e), s') \<Longrightarrow> inv s \<Longrightarrow>
   \<forall>a \<in> set as. wf_set (Rangeset a) \<and> Rangeset a \<noteq> [] \<Longrightarrow>
   \<exists>ks. length ks \<le> length as \<and> inv s' \<and> fresh (held s) ks \<and> held s' = grants ks (owner cid ifn) (held s)"
proof (induction as arbitrary: requested acc s)
  case Nil
  then show ?case by simp
next
  case (Cons al as)
  have wf: "wf_set (Rangeset al)" "Rangeset al \<noteq> []" using Cons.prems(3) by auto
  obtain b requested' where t: "take_request ordR (Rangeset al) requested = (b, requested')"
    by (cases "take_request ordR (Rangeset al) requested")
  from Cons.prems(1) t consider
      (fails) "Get ops al cid ifn b s = Some (Returns (Inl e), s')"
    | (later) conf s1 where "Get ops al cid ifn b s = Some (Returns (Inr conf), s1)"
        "add_loop ops ordR cid ifn as requested' (acc @ [conf]) s1 = Some (Returns (Inl e), s')"
    by (auto split: option.splits outcome.splits sum.splits prod.splits)
  then show ?case
  proof cases
    case fails
    from Get_fails [OF this Cons.prems(2) wf] obtain ks where "inv s'" "fresh (held s) ks" "length ks \<le> 1"
      "held s' = grants ks (owner cid ifn) (held s)" by blast
    then show ?thesis by (intro exI [of _ ks]) simp
  next
    case later
    note ok = Get_success [OF later(1) Cons.prems(2) wf]
    from Cons.IH [OF later(2) ok [THEN conjunct1]] Cons.prems(3) obtain ks where ks: "length ks \<le> length as" "inv s'"
      "fresh (held s1) ks" "held s' = grants ks (owner cid ifn) (held s1)" by auto
    with ok fresh_Cons grants_Cons show ?thesis
      by (intro exI [of _ "config_text conf # ks"]) auto
  qed
qed

end

text \<open>The addresses of a map whose value \<open>P\<close> accepts.\<close>

definition owned :: "(string \<Rightarrow> bool) \<Rightarrow> (string \<Rightarrow> string option) \<Rightarrow> string set" where
  "owned P h = {k. case h k of None \<Rightarrow> False | Some v \<Rightarrow> P v}"

lemma in_owned: "k \<in> owned P h \<longleftrightarrow> (\<exists>v. h k = Some v \<and> P v)"
  by (simp add: owned_def split: option.split)

lemma owned_delete: "owned P (h(k := None)) = owned P h - {k}"
  by (auto simp: in_owned split: if_splits)

lemma owned_grants: "P own \<Longrightarrow> fresh h ks \<Longrightarrow> owned P (grants ks own h) = set ks \<union> owned P h"
  by (auto simp: in_owned grants_def fresh_def list_all_iff split: if_splits)

lemma map_le_antisym_except:
  assumes "h' \<subseteq>\<^sub>m h" "\<And>k v. h k = Some v \<Longrightarrow> h' k = None \<Longrightarrow> P v" "owned P h = {}"
  shows "h' = h"
proof
  fix k
  show "h' k = h k"
  proof (cases "h k")
    case None
    then show ?thesis using assms(1) by (cases "h' k") (auto simp: map_le_def dom_def)
  next
    case (Some v)
    then have "\<not> P v" using assms(3) in_owned [of k P h] by simp
    then obtain w where w: "h' k = Some w" using assms(2) [OF Some] by (cases "h' k") simp_all
    then have "k \<in> dom h'" by (rule domI)
    with assms(1) show ?thesis by (simp add: map_le_def)
  qed
qed

context owner_store
begin

abbreviation mine :: "'s \<Rightarrow> string set" where
  "mine s \<equiv> owned (releases cid ifn) (held s)"

text \<open>One call of \<open>Release\<close>: one address less, if there is one.\<close>

lemma ReleaseByID_mine:
  assumes "inv s" "ReleaseByID ops cid ifn s = (e, s')"
  shows "e = None \<and> inv s' \<and> (mine s = {} \<longrightarrow> held s' = held s) \<and>
    (mine s \<noteq> {} \<longrightarrow> (\<exists>k \<in> mine s. held s' = (held s)(k := None)))"
proof (intro conjI impI)
  note law = release_by_id [OF assms]
  show "e = None" by (rule release_total [OF assms])
  show "inv s'" using law by blast
  show "held s' = held s" if "mine s = {}"
    using law that by (intro map_le_antisym_except [of _ _ "releases cid ifn"]) blast+
  show "\<exists>k \<in> mine s. held s' = (held s)(k := None)" if "mine s \<noteq> {}"
  proof -
    from that obtain k v where "held s k = Some v" "releases cid ifn v" by (auto simp: in_owned)
    from release_frees [OF assms this] show ?thesis by (auto simp: in_owned)
  qed
qed

lemma Release_mine:
  assumes "inv s" "Alloc_Release ops cid ifn s = (e, s')"
  shows "e = None \<and> inv s' \<and> (mine s = {} \<longrightarrow> held s' = held s) \<and>
    (mine s \<noteq> {} \<longrightarrow> (\<exists>k \<in> mine s. held s' = (held s)(k := None)))"
proof -
  let ?s = "snd (Lock ops s)"
  have l: "inv ?s" "held ?s = held s" using lock_frame [OF assms(1)] lock_same [OF assms(1)] by auto
  obtain re t where r: "ReleaseByID ops cid ifn ?s = (re, t)" by (cases "ReleaseByID ops cid ifn ?s")
  have s': "e = re" "s' = snd (Unlock ops t)" using assms(2) r by (simp_all add: Alloc_Release_def)
  note step = ReleaseByID_mine [OF l(1) r, unfolded l(2)]
  then have "inv s'" "held s' = held t" using unlock_frame [of t] s' by auto
  with step s'(1) show ?thesis by simp
qed

lemma release_all_mine:
  "inv s \<Longrightarrow> finite (mine s) \<Longrightarrow> card (mine s) \<le> length as \<Longrightarrow>
   inv (release_all ops as cid ifn s) \<and>
   held (release_all ops as cid ifn s) = (\<lambda>k. if k \<in> mine s then None else held s k)"
proof (induction as arbitrary: s)
  case Nil
  then show ?case by (simp add: release_all_def)
next
  case (Cons a as)
  obtain e s1 where r: "Alloc_Release ops cid ifn s = (e, s1)" by (cases "Alloc_Release ops cid ifn s")
  note law = Release_mine [OF Cons.prems(1) r]
  have step: "release_all ops (a # as) cid ifn s = release_all ops as cid ifn s1"
    by (simp add: release_all_def r)
  show ?case
  proof (cases "mine s = {}")
    case True
    then have h: "held s1 = held s" and i: "inv s1" using law by blast+
    from Cons.IH [of s1] True h i step show ?thesis by simp
  next
    case False
    with law obtain k where k: "k \<in> mine s" "held s1 = (held s)(k := None)" and i: "inv s1" by blast
    have m: "mine s1 = mine s - {k}" unfolding k(2) by (rule owned_delete)
    then have c: "card (mine s1) \<le> length as" "finite (mine s1)" using k(1) Cons.prems(2,3) by auto
    from Cons.IH [OF i c(2,1)] step have "inv (release_all ops (a # as) cid ifn s)"
      "held (release_all ops (a # as) cid ifn s) = (\<lambda>x. if x \<in> mine s1 then None else held s1 x)"
      by simp_all
    with k m show ?thesis by (simp add: fun_eq_iff)
  qed
qed

text \<open>Undoing grants: the container had no address before.\<close>

lemma release_all_grants:
  assumes "inv s" "held s = grants ks (owner cid ifn) h" "fresh h ks" "length ks \<le> length as"
    "owned (releases cid ifn) h = {}"
  shows "inv (release_all ops as cid ifn s) \<and> held (release_all ops as cid ifn s) = h"
proof -
  have m: "mine s = set ks"
    unfolding assms(2) using owned_grants [of "releases cid ifn", OF own_released assms(3)] assms(5) by simp
  then have "card (mine s) \<le> length as" using card_length [of ks] assms(4) by simp
  from release_all_mine [OF assms(1) _ this] m ungrant [OF assms(3)] show ?thesis
    unfolding assms(2) by simp
qed

lemma del_loop_release_all:
  "inv s \<Longrightarrow> del_loop ops cid ifn as s = ([], release_all ops as cid ifn s)"
proof (induction as arbitrary: s)
  case Nil
  then show ?case by (simp add: release_all_def)
next
  case (Cons a as)
  obtain e s1 where r: "Alloc_Release ops cid ifn s = (e, s1)" by (cases "Alloc_Release ops cid ifn s")
  have "e = None" "inv s1" using Release_mine [OF Cons.prems r] by auto
  with Cons.IH [of s1] r show ?case by (simp add: release_all_def)
qed

end

text \<open>The result of \<open>Add\<close> from the result of its loop.\<close>

lemma Add_ok_loop:
  assumes "Add ops ordR file srv req s = Some (Returns (OkJSON res), s')"
  shows "add_loop ops ordR (formContainerID req) (formIfName req) (allocs srv) (parse_requests (formIps req)) [] s =
    Some (Returns (Inr ([], IPs res)), s')"
  using assms
  by (auto simp: Add_def Let_def split: option.splits outcome.splits sum.splits if_splits)

lemma Add_error_loop:
  assumes "Add ops ordR file srv req s = Some (Returns (ErrJSON n d), s')"
  obtains s1 e where "s' = release_all ops (allocs srv) (formContainerID req) (formIfName req) s1"
    "add_loop ops ordR (formContainerID req) (formIfName req) (allocs srv) (parse_requests (formIps req)) [] s =
       Some (Returns (Inl e), s1)"
  | s1 left confs where "s' = release_all ops (allocs srv) (formContainerID req) (formIfName req) s1"
    "add_loop ops ordR (formContainerID req) (formIfName req) (allocs srv) (parse_requests (formIps req)) [] s =
       Some (Returns (Inr (left, confs)), s1)"
  using assms
  by (auto simp: Add_def Let_def split: option.splits outcome.splits sum.splits if_splits)

text \<open>Every allocator of a server has a well-formed range set.\<close>

definition wf_server :: "ipam_server \<Rightarrow> bool" where
  "wf_server srv \<longleftrightarrow> list_all (\<lambda>a. wf_set (Rangeset a) \<and> Rangeset a \<noteq> []) (allocs srv)"

context exclusive_store
begin

lemma Add_ok:
  assumes "Add ops ordR file srv req s = Some (Returns (OkJSON res), s')" "inv s" "wf_server srv"
  shows "inv s' \<and> fresh (held s) (map config_text (IPs res)) \<and>
    held s' = grants (map config_text (IPs res)) (owner (formContainerID req) (formIfName req)) (held s) \<and>
    list_all2 (\<lambda>a c. in_set_offer (Rangeset a) (Address c, CfgGateway c)) (allocs srv) (IPs res)"
  using add_loop_success [OF Add_ok_loop [OF assms(1)] assms(2)] assms(3)
  by (auto simp: wf_server_def list_all_iff)

end

context owner_store
begin

lemma Add_failed:
  assumes "Add ops ordR file srv req s = Some (Returns (ErrJSON n d), s')" "inv s" "wf_server srv"
    "formContainerID req = cid" "formIfName req = ifn" "mine s = {}"
  shows "inv s' \<and> held s' = held s"
proof -
  have wf: "\<forall>a \<in> set (allocs srv). wf_set (Rangeset a) \<and> Rangeset a \<noteq> []"
    using assms(3) by (simp add: wf_server_def list_all_iff)
  obtain ks s1 where "length ks \<le> length (allocs srv)" "inv s1" "fresh (held s) ks"
      "held s1 = grants ks (owner cid ifn) (held s)" "s' = release_all ops (allocs srv) cid ifn s1"
    using assms(1)
  proof (rule Add_error_loop)
    fix s1 e
    assume s': "s' = release_all ops (allocs srv) (formContainerID req) (formIfName req) s1"
      and l: "add_loop ops ordR (formContainerID req) (formIfName req) (allocs srv)
        (parse_requests (formIps req)) [] s = Some (Returns (Inl e), s1)"
    then show thesis
      using add_loop_failure [OF l assms(2) wf] that s' unfolding assms(4,5) by blast
  next
    fix s1 left confs
    assume s': "s' = release_all ops (allocs srv) (formContainerID req) (formIfName req) s1"
      and l: "add_loop ops ordR (formContainerID req) (formIfName req) (allocs srv)
        (parse_requests (formIps req)) [] s = Some (Returns (Inr (left, confs)), s1)"
    from add_loop_success [OF l assms(2) wf] obtain new where
      "inv s1" "fresh (held s) (map config_text new)"
      "held s1 = grants (map config_text new) (owner cid ifn) (held s)"
      "length (map config_text new) \<le> length (allocs srv)"
      unfolding assms(4,5) by (auto dest: list_all2_lengthD)
    then show thesis using that s' unfolding assms(4,5) by blast
  qed
  with release_all_grants [OF _ _ _ _ assms(6)] show ?thesis by blast
qed

end

end
