(* ===== verification/EtcdServer.thy ===== *)
theory EtcdServer
  imports ServerProps
begin

text \<open>
  The address server over the etcd store. \<open>quiet_kv\<close> is an etcd that no other process changes while this
  one waits for the mutex, \<open>deleting_kv\<close> one whose range reads and deletions moreover succeed; writes may
  still fail. A container's entries are the keys whose value a release of the container matches; the
  exactness of the rollback needs them to be addresses of this network (\<open>clean\<close>).
\<close>

locale quiet_kv = etcd_kv +
  assumes mutex_quiet: "inv s \<Longrightarrow> mutexLock c s = (r, s') \<Longrightarrow> view s' = view s"

locale deleting_kv = quiet_kv +
  assumes prefix_total: "inv s \<Longrightarrow> \<exists>kvs s'. kvGetPrefix c p s = (Inr kvs, s')"
    and delete_total: "inv s \<Longrightarrow> kvDelete c k s = (r, s') \<Longrightarrow> r = None"

text \<open>Container and interface whose stored value is recognised, and is no text of an address.\<close>

definition own_id :: "string \<Rightarrow> string \<Rightarrow> bool" where
  "own_id cid ifn \<longleftrightarrow>
     etcd_releases cid ifn (etcd_owner cid ifn) \<and> (\<forall>a. \<not> etcd_releases cid ifn (ip_String a))"

definition clean :: "string \<Rightarrow> string \<Rightarrow> string \<Rightarrow> (string \<Rightarrow> string option) \<Rightarrow> bool" where
  "clean p cid ifn m \<longleftrightarrow>
     (\<forall>k v. HasPrefix k p \<longrightarrow> m k = Some v \<longrightarrow> etcd_releases cid ifn v \<longrightarrow>
        (\<exists>t. k = net_key p t \<and> \<not> HasPrefix t lastIPFilePrefix))"

locale quiet_node = quiet_kv c inv view + etcd_node c inv view ord st
  for c :: "'c kv_client" and inv view ord st

locale owner_node = deleting_kv c inv view + quiet_node c inv view ord st
  for c :: "'c kv_client" and inv view ord st +
  fixes cid ifn :: string
  assumes own: "own_id cid ifn"

sublocale quiet_node \<subseteq> qnode: exclusive_store "etcd_ops ord c st" inv
  "\<lambda>s. etcd_held (view s) (keyPrefix st)" etcd_owner etcd_releases
  by unfold_locales (use mutex_quiet in \<open>simp add: etcd_ops_def Let_def\<close>)

lemma clean_delete: "clean p cid ifn m \<Longrightarrow> clean p cid ifn (m(k := None))"
  by (auto simp: clean_def)

lemma clean_ip_key: "clean p cid ifn m \<Longrightarrow> clean p cid ifn (m(ip_key p a \<mapsto> v))"
  using ip_String_not_last by (auto simp: clean_def ip_key_net_key)

lemma clean_last_key: "own_id cid ifn \<Longrightarrow> clean p cid ifn m \<Longrightarrow> clean p cid ifn (m(last_key p rid \<mapsto> ip_String a))"
  by (auto simp: clean_def own_id_def)

context owner_node
begin

abbreviation inv' :: "'c \<Rightarrow> bool" where
  "inv' s \<equiv> inv s \<and> clean (keyPrefix st) cid ifn (view s)"

lemma kv_list_total: "inv s \<Longrightarrow> \<exists>m s'. kv_list c p s = (Inr m, s')"
  using prefix_total [of s p] by (fastforce simp: kv_list_def)

lemma ReleaseByKey_total:
  assumes "inv s" "ReleaseByKey ord c p match s = (r, s')"
  shows "\<exists>b. r = Inr b"
proof -
  obtain m s1 where l: "kv_list c p s = (Inr m, s1)" using kv_list_total [OF assms(1)] by blast
  have i1: "inv s1" using kv_list_frame [OF assms(1) l] by simp
  show ?thesis
  proof (cases "find (\<lambda>(k, v). TrimSpace v = match) (ord m)")
    case None
    with l assms(2) show ?thesis by (auto simp: ReleaseByKey_def)
  next
    case (Some kv)
    obtain k v where kv: "kv = (k, v)" by (cases kv)
    obtain r2 s2 where d: "kvDelete c k s1 = (r2, s2)" by (cases "kvDelete c k s1")
    with delete_total [OF i1 d] l Some kv assms(2) show ?thesis
      by (auto simp: ReleaseByKey_def kv_delete_def)
  qed
qed

lemma etcd_ReleaseByID_total:
  assumes "inv s" "etcd_ReleaseByID ord c p cid' ifn' s = (e, s')"
  shows "e = None"
proof -
  let ?m = "TrimSpace cid' @ LineBreak @ ifn'"
  obtain r1 s1 where r1: "ReleaseByKey ord c p ?m s = (r1, s1)" by (cases "ReleaseByKey ord c p ?m s")
  obtain r2 s2 where r2: "ReleaseByKey ord c p (TrimSpace cid') s1 = (r2, s2)"
    by (cases "ReleaseByKey ord c p (TrimSpace cid') s1")
  have i1: "inv s1" using ReleaseByKey_cases [OF assms(1) order r1] by simp
  obtain b1 b2 where "r1 = Inr b1" "r2 = Inr b2"
    using ReleaseByKey_total [OF assms(1) r1] ReleaseByKey_total [OF i1 r2] by blast
  with r1 r2 assms(2) show ?thesis by (cases b1) (simp_all add: etcd_ReleaseByID_def)
qed

lemma etcd_ReleaseByID_frees:
  assumes "inv' s" "etcd_ReleaseByID ord c (keyPrefix st) cid ifn s = (e, s')"
    "etcd_held (view s) (keyPrefix st) k0 = Some v0" "etcd_releases cid ifn v0"
  shows "\<exists>k v. etcd_held (view s) (keyPrefix st) k = Some v \<and> etcd_releases cid ifn v \<and>
    etcd_held (view s') (keyPrefix st) = (etcd_held (view s) (keyPrefix st))(k := None)"
proof -
  let ?p = "keyPrefix st"
  have i: "inv s" and cl: "clean ?p cid ifn (view s)" using assms(1) by auto
  note cases = etcd_ReleaseByID_cases [OF i order assms(2)]
  have "view s (net_key ?p k0) = Some v0" using assms(3) by (simp add: etcd_held_def split: if_splits)
  then have "view s' \<noteq> view s"
    using cases(3) [OF etcd_ReleaseByID_total [OF i assms(2)], of "net_key ?p k0" v0] assms(4) by auto
  with cases(2) obtain k v where k: "HasPrefix k ?p" "view s k = Some v" "etcd_releases cid ifn v"
    "view s' = (view s)(k := None)" by blast
  then obtain t where t: "k = net_key ?p t" "\<not> HasPrefix t lastIPFilePrefix"
    using cl unfolding clean_def by blast
  then have "etcd_held (view s) ?p t = Some v"
    "etcd_held (view s') ?p = (etcd_held (view s) ?p)(t := None)"
    using k by (auto simp: etcd_held_def fun_eq_iff)
  with k(3) show ?thesis by blast
qed

lemma Reserve_clean:
  assumes "inv' s" "etcd_Reserve c (keyPrefix st) cid' ifn' a rid s = (res, s')"
  shows "inv' s'"
proof -
  have i: "inv s" and cl: "clean (keyPrefix st) cid ifn (view s)" using assms(1) by auto
  note put1 = clean_ip_key [OF cl, of a "etcd_owner cid' ifn'"]
  note put2 = clean_last_key [OF own put1, of rid a]
  note cases = etcd_Reserve_cases [OF i assms(2)]
  show ?thesis
  proof (cases res)
    case (Inl e)
    with cases(1) cases(4) [OF Inl] cl put1 put2 show ?thesis by auto
  next
    case (Inr b)
    with cases(1,2,3) cl put2 show ?thesis by (cases b) auto
  qed
qed

lemma ReleaseByID_clean:
  assumes "inv' s" "etcd_ReleaseByID ord c (keyPrefix st) cid' ifn' s = (e, s')"
  shows "inv' s'"
proof -
  have i: "inv s" using assms(1) by simp
  from etcd_ReleaseByID_cases(1,2) [OF i order assms(2)] assms(1) clean_delete show ?thesis by metis
qed

end

sublocale owner_node \<subseteq> onode: owner_store "etcd_ops ord c st" inv'
  "\<lambda>s. etcd_held (view s) (keyPrefix st)" etcd_owner etcd_releases cid ifn
proof unfold_locales
  fix s e s'
  assume "inv' s" "Lock (etcd_ops ord c st) s = (e, s')"
  moreover from this have "mutexLock c s = (e, s')" by (simp add: etcd_ops_def Let_def)
  ultimately show "inv' s'" using mutex_lock mutex_quiet by metis
next
  fix s e s'
  assume "inv' s" "Lock (etcd_ops ord c st) s = (e, s')"
  then show "etcd_held (view s') (keyPrefix st) = etcd_held (view s) (keyPrefix st)"
    using qnode.lock_quiet by blast
next
  fix s e s'
  assume "inv' s" "Unlock (etcd_ops ord c st) s = (e, s')"
  moreover from this have "mutexUnlock c s = (e, s')" by (simp add: etcd_ops_def Let_def)
  ultimately show "inv' s' \<and> etcd_held (view s') (keyPrefix st) = etcd_held (view s) (keyPrefix st)"
    using mutex_unlock by metis
next
  fix s cid' ifn' a rid res s'
  assume "inv' s" "Reserve (etcd_ops ord c st) cid' ifn' a rid s = (res, s')"
  then show "inv' s'" using Reserve_clean [of s cid' ifn' a rid res s'] by (simp add: etcd_ops_def Let_def)
next
  fix s cid' ifn' a rid s'
  assume "inv' s" "Reserve (etcd_ops ord c st) cid' ifn' a rid s = (Inr True, s')"
  then show "etcd_held (view s) (keyPrefix st) (ip_String a) = None \<and>
    etcd_held (view s') (keyPrefix st) =
      (etcd_held (view s) (keyPrefix st))(ip_String a \<mapsto> etcd_owner cid' ifn')"
    using node.reserve_new by blast
next
  fix s cid' ifn' a rid s'
  assume "inv' s" "Reserve (etcd_ops ord c st) cid' ifn' a rid s = (Inr False, s')"
  then show "etcd_held (view s) (keyPrefix st) (ip_String a) \<noteq> None \<and>
    etcd_held (view s') (keyPrefix st) = etcd_held (view s) (keyPrefix st)"
    using node.reserve_taken by blast
next
  fix s cid' ifn' a rid err s'
  assume "inv' s" "Reserve (etcd_ops ord c st) cid' ifn' a rid s = (Inl err, s')"
  then show "etcd_held (view s') (keyPrefix st) = etcd_held (view s) (keyPrefix st) \<or>
    etcd_held (view s) (keyPrefix st) (ip_String a) = None \<and>
    etcd_held (view s') (keyPrefix st) =
      (etcd_held (view s) (keyPrefix st))(ip_String a \<mapsto> etcd_owner cid' ifn')"
    using node.reserve_error by blast
next
  fix s rid r s'
  assume "inv' s" "LastReservedIP (etcd_ops ord c st) rid s = (r, s')"
  moreover from this have "etcd_LastReservedIP c (keyPrefix st) rid s = (r, s')"
    by (simp add: etcd_ops_def Let_def)
  ultimately show "inv' s' \<and> etcd_held (view s') (keyPrefix st) = etcd_held (view s) (keyPrefix st)"
    using etcd_LastReservedIP_frame by metis
next
  fix s cid' ifn' ips s'
  assume "inv' s" "GetByID (etcd_ops ord c st) cid' ifn' s = (ips, s')"
  moreover from this have "etcd_GetByID ord c (keyPrefix st) cid' ifn' s = (ips, s')"
    by (simp add: etcd_ops_def Let_def)
  ultimately show "inv' s' \<and> etcd_held (view s') (keyPrefix st) = etcd_held (view s) (keyPrefix st)"
    using etcd_GetByID_frame by metis
next
  fix s cid' ifn' re s'
  assume i: "inv' s" and r: "ReleaseByID (etcd_ops ord c st) cid' ifn' s = (re, s')"
  moreover from r have "etcd_ReleaseByID ord c (keyPrefix st) cid' ifn' s = (re, s')"
    by (simp add: etcd_ops_def Let_def)
  ultimately show "inv' s' \<and> etcd_held (view s') (keyPrefix st) \<subseteq>\<^sub>m etcd_held (view s) (keyPrefix st) \<and>
    (\<forall>k v. etcd_held (view s) (keyPrefix st) k = Some v \<longrightarrow>
       etcd_held (view s') (keyPrefix st) k = None \<longrightarrow> etcd_releases cid' ifn' v)"
    using ReleaseByID_clean node.release_by_id [of s cid' ifn' re s'] by blast
next
  show "etcd_releases cid ifn (etcd_owner cid ifn)" using own by (simp add: own_id_def)
next
  fix s re s'
  assume "inv' s" "ReleaseByID (etcd_ops ord c st) cid ifn s = (re, s')"
  then show "re = None"
    using etcd_ReleaseByID_total [of s "keyPrefix st" cid ifn re s'] by (simp add: etcd_ops_def Let_def)
next
  fix s re s' k v
  assume "inv' s" "ReleaseByID (etcd_ops ord c st) cid ifn s = (re, s')"
    "etcd_held (view s) (keyPrefix st) k = Some v" "etcd_releases cid ifn v"
  then show "\<exists>k v. etcd_held (view s) (keyPrefix st) k = Some v \<and> etcd_releases cid ifn v \<and>
    etcd_held (view s') (keyPrefix st) = (etcd_held (view s) (keyPrefix st))(k := None)"
    using etcd_ReleaseByID_frees [of s re s' k v] by (simp add: etcd_ops_def Let_def)
qed

section \<open>Check\<close>

context deleting_kv
begin

lemma FindByKey_exact:
  assumes "inv s" "map_order ord"
  obtains s' where "FindByKey ord c p match s = (Inr (\<exists>k. HasPrefix k p \<and> view s k = Some match), s')"
    "inv s'" "view s' = view s"
proof -
  obtain kvs s1 where "kvGetPrefix c p s = (Inr kvs, s1)" using prefix_total [OF assms(1)] by blast
  then obtain m where l: "kv_list c p s = (Inr m, s1)" by (auto simp: kv_list_def)
  have m: "distinct (map fst m)" "\<And>k. map_of m k = (if HasPrefix k p then view s k else None)"
    using kv_list_ok [OF assms(1) l] by auto
  have "(k, v) \<in> set (ord m) \<longleftrightarrow> HasPrefix k p \<and> view s k = Some v" for k v
    using m map_of_eq_Some_iff [OF m(1), of k v] map_order_set [OF assms(2), of m] by (auto split: if_splits)
  then have "list_ex (\<lambda>(k, v). v = match) (ord m) \<longleftrightarrow> (\<exists>k. HasPrefix k p \<and> view s k = Some match)"
    unfolding list_ex_iff by blast
  with l kv_list_frame [OF assms(1) l] that show thesis by (simp add: FindByKey_def)
qed

lemma FindByID_exact:
  assumes "inv s" "map_order ord"
  obtains s' where "FindByID ord c p cid ifn s =
      (\<exists>k v. HasPrefix k p \<and> view s k = Some v \<and> (v = etcd_owner cid ifn \<or> v = TrimSpace cid), s')"
    "inv s'" "view s' = view s"
proof -
  let ?found = "\<lambda>v. \<exists>k. HasPrefix k p \<and> view s k = Some v"
  obtain r1 s1 where l: "mutexLock c s = (r1, s1)" by (cases "mutexLock c s")
  have i1: "inv s1" "view s1 = view s" using mutex_lock [OF assms(1) l] mutex_quiet [OF assms(1) l] by auto
  define b1 where "b1 \<longleftrightarrow> ?found (etcd_owner cid ifn)"
  define b2 where "b2 \<longleftrightarrow> ?found (TrimSpace cid)"
  obtain s2 where s2: "FindByKey ord c p (etcd_owner cid ifn) s1 = (Inr b1, s2)"
    "inv s2" "view s2 = view s" using FindByKey_exact [OF i1(1) assms(2)] unfolding i1(2) b1_def by blast
  obtain s3 where s3: "FindByKey ord c p (TrimSpace cid) s2 = (Inr b2, s3)"
    "inv s3" "view s3 = view s" using FindByKey_exact [OF s2(2) assms(2)] unfolding s2(3) b2_def by blast
  let ?t = "if b1 then s2 else s3"
  have "FindByID ord c p cid ifn s = (b1 \<or> b2, snd (mutexUnlock c ?t))"
    using s2(1) s3(1) l by (cases b1) (simp_all add: FindByID_def Let_def etcd_owner_def)
  then have "FindByID ord c p cid ifn s =
      (\<exists>k v. HasPrefix k p \<and> view s k = Some v \<and> (v = etcd_owner cid ifn \<or> v = TrimSpace cid),
       snd (mutexUnlock c ?t))"
    unfolding b1_def b2_def by auto
  moreover have "inv (snd (mutexUnlock c ?t)) \<and> view (snd (mutexUnlock c ?t)) = view s"
    using mutex_unlock [of ?t "fst (mutexUnlock c ?t)" "snd (mutexUnlock c ?t)"] s2 s3 by simp
  ultimately show thesis using that by blast
qed

end

context owner_node
begin

lemma laws:
  "owner_store (etcd_ops ord c st) inv' (\<lambda>s. etcd_held (view s) (keyPrefix st)) etcd_owner etcd_releases cid ifn"
  by (rule onode.owner_store_axioms)

text \<open>\<open>Check\<close> finds a container that holds an address under its own value, and only containers that hold one.\<close>

lemma FindByID_held:
  assumes "inv' s"
  shows "etcd_held (view s) (keyPrefix st) k = Some (etcd_owner cid ifn) \<Longrightarrow>
      fst (FindByID ord c (keyPrefix st) cid ifn s)"
    and "onode.mine s = {} \<Longrightarrow> \<not> fst (FindByID ord c (keyPrefix st) cid ifn s)"
proof -
  let ?p = "keyPrefix st"
  have i: "inv s" using assms by simp
  have f: "fst (FindByID ord c ?p cid ifn s) \<longleftrightarrow>
      (\<exists>k v. HasPrefix k ?p \<and> view s k = Some v \<and> (v = etcd_owner cid ifn \<or> v = TrimSpace cid))"
    by (rule FindByID_exact [OF i order, of ?p cid ifn]) simp
  show "fst (FindByID ord c ?p cid ifn s)" if "etcd_held (view s) ?p k = Some (etcd_owner cid ifn)"
    using that HasPrefix_net_key [of ?p k] unfolding f etcd_held_def
    by (intro exI [of _ "net_key ?p k"] exI [of _ "etcd_owner cid ifn"]) (simp split: if_splits)
  show "\<not> fst (FindByID ord c ?p cid ifn s)" if none: "onode.mine s = {}"
  proof
    assume "fst (FindByID ord c ?p cid ifn s)"
    then obtain k v where k: "HasPrefix k ?p" "view s k = Some v" "v = etcd_owner cid ifn \<or> v = TrimSpace cid"
      unfolding f by blast
    have r: "etcd_releases cid ifn v" using k(3) own by (auto simp: own_id_def etcd_releases_def)
    with assms k obtain t where t: "k = net_key ?p t" "\<not> HasPrefix t lastIPFilePrefix"
      unfolding clean_def by blast
    then have "etcd_held (view s) ?p t = Some v" using k(2) by (simp add: etcd_held_def)
    with r none show False using in_owned [of t "etcd_releases cid ifn"] by blast
  qed
qed

end

section \<open>Instances\<close>

interpretation memory_quiet: deleting_kv memory_client memory_inv map_of
  by unfold_locales (auto simp: memory_client_def)

lemma TrimSpace_owner:
  assumes "TrimSpace cid \<noteq> []" "ifn \<noteq> []" "\<not> is_space (last ifn)"
  shows "TrimSpace (etcd_owner cid ifn) = etcd_owner cid ifn"
  using TrimSpace_cases [of cid] assms by (intro TrimSpace_id) (simp_all add: etcd_owner_def LineBreak_def)

lemma own_idI:
  assumes "ch \<in> set (TrimSpace cid)" "\<not> text_char ch" "ifn \<noteq> []" "\<not> is_space (last ifn)"
  shows "own_id cid ifn"
proof -
  have "TrimSpace cid \<noteq> []" using assms(1) by auto
  note t = TrimSpace_owner [OF this assms(3,4)]
  have sub: "set (TrimSpace v) \<subseteq> set v" for v
    by (auto simp: TrimSpace_def dest!: set_dropWhileD)
  have "\<not> etcd_releases cid ifn (ip_String a)" for a
  proof
    assume "etcd_releases cid ifn (ip_String a)"
    then have "ch \<in> set (TrimSpace (ip_String a))" using assms(1) by (auto simp: etcd_releases_def)
    then have "ch \<in> set (ip_String a)" using sub by blast
    with ip_String_chars [of ch a] assms(2) show False by blast
  qed
  with t show ?thesis by (simp add: own_id_def etcd_releases_def etcd_owner_def)
qed

lemma own_id_sample: "own_id ''cont'' ''eth0''"
  by (rule own_idI [of "CHR ''o''"]) (simp_all add: text_char_def addr_char_def hex_val_def code_def TrimSpace_def is_space_def)

interpretation memory_node: owner_node memory_client memory_inv map_of "\<lambda>m. m" sample_store "''cont''" "''eth0''"
  by unfold_locales (rule own_id_sample)

end
