(* ===== verification/ServerClaims.thy ===== *)
theory ServerClaims
  imports EtcdServer
begin

text \<open>
  The properties of the address server: what \<open>Add\<close>, \<open>Del\<close> and \<open>Check\<close> promise over an etcd that one process
  uses at a time, and what the shared loop variable of \<open>NewIpamServer\<close> costs.
\<close>

lemma quiet_nodeI: "quiet_kv c I view \<Longrightarrow> map_order ord \<Longrightarrow> quiet_node c I view ord"
  by (simp add: quiet_node_def quiet_kv_def etcd_nodeI)

lemma owner_nodeI:
  "deleting_kv c I view \<Longrightarrow> map_order ord \<Longrightarrow> own_id cid ifn \<Longrightarrow> owner_node c I view ord cid ifn"
  by (simp add: owner_node_def owner_node_axioms_def quiet_nodeI deleting_kv_def)

context quiet_node
begin

lemma exclusive_laws:
  "exclusive_store (etcd_ops ord c st) inv (\<lambda>s. etcd_held (view s) (keyPrefix st)) etcd_owner etcd_releases"
  by (rule qnode.exclusive_store_axioms)

end

context owner_store
begin

lemma Del_mine:
  assumes "Del ops srv req s = (r, s')" "inv s" "formContainerID req = cid" "formIfName req = ifn"
    "finite (mine s)" "card (mine s) \<le> length (allocs srv)"
  shows "r = OkJSON () \<and> inv s' \<and> held s' = (\<lambda>k. if k \<in> mine s then None else held s k)"
  using release_all_mine [OF assms(2,5,6)] del_loop_release_all [OF assms(2), of "allocs srv"] assms(1,3,4)
  by (auto simp: Del_def)

text \<open>After a successful \<open>Add\<close> the container is found, and \<open>Del\<close> gives everything back.\<close>

lemma Add_granted:
  assumes "Add ops ordR file srv req s = Some (Returns (OkJSON res), s1)" "inv s" "wf_server srv"
    "formContainerID req = cid" "formIfName req = ifn" "allocs srv \<noteq> []"
  obtains k where "inv s1" "held s1 k = Some (owner cid ifn)"
proof -
  note ok = Add_ok [OF assms(1-3), unfolded assms(4,5)]
  then have "IPs res \<noteq> []" using assms(6) by auto
  then have "held s1 (config_text (hd (IPs res))) = Some (owner cid ifn)"
    using ok by (simp add: grants_def)
  with ok that show thesis by blast
qed

lemma Add_Del:
  assumes "Add ops ordR file srv req s = Some (Returns (OkJSON res), s1)" "inv s" "wf_server srv"
    "formContainerID req = cid" "formIfName req = ifn" "mine s = {}"
    "inv s2" "held s2 = held s1" "Del ops srv req s2 = (r, s3)"
  shows "r = OkJSON () \<and> inv s3 \<and> held s3 = held s"
proof -
  let ?ks = "map config_text (IPs res)"
  have ok: "fresh (held s) ?ks" "held s2 = grants ?ks (owner cid ifn) (held s)"
      "length (allocs srv) = length ?ks"
    using Add_ok [OF assms(1-3)] unfolding assms(4,5,8) by (auto dest: list_all2_lengthD)
  have m: "mine s2 = set ?ks"
    unfolding ok(2) using owned_grants [of "releases cid ifn", OF own_released ok(1)] assms(6) by simp
  then have "card (mine s2) \<le> length (allocs srv)" using card_length [of ?ks] ok(3) by simp
  from Del_mine [OF assms(9,7,4,5) _ this] m have "r = OkJSON ()" "inv s3"
    "held s3 = (\<lambda>k. if k \<in> set ?ks then None else held s2 k)" by simp_all
  with ungrant [OF ok(1)] show ?thesis unfolding ok(2) by simp
qed

end

context owner_node
begin

lemma Check_held:
  assumes "inv' s" "Check ord c srv req s = (r, s')" "srvStore srv = st"
    "formContainerID req = cid" "formIfName req = ifn"
  shows "inv' s' \<and> view s' = view s \<and>
    (etcd_held (view s) (keyPrefix st) k = Some (etcd_owner cid ifn) \<longrightarrow> r = OkJSON ()) \<and>
    (onode.mine s = {} \<longrightarrow> (\<exists>msg. r = ErrJSON StatusBadRequest msg))"
proof -
  have i: "inv s" using assms(1) by simp
  obtain b t where f: "FindByID ord c (keyPrefix st) cid ifn s = (b, t)" "inv t" "view t = view s"
    by (rule FindByID_exact [OF i order, of "keyPrefix st" cid ifn])
  then have "s' = t" "r = OkJSON () \<longleftrightarrow> b" "\<not> b \<longrightarrow> (\<exists>msg. r = ErrJSON StatusBadRequest msg)"
    using assms(2) unfolding Check_def assms(3-5) by (cases b; auto)+
  with FindByID_held [OF assms(1)] f assms(1) show ?thesis by auto
qed

end

lemma Add_requested:
  assumes "Add ops ordR resolv srv req s = Some (Returns (OkJSON res), s')" "\<forall>m. set (ordR m) = set m"
    "w \<in> set (Split (formIps req) CHR '','')"
  shows "ParseIP w \<noteq> [] \<and> canon (ParseIP w) \<in> (\<lambda>conf. IP (Address conf)) ` set (IPs res) \<and>
    list_ex (\<lambda>al. RangeSet_Contains (Rangeset al) (ParseIP w)) (allocs srv)"
  using add_loop_requests [OF Add_ok_loop [OF assms(1)] assms(2), of w "ParseIP w"]
    parse_requests_entries [of "formIps req"] assms(3) by auto

definition sample_server :: ipam_server where
  "sample_server = \<lparr>allocs = [sample_allocator], ipamConf = loaded_conf, srvStore = sample_store\<rparr>"

definition sample_form :: form where
  "sample_form = \<lparr>formIps = ''10.0.0.7'', formContainerID = ''cont'', formIfName = ''eth0''\<rparr>"

definition other_form :: form where
  "other_form = sample_form\<lparr>formIps := ''10.0.0.7,10.9.9.9''\<rparr>"

abbreviation sample_Add :: "form \<Rightarrow> gomap \<Rightarrow> (ipam_result response outcome \<times> gomap) option" where
  "sample_Add \<equiv> Add (etcd_ops (\<lambda>m. m) memory_client (srvStore sample_server)) (\<lambda>m. m) (Inl ErrKeyNotExists) sample_server"

definition sample_after :: gomap where
  "sample_after = [(''/n/a/10.0.0.7'', etcd_owner ''cont'' ''eth0''), (''/n/a/last_reserved_ip.0'', ''10.0.0.7'')]"

definition sample_result :: ipam_result where
  "sample_result = \<lparr>IPs = [\<lparr>Version = ''4'', Interface = None,
     Address = \<lparr>IP = [10, 0, 0, 7], Mask = [255, 255, 255, 0]\<rparr>, CfgGateway = [10, 0, 0, 1]\<rparr>],
     ResultRoutes = [], ResultDNS = empty_dns\<rparr>"

lemma sample_Add_ok: "sample_Add sample_form [] = Some (Returns (OkJSON sample_result), sample_after)"
  by code_simp

lemma sample_Add_error:
  "sample_Add other_form [] = Some (Returns (ErrJSON 400 ''errInfo''), [(''/n/a/last_reserved_ip.0'', ''10.0.0.7'')])"
  by code_simp

lemma sample_server_ok:
  "wf_server sample_server" "allocs sample_server \<noteq> []" "memory_inv []"
  "keyPrefix (srvStore sample_server) = ''/n/a''" "formContainerID sample_form = ''cont''"
  "formIfName sample_form = ''eth0''" "formContainerID other_form = ''cont''" "formIfName other_form = ''eth0''"
  by code_simp+

lemma no_content:
  "etcd_held Map.empty p = Map.empty" "owned P Map.empty = {}" "clean p cid ifn Map.empty"
  by (auto simp: etcd_held_def fun_eq_iff owned_def clean_def)

lemmas memory_server_laws =
  memory_quiet.quiet_kv_axioms memory_quiet.deleting_kv_axioms insertion_order.order own_id_sample

text \<open>
  C27. When \<open>Add\<close> answers with a result, it has one address for each allocator, each in the allocator's
  range set and not its gateway; all of them were free before, no two are the same, and what is held
  afterwards is what was held before and these addresses, for the container and interface of the request.
\<close>

theorem etcd_Add_ok:
  assumes "quiet_kv c I view" "map_order ord" "I s" "wf_server srv"
    "Add (etcd_ops ord c (srvStore srv)) ordR file srv req s = Some (Returns (OkJSON res), s')"
    "h = etcd_held (view s) (keyPrefix (srvStore srv))"
  shows "fresh h (map config_text (IPs res)) \<and>
    etcd_held (view s') (keyPrefix (srvStore srv)) =
      grants (map config_text (IPs res)) (etcd_owner (formContainerID req) (formIfName req)) h \<and>
    list_all2 (\<lambda>a conf. in_set_offer (Rangeset a) (Address conf, CfgGateway conf)) (allocs srv) (IPs res)"
  using exclusive_store.Add_ok [OF quiet_node.exclusive_laws [OF quiet_nodeI [OF assms(1,2)]] assms(5,3,4)]
    assms(6) by simp

theorem etcd_Add_ok_witness:
  "etcd_held (map_of sample_after) ''/n/a'' =
   grants (map config_text (IPs sample_result)) (etcd_owner ''cont'' ''eth0'') (etcd_held (map_of []) ''/n/a'')"
  using etcd_Add_ok [OF memory_server_laws(1,3) sample_server_ok(3,1) sample_Add_ok refl]
  by (simp add: sample_server_ok)

text \<open>
  C29. When \<open>Add\<close> answers with a result, every entry of the list of requested addresses parses, and is among
  the addresses handed out. So a request without addresses, whose list has one empty entry, never succeeds.
\<close>

theorem Add_all_requested:
  assumes "Add ops ordR file srv req s = Some (Returns (OkJSON res), s')" "\<forall>m. set (ordR m) = set m"
  shows "formIps req \<noteq> [] \<and> list_all (\<lambda>w. ParseIP w \<noteq> [] \<and>
    canon (ParseIP w) \<in> set (map (\<lambda>conf. IP (Address conf)) (IPs res))) (Split (formIps req) CHR '','')"
proof -
  have all: "ParseIP w \<noteq> [] \<and> canon (ParseIP w) \<in> (\<lambda>conf. IP (Address conf)) ` set (IPs res)"
    if "w \<in> set (Split (formIps req) CHR '','')" for w
    using Add_requested [OF assms that] by blast
  moreover have "formIps req \<noteq> []"
  proof
    assume "formIps req = []"
    then have "[] \<in> set (Split (formIps req) CHR '','')" by simp
    from all [OF this] show False by (simp)
  qed
  ultimately show ?thesis by (auto simp: list_all_iff)
qed

theorem Add_all_requested_witness: "canon (ParseIP ''10.0.0.7'') \<in> {[10, 0, 0, 7]}"
proof -
  have e: "Split (formIps sample_form) CHR '','' = [''10.0.0.7'']"
    "map (\<lambda>conf. IP (Address conf)) (IPs sample_result) = [[10, 0, 0, 7]]" by code_simp+
  show ?thesis using Add_all_requested [OF sample_Add_ok] unfolding e by simp
qed

text \<open>
  C7. For a container and interface that held no address: when \<open>Add\<close> answers with an error, the addresses held are
  those held before; whatever the loop reserved is released again, even after failed writes. (The ranges are well formed, listing and deleting the
  keys of etcd does not fail, and the container's value is recognised and stored under addresses only. A container that
  held an address before can lose it, since the rollback releases by the container.)
\<close>

theorem etcd_Add_rollback:
  assumes "deleting_kv c I view" "map_order ord" "own_id cid ifn" "wf_server srv"
    "formContainerID req = cid" "formIfName req = ifn" "p = keyPrefix (srvStore srv)"
    "I s" "clean p cid ifn (view s)" "owned (etcd_releases cid ifn) (etcd_held (view s) p) = {}"
    "Add (etcd_ops ord c (srvStore srv)) ordR file srv req s = Some (Returns (ErrJSON n d), s')"
  shows "etcd_held (view s') p = etcd_held (view s) p"
proof -
  note laws = owner_node.laws [OF owner_nodeI [OF assms(1-3)], of "srvStore srv"]
  show ?thesis
    using owner_store.Add_failed [OF laws assms(11) _ assms(4,5,6)] assms(7-10) by simp
qed

theorem etcd_Add_rollback_witness:
  "etcd_held (map_of [(''/n/a/last_reserved_ip.0'', ''10.0.0.7'')]) ''/n/a'' = etcd_held (map_of []) ''/n/a''"
  by (rule etcd_Add_rollback [OF memory_server_laws(2-4) sample_server_ok(1,7,8)
      sample_server_ok(4) [symmetric] sample_server_ok(3) _ _ sample_Add_error])
    (simp_all add: no_content)

text \<open>
  C30. For a container that holds at most as many addresses as the server has allocators, \<open>Del\<close> answers without an
  error and releases exactly the addresses of the container: every allocator releases one. (Listing and deleting the
  keys of etcd does not fail, and the container's value is recognised and stored under addresses only.)
\<close>

theorem etcd_Del_exact:
  assumes "deleting_kv c I view" "map_order ord" "own_id cid ifn"
    "formContainerID req = cid" "formIfName req = ifn" "p = keyPrefix (srvStore srv)"
    "I s" "clean p cid ifn (view s)" "mine = owned (etcd_releases cid ifn) (etcd_held (view s) p)"
    "finite mine" "card mine \<le> length (allocs srv)"
    "Del (etcd_ops ord c (srvStore srv)) srv req s = (r, s')"
  shows "r = OkJSON () \<and> etcd_held (view s') p = (\<lambda>k. if k \<in> mine then None else etcd_held (view s) p k)"
proof -
  note laws = owner_node.laws [OF owner_nodeI [OF assms(1-3)], of "srvStore srv"]
  show ?thesis
    using owner_store.Del_mine [OF laws assms(12) _ assms(4,5)] assms(7-11) unfolding assms(6,9) by simp
qed

lemma sample_Del:
  "Del (etcd_ops (\<lambda>m. m) memory_client (srvStore sample_server)) sample_server sample_form sample_after = (OkJSON (), [(''/n/a/last_reserved_ip.0'', ''10.0.0.7'')])"
  by code_simp

lemma sample_after_map:
  "map_of sample_after = Map.empty(last_key ''/n/a'' ''0'' \<mapsto> ip_String [10, 0, 0, 7],
     ip_key ''/n/a'' [10, 0, 0, 7] \<mapsto> etcd_owner ''cont'' ''eth0'')"
proof -
  have "last_key ''/n/a'' ''0'' = ''/n/a/last_reserved_ip.0''" "ip_String [10, 0, 0, 7] = ''10.0.0.7''"
    "ip_key ''/n/a'' [10, 0, 0, 7] = ''/n/a/10.0.0.7''" by code_simp+
  then show ?thesis by (simp add: sample_after_def)
qed

lemma sample_after_held:
  "etcd_held (map_of sample_after) ''/n/a'' = [ip_String [10, 0, 0, 7] \<mapsto> etcd_owner ''cont'' ''eth0'']"
  by (simp add: sample_after_map no_content)

lemma sample_after_clean: "clean ''/n/a'' ''cont'' ''eth0'' (map_of sample_after)"
  unfolding sample_after_map by (intro clean_ip_key clean_last_key own_id_sample no_content(3))

theorem etcd_Del_exact_witness:
  "etcd_held (map_of [(''/n/a/last_reserved_ip.0'', ''10.0.0.7'')]) ''/n/a'' (ip_String [10, 0, 0, 7]) = None"
proof -
  have own: "etcd_releases ''cont'' ''eth0'' (etcd_owner ''cont'' ''eth0'')"
    using own_id_sample by (simp add: own_id_def)
  have mine: "owned (etcd_releases ''cont'' ''eth0'') (etcd_held (map_of sample_after) ''/n/a'') =
      {ip_String [10, 0, 0, 7]}"
    unfolding sample_after_held using own by (auto simp: in_owned split: if_splits)
  have e: "memory_inv sample_after" "1 \<le> length (allocs sample_server)" by code_simp+
  have "finite {ip_String [10, 0, 0, 7]}" "card {ip_String [10, 0, 0, 7]} \<le> length (allocs sample_server)"
    using e(2) by simp_all
  from etcd_Del_exact [OF memory_server_laws(2-4) sample_server_ok(5,6) sample_server_ok(4) [symmetric] e(1)
      sample_after_clean mine [symmetric] this sample_Del, THEN conjunct2, THEN fun_cong, of "ip_String [10, 0, 0, 7]"]
  show ?thesis by (simp add: fun_upd_def)
qed

text \<open>
  C28. The life of a container that held no address: after an \<open>Add\<close> that succeeded, \<open>Check\<close> answers that the container has an
  address, \<open>Del\<close> succeeds and gives back all of them, so that what is held is what was held before \<open>Add\<close>,
  and a \<open>Check\<close> after it answers with an error. (The ranges are well formed, listing and deleting the keys of etcd does not fail, and the
  container's value is recognised and stored under addresses only.)
\<close>

theorem etcd_lifecycle:
  assumes "deleting_kv c I view" "map_order ord" "own_id cid ifn" "wf_server srv" "allocs srv \<noteq> []"
    "formContainerID req = cid" "formIfName req = ifn" "p = keyPrefix (srvStore srv)"
    "I s" "clean p cid ifn (view s)" "owned (etcd_releases cid ifn) (etcd_held (view s) p) = {}"
    "Add (etcd_ops ord c (srvStore srv)) ordR file srv req s = Some (Returns (OkJSON res), s1)"
    "Check ord c srv req s1 = (r2, s2)" "Del (etcd_ops ord c (srvStore srv)) srv req s2 = (r3, s3)"
    "Check ord c srv req s3 = (r4, s4)"
  shows "r2 = OkJSON () \<and> r3 = OkJSON () \<and> etcd_held (view s3) p = etcd_held (view s) p \<and>
    (\<exists>msg. r4 = ErrJSON StatusBadRequest msg)"
proof -
  note node = owner_nodeI [OF assms(1-3)]
  note laws = owner_node.laws [OF node, of "srvStore srv"]
  have i: "I s \<and> clean (keyPrefix (srvStore srv)) cid ifn (view s)" using assms(8-10) by simp
  obtain k where k: "I s1 \<and> clean (keyPrefix (srvStore srv)) cid ifn (view s1)"
      "etcd_held (view s1) (keyPrefix (srvStore srv)) k = Some (etcd_owner cid ifn)"
    by (rule owner_store.Add_granted [OF laws assms(12) i assms(4,6,7,5)])
  note c1 = owner_node.Check_held [OF node k(1) assms(13) refl assms(6,7), of k]
  then have i2: "I s2 \<and> clean (keyPrefix (srvStore srv)) cid ifn (view s2)" by blast
  have "etcd_held (view s2) (keyPrefix (srvStore srv)) = etcd_held (view s1) (keyPrefix (srvStore srv))"
    using c1 by simp
  note d = owner_store.Add_Del [OF laws assms(12) i assms(4,6,7) assms(11) [unfolded assms(8)] i2 this assms(14)]
  then have i3: "I s3 \<and> clean (keyPrefix (srvStore srv)) cid ifn (view s3)" by simp
  note c2 = owner_node.Check_held [OF node i3 assms(15) refl assms(6,7), of k]
  have "\<exists>msg. r4 = ErrJSON StatusBadRequest msg" using c2 d assms(11) unfolding assms(8) by simp
  with c1 d k(2) show ?thesis unfolding assms(8) by simp
qed

theorem etcd_lifecycle_witness:
  "etcd_held (map_of [(''/n/a/last_reserved_ip.0'', ''10.0.0.7'')]) ''/n/a'' = etcd_held (map_of []) ''/n/a'' \<and>
   fst (Check (\<lambda>m. m) memory_client sample_server sample_form sample_after) = OkJSON ()"
proof -
  have "Check (\<lambda>m. m) memory_client sample_server sample_form sample_after = (OkJSON (), sample_after)"
    "Check (\<lambda>m. m) memory_client sample_server sample_form [(''/n/a/last_reserved_ip.0'', ''10.0.0.7'')] =
      (ErrJSON 400 ''host-local: Failed to find address added by container cont'',
       [(''/n/a/last_reserved_ip.0'', ''10.0.0.7'')])" by code_simp+
  note checks = this
  show ?thesis
    using etcd_lifecycle [OF memory_server_laws(2-4) sample_server_ok(1,2,5,6) sample_server_ok(4) [symmetric]
        sample_server_ok(3) _ _ sample_Add_ok checks(1) sample_Del checks(2)] checks(1)
    by (simp add: no_content)
qed

section \<open>The shared loop variable\<close>

text \<open>
  Every allocator that \<open>NewIpamServer\<close> makes works on the last of the configured range sets, so an
  \<open>Add\<close> succeeds only for requested addresses of that one.
\<close>

theorem NewIpamServer_last_range:
  assumes "NewIpamServer newClient newSession conf = Inr srv" "Ranges conf \<noteq> []"
    "Add ops ordR file srv req s = Some (Returns (OkJSON res), s')" "\<forall>m. set (ordR m) = set m"
  shows "allocs srv = map (NewIPAllocator (last (Ranges conf))) [0..<length (Ranges conf)] \<and>
    list_all (\<lambda>w. RangeSet_Contains (last (Ranges conf)) (ParseIP w)) (Split (formIps req) CHR '','')"
proof -
  have a: "allocs srv = map (NewIPAllocator (last (Ranges conf))) [0..<length (Ranges conf)]"
    using assms(1,2) range_loop_eq [of 0 "Ranges conf" "[]" "[]"]
    by (auto simp: NewIpamServer_def split: sum.splits)
  have "RangeSet_Contains (last (Ranges conf)) (ParseIP w)" if "w \<in> set (Split (formIps req) CHR '','')" for w
    using Add_requested [OF assms(3,4) that] unfolding a by (auto simp: list_ex_iff NewIPAllocator_def)
  with a show ?thesis by (simp add: list_all_iff)
qed

theorem NewIpamServer_last_range_witness: "RangeSet_Contains [sample_range'] (ParseIP ''10.0.0.7'')"
proof -
  have e: "NewIpamServer (Inr ()) (Inr ()) (loaded_conf\<lparr>ConfName := ''a'', PrefixKey := ''/n/''\<rparr>) =
      Inr (sample_server\<lparr>ipamConf := loaded_conf\<lparr>ConfName := ''a'', PrefixKey := ''/n/''\<rparr>\<rparr>)"
    "Ranges (loaded_conf\<lparr>ConfName := ''a'', PrefixKey := ''/n/''\<rparr>) = [[sample_range']]"
    "Split (formIps sample_form) CHR '','' = [''10.0.0.7'']" by code_simp+
  have "Add memory_ops (\<lambda>m. m) (Inl ErrKeyNotExists)
      (sample_server\<lparr>ipamConf := loaded_conf\<lparr>ConfName := ''a'', PrefixKey := ''/n/''\<rparr>\<rparr>) sample_form [] =
    Some (Returns (OkJSON sample_result), sample_after)" by code_simp
  from NewIpamServer_last_range [OF e(1) _ this] show ?thesis unfolding e(2,3) by simp
qed

end
