(* ===== verification/IpamAddr.thy ===== *)
theory IpamAddr
  imports GoNetText
begin

text \<open>
  Addresses as the older package \<open>pkg/ipam\<close> has them (\<open>ip.go\<close>, \<open>util.go\<close>): a Go string that is parsed
  at every use, with 32-bit arithmetic that wraps around. A text that does not parse, and an IPv6
  address, counts as 0. The lemmas relate the operations to natural numbers. \<open>GenerateMac\<close> has the
  three random bytes as its arguments.
\<close>

section \<open>util.go: bytes, numbers and texts\<close>

definition BytesToUint32 :: "byte list \<Rightarrow> u32" where
  "BytesToUint32 bs =
     (if length bs \<noteq> 4 then 0
      else push_bit 24 (ucast (bs ! 0)) OR push_bit 16 (ucast (bs ! 1)) OR
           push_bit 8 (ucast (bs ! 2)) OR ucast (bs ! 3))"

definition Uint32ToBytes :: "u32 \<Rightarrow> byte list" where
  "Uint32ToBytes n = [ucast (drop_bit 24 n), ucast (drop_bit 16 n), ucast (drop_bit 8 n), ucast n]"

type_synonym IP = string

definition IPToUint32 :: "IP \<Rightarrow> u32" where
  "IPToUint32 ipStr = BytesToUint32 (To4 (ParseIP ipStr))"

definition Uint32ToIP :: "u32 \<Rightarrow> IP" where
  "Uint32ToIP num = ip_String (Uint32ToBytes num)"

section \<open>ip.go: arithmetic and comparison\<close>

definition IP_Add :: "IP \<Rightarrow> u32 \<Rightarrow> IP" where
  "IP_Add ip n = Uint32ToIP (IPToUint32 ip + n)"

definition IP_Sub :: "IP \<Rightarrow> u32 \<Rightarrow> IP" where
  "IP_Sub ip n = Uint32ToIP (IPToUint32 ip - n)"

definition LessThan :: "IP \<Rightarrow> IP \<Rightarrow> bool" where
  "LessThan ip b = (BytesToUint32 (To4 (ParseIP ip)) < BytesToUint32 (To4 (ParseIP b)))"

definition GreaterThan :: "IP \<Rightarrow> IP \<Rightarrow> bool" where
  "GreaterThan ip b = (BytesToUint32 (To4 (ParseIP ip)) > BytesToUint32 (To4 (ParseIP b)))"

definition IP_Equal :: "IP \<Rightarrow> IP \<Rightarrow> bool" where
  "IP_Equal ip b = (BytesToUint32 (To4 (ParseIP ip)) = BytesToUint32 (To4 (ParseIP b)))"

section \<open>util.go: the ends of a network\<close>

text \<open>
  Both ignore the error of \<open>ParseCIDR\<close>; a network that is nil makes the next line panic. The shift
  counts are not negative for the masks that \<open>ParseCIDR\<close> makes.
\<close>

definition GetFirstIP :: "string \<Rightarrow> string outcome" where
  "GetFirstIP cidr =
     (case ParseCIDR cidr of
        None \<Rightarrow> Panics
      | Some (ip, ipnet) \<Rightarrow>
          (let (ones, bits) = mask_Size (Mask ipnet);
               start = BytesToUint32 (To4 ip) AND push_bit (nat (bits - ones)) (NOT 0)
           in Returns (ip_String (Uint32ToBytes (start + 1)))))"

definition GetLastIP :: "string \<Rightarrow> string outcome" where
  "GetLastIP cidr =
     (case ParseCIDR cidr of
        None \<Rightarrow> Panics
      | Some (ip, ipnet) \<Rightarrow>
          (let (ones, bits) = mask_Size (Mask ipnet);
               end' = (BytesToUint32 (To4 ip) AND push_bit (nat (bits - ones)) (NOT 0)) OR
                 drop_bit (nat ones) (NOT 0)
           in Returns (ip_String (Uint32ToBytes (end' - 1)))))"

section \<open>util.go: MAC addresses\<close>

definition DefaultMacPrefix :: string where
  "DefaultMacPrefix = ''02:42:AC''"

definition hexMap :: "byte \<Rightarrow> char" where
  "hexMap b = (if unat b \<le> 9 then char_of (unat b + 48) else ''ABCDEF'' ! (unat b - 10))"

definition byteToHexBytes :: "byte \<Rightarrow> string" where
  "byteToHexBytes b = [hexMap (drop_bit 4 b), hexMap (b AND 0x0f)]"

text \<open>\<open>crypto\<close> is the result of \<open>rand.Int(rand.Reader, max)\<close>, \<open>fallback\<close> that of \<open>mathrand.Int63\<close>.\<close>

definition RandInt64 :: "int \<Rightarrow> go_error + int \<Rightarrow> int \<Rightarrow> int" where
  "RandInt64 limit crypto fallback = (case crypto of Inl err \<Rightarrow> fallback mod limit | Inr n \<Rightarrow> n)"

definition GenerateMac :: "int \<Rightarrow> int \<Rightarrow> int \<Rightarrow> string" where
  "GenerateMac r1 r2 r3 =
     (let n1 = word_of_int r1; n2 = word_of_int r2; n3 = word_of_int r3 in
      DefaultMacPrefix @ '':'' @ byteToHexBytes n1 @ '':'' @ byteToHexBytes n2 @ '':'' @ byteToHexBytes n3)"

section \<open>The numbers behind the texts\<close>

lemma length_Uint32ToBytes [simp]: "length (Uint32ToBytes n) = 4"
  by (simp add: Uint32ToBytes_def)

lemma byte_bit [simp]: "8 \<le> n \<Longrightarrow> \<not> bit (b :: byte) n"
  using bit_imp_le_length [of b n] by auto

lemma BytesToUint32_ToBytes [simp]: "BytesToUint32 (Uint32ToBytes n) = n"
proof (rule bit_word_eqI)
  fix i assume i: "i < LENGTH(32)"
  consider "i < 8" | "8 \<le> i" "i < 16" | "16 \<le> i" "i < 24" | "24 \<le> i" "i < 32" using i by fastforce
  then show "bit (BytesToUint32 (Uint32ToBytes n)) i = bit n i"
    by cases (auto simp: BytesToUint32_def Uint32ToBytes_def bit_simps numeral_3_eq_3)
qed

lemma Uint32ToBytes_BytesTo: "length bs = 4 \<Longrightarrow> Uint32ToBytes (BytesToUint32 bs) = bs"
  by (drule length_4_cases)
    (auto simp: BytesToUint32_def Uint32ToBytes_def bit_simps intro!: bit_word_eqI)

lemma IPToUint32_ToIP [simp]: "IPToUint32 (Uint32ToIP n) = n"
  by (simp add: IPToUint32_def Uint32ToIP_def ParseIP_String4)

lemma Uint32ToIP_inj [simp]: "Uint32ToIP m = Uint32ToIP n \<longleftrightarrow> m = n"
  using IPToUint32_ToIP by metis

text \<open>The number of a text, and the texts that are the printed form of their number.\<close>

definition num :: "IP \<Rightarrow> nat" where
  "num ip = unat (IPToUint32 ip)"

definition canonical :: "IP \<Rightarrow> bool" where
  "canonical ip \<longleftrightarrow> ip = Uint32ToIP (IPToUint32 ip)"

named_theorems ip_num \<open>comparison and arithmetic of texts as numbers\<close>

lemma num_less: "num ip < 2 ^ 32"
  using unsigned_less [of "IPToUint32 ip"] by (simp add: num_def)

lemma LessThan_num [ip_num]: "LessThan a b \<longleftrightarrow> num a < num b"
  by (simp add: LessThan_def num_def IPToUint32_def word_less_nat_alt)

lemma GreaterThan_num [ip_num]: "GreaterThan a b \<longleftrightarrow> num b < num a"
  by (simp add: GreaterThan_def num_def IPToUint32_def word_less_nat_alt)

lemma IP_Equal_num [ip_num]: "IP_Equal a b \<longleftrightarrow> num a = num b"
  by (simp add: IP_Equal_def num_def IPToUint32_def word_unat_eq_iff)

lemma num_Add: "num a + 1 < 2 ^ 32 \<Longrightarrow> num (IP_Add a 1) = num a + 1"
  by (simp add: num_def IP_Add_def unat_word_ariths)

lemma num_Add_less [ip_num]: "num a < num b \<Longrightarrow> num (IP_Add a 1) = num a + 1"
  using num_less [of b] by (intro num_Add) simp

lemma num_Sub [ip_num]: "0 < num a \<Longrightarrow> num (IP_Sub a 1) = num a - 1"
  by (simp add: num_def IP_Sub_def unat_sub word_le_nat_alt)

lemma canonical_Add [simp]: "canonical (IP_Add a n)"
  by (simp add: canonical_def IP_Add_def)

lemma canonical_Sub [simp]: "canonical (IP_Sub a n)"
  by (simp add: canonical_def IP_Sub_def)

lemma canonical_ToIP [simp]: "canonical (Uint32ToIP n)"
  by (simp add: canonical_def)

lemma canonical_eq: "canonical a \<Longrightarrow> canonical b \<Longrightarrow> num a = num b \<Longrightarrow> a = b"
  by (metis canonical_def num_def word_unat_eq_iff)

section \<open>The first and the last address of a network\<close>

lemma leading_ones_from:
  "leading_ones k v n = (n + fst (leading_ones k v 0), snd (leading_ones k v 0))"
proof (induction k arbitrary: v n)
  case (Suc k)
  show ?case
    using Suc [of "push_bit 1 v" "Suc n"] Suc [of "push_bit 1 v" "Suc 0"]
    by (auto simp del: push_bit_of_1)
qed simp

lemma leading_ones_prefix:
  assumes "k < 8"
  shows "NOT (drop_bit k 255) \<noteq> (255 :: byte) \<and> leading_ones 8 (NOT (drop_bit k 255)) a = (a + k, 0)"
proof -
  have "list_all (\<lambda>k. NOT (drop_bit k 255) \<noteq> (255 :: byte) \<and>
      leading_ones 8 (NOT (drop_bit k 255)) 0 = (k, 0)) [0..<8]"
    by code_simp
  then have "NOT (drop_bit k 255) \<noteq> (255 :: byte) \<and> leading_ones 8 (NOT (drop_bit k 255)) 0 = (k, 0)"
    using assms by (simp only: list_all_iff) simp
  then show ?thesis by (simp add: leading_ones_from [of 8 _ a])
qed

lemma simpleMaskLength_prefix: "n \<le> 8 * l \<Longrightarrow> simpleMaskLength_from a (CIDRMask n l) = Some (a + n)"
proof (induction n l arbitrary: a rule: CIDRMask.induct)
  case (2 n l)
  then show ?case
    using leading_ones_prefix [of n a] by (cases "8 \<le> n") (auto simp: CIDRMask_0 list_all_iff)
qed simp

lemma ParseCIDR_text:
  assumes "length p = 4" "n \<le> 32"
  shows "ParseCIDR (ip_String p @ ''/'' @ itoa n) =
    Some (v4InV6Prefix @ p, \<lparr>IP = ip_Mask (v4InV6Prefix @ p) (CIDRMask n 4), Mask = CIDRMask n 4\<rparr>)"
proof -
  let ?s = "ip_String p @ ''/'' @ itoa n"
  have "takeWhile (\<lambda>c. c \<noteq> CHR ''/'') ?s = ip_String p"
    using ip_String_no_slash [of p] by (subst takeWhile_append2) auto
  moreover have "parseIPv4 (ip_String p) = Some (v4InV6Prefix @ p)"
    using parse_octets_dotted [OF assms(1)] assms(1) ip_String_To4 [of p]
    by (cases p) (auto simp: parseIPv4_def)
  moreover have "dtoi (itoa n) = (n, length (itoa n), True)"
    using dtoi_itoa [of n "[]"] assms(2) by simp
  ultimately show ?thesis using assms by (cases p) (simp_all add: ParseCIDR_def Let_def)
qed

lemma low_bits: "drop_bit n (NOT 0 :: u32) = mask (32 - n)"
  by (rule bit_word_eqI) (auto simp: bit_simps)

lemma unat_network: "unat (x AND push_bit k (NOT 0) :: u32) = unat x div 2 ^ k * 2 ^ k"
proof -
  have "x AND push_bit k (NOT 0) = push_bit k (drop_bit k x)"
    by (rule bit_word_eqI) (auto simp: bit_simps)
  then have "unat (x AND push_bit k (NOT 0)) = take_bit 32 (push_bit k (drop_bit k (unat x)))"
    by (simp only: unsigned_push_bit_eq unat_drop_bit_eq) simp
  also have "\<dots> = unat x div 2 ^ k * 2 ^ k mod 2 ^ 32"
    by (simp only: push_bit_eq_mult drop_bit_eq_div take_bit_eq_mod)
  also have "\<dots> = unat x div 2 ^ k * 2 ^ k"
    using unsigned_less [of x] by (intro mod_less le_less_trans [OF div_times_less_eq_dividend]) simp
  finally show ?thesis .
qed

lemma unat_broadcast:
  assumes "k \<le> 32"
  shows "unat ((x AND push_bit k (NOT 0)) OR mask k :: u32) = unat x div 2 ^ k * 2 ^ k + (2 ^ k - 1)"
proof -
  let ?a = "x AND push_bit k (NOT 0)"
  have "?a OR mask k = ?a + mask k"
    by (rule disjunctive_add [symmetric]) (auto simp: bit_simps)
  moreover have "unat (mask k :: u32) = 2 ^ k - 1"
    using assms uint_mask_eq [of k, where 'a = 32] unat_eq_nat_uint [of "mask k :: u32"]
    by (simp add: min_def nat_mask_eq) (simp add: mask_eq_exp_minus_1)
  moreover have "unat x div 2 ^ k * 2 ^ k + (2 ^ k - 1) < 2 ^ 32"
  proof -
    have "unat x div 2 ^ k < 2 ^ (32 - k)"
      using unsigned_less [of x] assms by (simp add: div_less_iff_less_mult flip: power_add)
    then have "(unat x div 2 ^ k + 1) * 2 ^ k \<le> 2 ^ (32 - k) * (2 :: nat) ^ k"
      by (intro mult_le_mono1) simp
    also have "\<dots> = 2 ^ 32" using assms by (simp flip: power_add)
    finally show ?thesis by (simp add: algebra_simps)
  qed
  ultimately show ?thesis using unat_network [of x k] by (simp add: unat_word_ariths)
qed

lemma mask_Size_prefix: "n \<le> 32 \<Longrightarrow> mask_Size (CIDRMask n 4) = (int n, 32)"
  using simpleMaskLength_prefix [of n 4 0] by (simp add: mask_Size_def)

definition network_base :: "nat \<Rightarrow> nat \<Rightarrow> nat" where
  "network_base k n = n div 2 ^ k * 2 ^ k"

lemma network_base_le:
  assumes "m < 2 ^ 32" "k \<le> 32"
  shows "network_base k m + 2 ^ k \<le> 2 ^ 32"
proof -
  have "m div 2 ^ k < 2 ^ (32 - k)"
    using assms by (simp add: div_less_iff_less_mult flip: power_add)
  then have "(m div 2 ^ k + 1) * 2 ^ k \<le> 2 ^ (32 - k) * (2 :: nat) ^ k"
    by (intro mult_le_mono1) simp
  also have "\<dots> = 2 ^ 32" using assms(2) by (simp flip: power_add)
  finally show ?thesis by (simp add: network_base_def algebra_simps)
qed

lemma network_ends:
  assumes "length p = 4" "1 \<le> k" "k \<le> 32" "cidr = ip_String p @ ''/'' @ itoa (32 - k)"
  obtains f l where "GetFirstIP cidr = Returns f" "GetLastIP cidr = Returns l" "canonical f" "canonical l"
    "num f = network_base k (num (ip_String p)) + 1" "num l = network_base k (num (ip_String p)) + 2 ^ k - 2"
proof -
  let ?x = "BytesToUint32 p"
  let ?base = "?x AND push_bit k (NOT 0)"
  have x: "num (ip_String p) = unat ?x" using assms(1) by (simp add: num_def IPToUint32_def ParseIP_String4)
  note cidr = ParseCIDR_text [OF assms(1), of "32 - k", folded assms(4)]
  have sz: "mask_Size (CIDRMask (32 - k) 4) = (int (32 - k), 32)" by (rule mask_Size_prefix) simp
  have k: "nat (32 - int (32 - k)) = k" "32 - (32 - k) = k" "32 - nat (32 - int k) = k"
    using assms(3) by simp_all
  let ?f = "Uint32ToIP (?base + 1)" and ?l = "Uint32ToIP ((?base OR mask k) - 1)"
  have "GetFirstIP cidr = Returns ?f" "GetLastIP cidr = Returns ?l"
    using cidr assms(1) sz k
    by (simp_all add: GetFirstIP_def GetLastIP_def Uint32ToIP_def low_bits Let_def)
  moreover
  have two: "2 \<le> (2 :: nat) ^ k" using power_increasing [OF assms(2), of "2 :: nat"] by simp
  have "unat ?x < 2 ^ 32" using unsigned_less [of ?x] by simp
  note le = network_base_le [OF this assms(3)]
  have "num ?f = network_base k (unat ?x) + 1"
    using unat_network [of ?x k] le two
    by (simp add: num_def unat_word_ariths network_base_def)
  moreover have "num ?l = network_base k (unat ?x) + 2 ^ k - 2"
    using unat_broadcast [OF assms(3), of ?x] two
    by (simp add: num_def unat_sub word_le_nat_alt network_base_def)
  ultimately show thesis using that x canonical_ToIP by metis
qed

section \<open>Properties\<close>

text \<open>
  C40. For a network with at least two addresses the pool that starts at \<open>GetFirstIP\<close> and ends at
  \<open>GetLastIP\<close> is everything between the network's own address and its broadcast address; it is
  empty exactly for a prefix of 31 bits.
\<close>

theorem GetFirstIP_GetLastIP:
  assumes "length p = 4" "1 \<le> k" "k \<le> 32" "base = network_base k (num (ip_String p))"
    "GetFirstIP (ip_String p @ ''/'' @ itoa (32 - k)) = Returns f"
    "GetLastIP (ip_String p @ ''/'' @ itoa (32 - k)) = Returns l"
  shows "{num f..num l} = {base<..<base + 2 ^ k - 1} \<and> (num f \<le> num l \<longleftrightarrow> 2 \<le> k) \<and>
    base \<le> num (ip_String p) \<and> num (ip_String p) < base + 2 ^ k"
proof -
  obtain f' l' where e: "GetFirstIP (ip_String p @ ''/'' @ itoa (32 - k)) = Returns f'"
    "GetLastIP (ip_String p @ ''/'' @ itoa (32 - k)) = Returns l'"
    "num f' = base + 1" "num l' = base + 2 ^ k - 2"
    by (rule network_ends [OF assms(1-3) refl]) (use assms(4) in auto)
  then have f: "num f = base + 1" "num l = base + 2 ^ k - 2" using assms(5,6) by auto
  have gap: "Suc b \<le> b + 4 * 2 ^ m - 2" for b m :: nat
  proof -
    have "1 \<le> (2 :: nat) ^ m" by simp
    then show ?thesis by linarith
  qed
  obtain j where j: "k = Suc j" using assms(2) by (cases k) auto
  have "{num f..num l} = {base<..<base + 2 ^ k - 1}" unfolding f j by auto
  moreover have "num f \<le> num l \<longleftrightarrow> 2 \<le> k"
    unfolding f j using gap by (cases j) auto
  moreover have "num (ip_String p) mod 2 ^ k < 2 ^ k" by simp
  then have "base \<le> num (ip_String p)" "num (ip_String p) < base + 2 ^ k"
    unfolding assms(4) network_base_def
    using div_mult_mod_eq [of "num (ip_String p)" "2 ^ k"] by linarith+
  ultimately show ?thesis by blast
qed

theorem GetFirstIP_GetLastIP_witness:
  "{num ''192.168.50.1''..num ''192.168.50.254''} =
   {network_base 8 (num ''192.168.50.7'')<..<network_base 8 (num ''192.168.50.7'') + 2 ^ 8 - 1}"
proof -
  have e: "ip_String [192, 168, 50, 7] = ''192.168.50.7''" "itoa (32 - 8) = ''24''"
    "''192.168.50.7'' @ ''/'' @ ''24'' = ''192.168.50.7/24''" by code_simp+
  have "ParseCIDR ''192.168.50.7/24'' =
      Some (v4InV6Prefix @ [192, 168, 50, 7], \<lparr>IP = [192, 168, 50, 0], Mask = [255, 255, 255, 0]\<rparr>)"
    "mask_Size [255, 255, 255, 0] = (24, 32)" by code_simp+
  note parsed = this
  have ends: "GetFirstIP ''192.168.50.7/24'' = Returns ''192.168.50.1''"
    "GetLastIP ''192.168.50.7/24'' = Returns ''192.168.50.254''"
    unfolding GetFirstIP_def GetLastIP_def parsed option.case prod.case ipnet.simps Let_def by code_simp+
  have "length ([192, 168, 50, 7] :: byte list) = 4" "1 \<le> (8 :: nat)" "8 \<le> (32 :: nat)" by simp_all
  from GetFirstIP_GetLastIP [OF this refl, unfolded e, OF ends] show ?thesis by (rule conjunct1)
qed

lemma hexMap_inj: "unat b < 16 \<Longrightarrow> unat c < 16 \<Longrightarrow> hexMap b = hexMap c \<Longrightarrow> b = c"
proof -
  assume b: "unat b < 16" and c: "unat c < 16" and e: "hexMap b = hexMap c"
  have code: "code (hexMap w) = (if unat w \<le> 9 then unat w + 48 else unat w + 55)" if "unat w < 16" for w
  proof (cases "unat w \<le> 9")
    case True
    then show ?thesis by (simp add: hexMap_def code_def)
  next
    case False
    with that have "unat w - 10 \<in> {0, 1, 2, 3, 4, 5}" "unat w = (unat w - 10) + 10" by auto
    then show ?thesis using False by (elim insertE emptyE) (simp_all add: hexMap_def code_def)
  qed
  have "unat b = unat c" using code [OF b] code [OF c] e by (auto split: if_splits)
  then show ?thesis by (simp add: word_unat_eq_iff)
qed

lemma nibbles: "unat (drop_bit 4 x) = unat x div 16" "unat (x AND 0x0f) = unat x mod 16" for x :: byte
proof -
  show "unat (drop_bit 4 x) = unat x div 16" by (simp only: unat_drop_bit_eq) (simp add: drop_bit_eq_div)
  have "(0x0f :: byte) = mask 4" by (simp add: mask_eq_exp_minus_1)
  then have "x AND 0x0f = take_bit 4 x" by (simp add: take_bit_eq_mask)
  then have "unat (x AND 0x0f) = take_bit 4 (unat x)" by (simp only: unsigned_take_bit_eq)
  then show "unat (x AND 0x0f) = unat x mod 16" by (simp add: take_bit_eq_mod)
qed

lemma byteToHexBytes_inj: "byteToHexBytes b = byteToHexBytes c \<longleftrightarrow> b = c"
proof
  assume e: "byteToHexBytes b = byteToHexBytes c"
  have small: "unat (drop_bit 4 x) < 16" "unat (x AND 0x0f) < 16" for x :: byte
    using unat_byte_less [of x] unfolding nibbles by (simp_all add: less_mult_imp_div_less)
  have "hexMap (drop_bit 4 b) = hexMap (drop_bit 4 c)" "hexMap (b AND 0x0f) = hexMap (c AND 0x0f)"
    using e by (simp_all add: byteToHexBytes_def)
  then have "drop_bit 4 b = drop_bit 4 c" "b AND 0x0f = c AND 0x0f" using hexMap_inj small by blast+
  then have "unat b div 16 = unat c div 16" "unat b mod 16 = unat c mod 16"
    unfolding nibbles [symmetric] by simp_all
  then have "unat b = unat c" by (metis div_mult_mod_eq)
  then show "b = c" by (simp add: word_unat_eq_iff)
qed simp

text \<open>
  A generated MAC address is the text of six bytes, upper-case hexadecimal with colons, 17
  characters, starting with the fixed prefix, and different random bytes give different addresses.
\<close>

definition mac_char :: "char \<Rightarrow> bool" where
  "mac_char ch \<longleftrightarrow> ch = CHR '':'' \<or> is_digit ch \<or> ch \<in> set ''ABCDEF''"

lemma hexMap_char: "unat b < 16 \<Longrightarrow> mac_char (hexMap b)"
proof (cases "unat b \<le> 9")
  case False
  moreover assume "unat b < 16"
  ultimately have "hexMap b \<in> set ''ABCDEF''" unfolding hexMap_def by (auto simp del: set_simps intro!: nth_mem)
  then show ?thesis by (simp add: mac_char_def)
qed (simp add: mac_char_def hexMap_def is_digit_def code_def)

theorem GenerateMac_format:
  assumes "0 \<le> r1" "r1 < 256" "0 \<le> r2" "r2 < 256" "0 \<le> r3" "r3 < 256"
    "0 \<le> q1" "q1 < 256" "0 \<le> q2" "q2 < 256" "0 \<le> q3" "q3 < 256"
  shows "length (GenerateMac r1 r2 r3) = 17 \<and> HasPrefix (GenerateMac r1 r2 r3) DefaultMacPrefix \<and>
    list_all mac_char (GenerateMac r1 r2 r3) \<and>
    (GenerateMac r1 r2 r3 = GenerateMac q1 q2 q3 \<longleftrightarrow> r1 = q1 \<and> r2 = q2 \<and> r3 = q3)"
proof (intro conjI)
  show "length (GenerateMac r1 r2 r3) = 17"
    by (simp add: GenerateMac_def DefaultMacPrefix_def byteToHexBytes_def Let_def)
  show "HasPrefix (GenerateMac r1 r2 r3) DefaultMacPrefix"
    by (auto simp: GenerateMac_def HasPrefix_iff Let_def)
  have "unat (drop_bit 4 x) < 16" "unat (x AND 0x0f) < 16" for x :: byte
    using unat_byte_less [of x] unfolding nibbles by (simp_all add: less_mult_imp_div_less)
  then have "list_all mac_char (byteToHexBytes x)" for x
    using hexMap_char by (simp add: byteToHexBytes_def)
  moreover have "list_all mac_char DefaultMacPrefix" by code_simp
  ultimately show "list_all mac_char (GenerateMac r1 r2 r3)"
    by (simp add: GenerateMac_def Let_def mac_char_def)
  have inj: "(word_of_int x :: byte) = word_of_int y \<longleftrightarrow> x = y" if "0 \<le> x" "x < 256" "0 \<le> y" "y < 256" for x y
    using that by (simp add: word_of_int_eq_iff take_bit_eq_mod)
  have two: "length (byteToHexBytes x) = 2" for x by (simp add: byteToHexBytes_def)
  show "GenerateMac r1 r2 r3 = GenerateMac q1 q2 q3 \<longleftrightarrow> r1 = q1 \<and> r2 = q2 \<and> r3 = q3"
    using assms inj by (simp add: GenerateMac_def Let_def two byteToHexBytes_inj)
qed

theorem GenerateMac_format_witness: "GenerateMac 17 0 3 \<noteq> GenerateMac 17 0 4 \<and> GenerateMac 17 0 3 = ''02:42:AC:11:00:03''"
proof -
  have "GenerateMac 17 0 3 = ''02:42:AC:11:00:03''" by code_simp
  with GenerateMac_format [of 17 0 3 17 0 4] show ?thesis by simp
qed

end
