(* ===== verification/IpamRanges.thy ===== *)
theory IpamRanges
  imports IpamAddr "HOL-Library.Multiset"
begin

text \<open>
  Lists of address ranges of \<open>pkg/ipam\<close> (\<open>ip.go\<close>, \<open>util.go\<close>) and what the operations on them do to the
  set of addresses they stand for (\<open>spans\<close>). The Go lists hold pointers; an operation changes only
  ranges of a list that its caller drops, so they are values here, and the nil list is the empty list.
  \<open>sortf\<close> is \<open>sort.Sort\<close> on the texts, whose order of equal numbers is not specified.
\<close>

record ip_range =
  Start :: IP
  End :: IP

definition IPRange_Contains :: "ip_range \<Rightarrow> IP \<Rightarrow> bool" where
  "IPRange_Contains r ip \<longleftrightarrow> \<not> GreaterThan (Start r) ip \<and> \<not> GreaterThan ip (End r)"

definition IPRangeList_Contains :: "ip_range list \<Rightarrow> IP \<Rightarrow> bool" where
  "IPRangeList_Contains iprl ip = list_ex (\<lambda>ipr. IPRange_Contains ipr ip) iprl"

fun range_list_loop :: "IP list \<Rightarrow> IP \<Rightarrow> ip_range \<Rightarrow> ip_range list \<Rightarrow> IP \<times> ip_range \<times> ip_range list" where
  "range_list_loop [] pre rg list = (pre, rg, list)"
| "range_list_loop (ip # ips) pre rg list =
     (if pre = [] then range_list_loop ips ip (rg\<lparr>Start := ip\<rparr>) list
      else if IP_Add pre 1 \<noteq> ip
      then range_list_loop ips ip \<lparr>Start = ip, End = []\<rparr> (list @ [rg\<lparr>End := pre\<rparr>])
      else range_list_loop ips ip rg list)"

definition GetIPRangeList :: "(IP list \<Rightarrow> IP list) \<Rightarrow> IP list \<Rightarrow> ip_range list" where
  "GetIPRangeList sortf ips =
     (if ips = [] then []
      else let (pre, rg, list) = range_list_loop (sortf ips) [] \<lparr>Start = [], End = []\<rparr> []
           in list @ [rg\<lparr>End := pre\<rparr>])"

definition splitRange :: "ip_range \<Rightarrow> ip_range \<Rightarrow> ip_range list" where
  "splitRange a b =
     (if LessThan (End b) (Start a) \<or> GreaterThan (Start b) (End a) then [a]
      else if (IP_Equal (Start a) (Start b) \<or> GreaterThan (Start a) (Start b)) \<and>
              (IP_Equal (End a) (End b) \<or> LessThan (End a) (End b)) then []
      else if (IP_Equal (Start a) (Start b) \<or> GreaterThan (Start a) (Start b)) \<and> GreaterThan (End a) (End b)
           then [\<lparr>Start = IP_Add (End b) 1, End = End a\<rparr>]
      else if (IP_Equal (End a) (End b) \<or> LessThan (End a) (End b)) \<and> LessThan (Start a) (Start b)
           then [\<lparr>Start = Start a, End = IP_Add (Start b) 1\<rparr>]
      else [\<lparr>Start = Start a, End = IP_Sub (Start b) 1\<rparr>, \<lparr>Start = IP_Add (End b) 1, End = End a\<rparr>])"

fun split_loop :: "IP \<Rightarrow> bool \<Rightarrow> ip_range list \<Rightarrow> bool \<times> ip_range list" where
  "split_loop ip split [] = (split, [])"
| "split_loop ip split (ipr # rest) =
     (if split then map_prod id ((#) ipr) (split_loop ip split rest)
      else if IP_Equal (Start ipr) (End ipr) \<and> IP_Equal (Start ipr) ip then split_loop ip True rest
      else if IP_Equal (Start ipr) ip
           then map_prod id ((#) \<lparr>Start = IP_Add ip 1, End = End ipr\<rparr>) (split_loop ip True rest)
      else if IPRange_Contains ipr ip
           then map_prod id (\<lambda>l. \<lparr>Start = Start ipr, End = IP_Sub ip 1\<rparr> # \<lparr>Start = IP_Add ip 1, End = End ipr\<rparr> # l)
                  (split_loop ip True rest)
      else map_prod id ((#) ipr) (split_loop ip split rest))"

definition SplitIPRangeList :: "ip_range list \<Rightarrow> IP \<Rightarrow> bool \<times> ip_range list" where
  "SplitIPRangeList iprl ip = split_loop ip False iprl"

fun insert_loop :: "IP \<Rightarrow> bool \<Rightarrow> ip_range list \<Rightarrow> ip_range list" where
  "insert_loop ip inserted [] = (if inserted then [] else [\<lparr>Start = ip, End = ip\<rparr>])"
| "insert_loop ip inserted (ipr # rest) =
     (if inserted \<or> LessThan (Start ipr) ip then ipr # insert_loop ip inserted rest
      else if GreaterThan (Start ipr) ip then \<lparr>Start = ip, End = ip\<rparr> # ipr # insert_loop ip True rest
      else insert_loop ip inserted rest)"

definition merge_step :: "ip_range list \<Rightarrow> ip_range \<Rightarrow> ip_range list" where
  "merge_step merged ipr =
     (if merged = [] then [ipr]
      else if IP_Equal (IP_Add (End (last merged)) 1) (Start ipr)
           then butlast merged @ [(last merged)\<lparr>End := End ipr\<rparr>]
           else merged @ [ipr])"

definition MergeIPRangeList :: "ip_range list \<Rightarrow> IP \<Rightarrow> bool \<times> ip_range list" where
  "MergeIPRangeList iprl ip =
     (if IPRangeList_Contains iprl ip then (False, [])
      else (True, foldl merge_step [] (insert_loop ip False iprl)))"

section \<open>The addresses of a list\<close>

definition span :: "ip_range \<Rightarrow> nat set" where
  "span r = {num (Start r)..num (End r)}"

definition spans :: "ip_range list \<Rightarrow> nat set" where
  "spans l = (\<Union>r \<in> set l. span r)"

lemma spans_simps [simp]:
  "spans [] = {}" "spans (r # l) = span r \<union> spans l" "spans (l @ m) = spans l \<union> spans m"
  by (auto simp: spans_def)

lemma Contains_span: "IPRange_Contains r ip \<longleftrightarrow> num ip \<in> span r"
  by (auto simp: IPRange_Contains_def span_def ip_num)

lemma Contains_spans: "IPRangeList_Contains l ip \<longleftrightarrow> num ip \<in> spans l"
  by (auto simp: IPRangeList_Contains_def list_ex_iff spans_def Contains_span)

text \<open>Well-formed lists: printed texts, no empty range, in order and without overlap.\<close>

definition range_ok :: "ip_range \<Rightarrow> bool" where
  "range_ok r \<longleftrightarrow> canonical (Start r) \<and> canonical (End r) \<and> num (Start r) \<le> num (End r)"

definition before :: "ip_range \<Rightarrow> ip_range \<Rightarrow> bool" where
  "before r q \<longleftrightarrow> num (End r) < num (Start q)"

definition ranges_ok :: "ip_range list \<Rightarrow> bool" where
  "ranges_ok l \<longleftrightarrow> list_all range_ok l \<and> sorted_wrt before l"

lemma ranges_ok_simps [simp]:
  "ranges_ok []"
  "ranges_ok (r # l) \<longleftrightarrow> range_ok r \<and> (\<forall>q \<in> set l. before r q) \<and> ranges_ok l"
  "ranges_ok (l @ m) \<longleftrightarrow> ranges_ok l \<and> ranges_ok m \<and> (\<forall>r \<in> set l. \<forall>q \<in> set m. before r q)"
  by (auto simp: ranges_ok_def sorted_wrt_append)

lemma span_ends: "range_ok r \<Longrightarrow> num (Start r) \<in> span r \<and> num (End r) \<in> span r"
  by (simp add: span_def range_ok_def)

section \<open>splitRange\<close>

text \<open>\<open>b\<close> covers the upper part of \<open>a\<close> and not all of it: the case in which the code adds for subtract.\<close>

definition covers_top :: "ip_range \<Rightarrow> ip_range \<Rightarrow> bool" where
  "covers_top a b \<longleftrightarrow> num (Start a) < num (Start b) \<and> num (Start b) \<le> num (End a) \<and> num (End a) \<le> num (End b)"

lemma splitRange_spans:
  assumes "range_ok a" "range_ok b" "\<not> covers_top a b"
  shows "ranges_ok (splitRange a b) \<and> spans (splitRange a b) = span a - span b"
proof -
  have le: "num (Start a) \<le> num (End a)" "num (Start b) \<le> num (End b)" using assms(1,2) by (auto simp: range_ok_def)
  consider (apart) "num (End b) < num (Start a) \<or> num (End a) < num (Start b)"
    | (inside) "num (Start b) \<le> num (Start a)" "num (End a) \<le> num (End b)"
    | (low) "num (Start b) \<le> num (Start a)" "num (Start a) \<le> num (End b)" "num (End b) < num (End a)"
    | (mid) "num (Start a) < num (Start b)" "num (End b) < num (End a)"
    using assms(3) le unfolding covers_top_def by linarith
  then show ?thesis
  proof cases
    case apart
    then show ?thesis using assms(1) by (auto simp: splitRange_def ip_num span_def)
  next
    case inside
    then show ?thesis using le by (auto simp: splitRange_def ip_num span_def)
  next
    case low
    then have "splitRange a b = [\<lparr>Start = IP_Add (End b) 1, End = End a\<rparr>]"
      using le by (auto simp: splitRange_def ip_num)
    with low assms(1) show ?thesis by (auto simp: range_ok_def span_def ip_num)
  next
    case mid
    then have "splitRange a b =
        [\<lparr>Start = Start a, End = IP_Sub (Start b) 1\<rparr>, \<lparr>Start = IP_Add (End b) 1, End = End a\<rparr>]"
      using le by (auto simp: splitRange_def ip_num)
    with mid assms(1) le show ?thesis by (auto simp: range_ok_def span_def ip_num before_def)
  qed
qed

lemma splitRange_top:
  assumes "covers_top a b" "num (Start b) < num (End b)"
  shows "spans (splitRange a b) = {num (Start a)..num (Start b) + 1}"
proof -
  have "splitRange a b = [\<lparr>Start = Start a, End = IP_Add (Start b) 1\<rparr>]"
    using assms by (auto simp: splitRange_def covers_top_def ip_num)
  with assms show ?thesis by (auto simp: span_def ip_num)
qed

section \<open>SplitIPRangeList\<close>

lemma split_loop_True: "split_loop ip True l = (True, l)"
  by (induction l) auto

text \<open>\<open>ip\<close> is the last address of a range with more addresses: the case that leaves an empty range.\<close>

definition ends_range :: "ip_range list \<Rightarrow> IP \<Rightarrow> bool" where
  "ends_range l ip = list_ex (\<lambda>r. num ip = num (End r) \<and> num (Start r) < num (End r)) l"

lemma ends_range_simps [simp]:
  "\<not> ends_range [] ip"
  "ends_range (r # l) ip \<longleftrightarrow> num ip = num (End r) \<and> num (Start r) < num (End r) \<or> ends_range l ip"
  by (auto simp: ends_range_def)

text \<open>What is left of the range that has the address.\<close>

definition cut :: "IP \<Rightarrow> ip_range \<Rightarrow> ip_range list" where
  "cut ip r =
     (if num (Start r) = num (End r) then []
      else if num (Start r) = num ip then [\<lparr>Start = IP_Add ip 1, End = End r\<rparr>]
      else [\<lparr>Start = Start r, End = IP_Sub ip 1\<rparr>, \<lparr>Start = IP_Add ip 1, End = End r\<rparr>])"

lemma split_loop_cut:
  "range_ok r \<Longrightarrow> split_loop ip False (r # l) =
     (if num ip \<in> span r then (True, cut ip r @ l) else map_prod id ((#) r) (split_loop ip False l))"
  by (auto simp: split_loop_True Contains_span ip_num span_def cut_def range_ok_def)

lemma spans_cut:
  assumes "num ip \<in> span r" "range_ok r" "num ip + 1 < 2 ^ 32"
  shows "spans (cut ip r) = span r - {num ip}"
proof -
  have "num (IP_Add ip 1) = num ip + 1" using assms(3) by (rule num_Add)
  then show ?thesis using assms(1,2)
    by (auto simp: cut_def span_def range_ok_def ip_num)
qed

lemma cut_ok:
  assumes "num ip \<in> span r" "range_ok r" "\<not> (num ip = num (End r) \<and> num (Start r) < num (End r))"
  shows "ranges_ok (cut ip r)"
proof (cases "num (Start r) = num (End r)")
  case False
  then have "num ip < num (End r)" using assms by (auto simp: span_def range_ok_def)
  then show ?thesis using assms by (auto simp: cut_def span_def range_ok_def before_def ip_num)
qed (simp add: cut_def)

text \<open>Order is a matter of the addresses, since no range is empty.\<close>

lemma before_spans:
  assumes "list_all range_ok l'" "spans l' \<subseteq> spans l" "\<forall>q \<in> set l. before r q"
  shows "\<forall>q \<in> set l'. before r q"
proof
  fix q assume q: "q \<in> set l'"
  then have "num (Start q) \<in> spans l'" using assms(1) span_ends [of q] by (auto simp: list_all_iff spans_def)
  then obtain p where "p \<in> set l" "num (Start q) \<in> span p" using assms(2) by (auto simp: spans_def)
  then show "before r q" using assms(3) by (auto simp: before_def span_def)
qed

lemma spans_before: "\<forall>q \<in> set l. before r q \<Longrightarrow> x \<in> spans l \<Longrightarrow> num (End r) < x"
  by (auto simp: spans_def span_def before_def)

lemma ranges_okD: "ranges_ok l \<Longrightarrow> list_all range_ok l"
  by (simp add: ranges_ok_def)

lemma split_loop_spans:
  assumes "num ip + 1 < 2 ^ 32"
  shows "ranges_ok l \<Longrightarrow> split_loop ip False l = (b, l') \<Longrightarrow>
    (b \<longleftrightarrow> num ip \<in> spans l) \<and> spans l' = spans l - {num ip} \<and> (\<not> ends_range l ip \<longrightarrow> ranges_ok l')"
proof (induction l arbitrary: b l')
  case (Cons r l)
  have r: "range_ok r" "\<forall>q \<in> set l. before r q" "ranges_ok l" using Cons.prems(1) by auto
  show ?case
  proof (cases "num ip \<in> span r")
    case True
    then have l': "b" "l' = cut ip r @ l" using Cons.prems(2) split_loop_cut [OF r(1)] by auto
    have "num ip \<notin> spans l" using spans_before [OF r(2), of "num ip"] True by (auto simp: span_def)
    then have sp: "spans l' = spans (r # l) - {num ip}" using spans_cut [OF True r(1) assms] l'(2) by auto
    have "ranges_ok l'" if e: "\<not> ends_range (r # l) ip"
    proof -
      have c: "ranges_ok (cut ip r)" using cut_ok [OF True r(1)] e by simp
      have "\<forall>p \<in> set (cut ip r). num (End p) \<le> num (End r)"
        using True by (auto simp: cut_def span_def ip_num)
      then have "before p q" if "p \<in> set (cut ip r)" "q \<in> set l" for p q
        using that r(2) unfolding before_def by (meson le_less_trans)
      with c r(3) l'(2) show ?thesis by simp
    qed
    with l' sp True show ?thesis by auto
  next
    case False
    then obtain l1 where l1: "split_loop ip False l = (b, l1)" "l' = r # l1"
      using Cons.prems(2) split_loop_cut [OF r(1)] by (cases "split_loop ip False l") auto
    note ih = Cons.IH [OF r(3) l1(1)]
    have "ranges_ok l'" if "\<not> ends_range (r # l) ip"
    proof -
      have ok: "ranges_ok l1" using ih that by simp
      have "\<forall>q \<in> set l1. before r q"
        using ih by (intro before_spans [OF ranges_okD [OF ok] _ r(2)]) auto
      with ok r(1) l1(2) show ?thesis by simp
    qed
    with ih False l1(2) show ?thesis by auto
  qed
qed simp

lemma SplitIPRangeList_spans:
  assumes "SplitIPRangeList l ip = (b, l')" "ranges_ok l" "num ip + 1 < 2 ^ 32"
  shows "(b \<longleftrightarrow> num ip \<in> spans l) \<and> spans l' = spans l - {num ip} \<and> (\<not> ends_range l ip \<longrightarrow> ranges_ok l')"
  using split_loop_spans [OF assms(3,2)] assms(1) by (simp add: SplitIPRangeList_def)

text \<open>The case left out: the list keeps a range with its ends the wrong way round.\<close>

lemma split_loop_end:
  assumes "ranges_ok l" "ends_range l ip" "split_loop ip False l = (b, l')" "num ip + 1 < 2 ^ 32"
  shows "\<exists>r \<in> set l'. num (End r) < num (Start r)"
  using assms(1-3)
proof (induction l arbitrary: b l')
  case (Cons r l)
  have r: "range_ok r" "\<forall>q \<in> set l. before r q" "ranges_ok l" using Cons.prems(1) by auto
  have add: "num (IP_Add ip 1) = num ip + 1" using assms(4) by (rule num_Add)
  show ?case
  proof (cases "num ip \<in> span r")
    case True
    then have "\<not> ends_range l ip"
      using spans_before [OF r(2)] span_ends r(3)
      by (fastforce simp: ends_range_def list_ex_iff spans_def span_def ranges_ok_def list_all_iff)
    then have "num ip = num (End r)" "num (Start r) < num (End r)" using Cons.prems(2) by auto
    with True add show ?thesis
      using Cons.prems(3) split_loop_cut [OF r(1), of ip l] by (auto simp: cut_def)
  next
    case False
    obtain l1 where l1: "split_loop ip False l = (b, l1)" "l' = r # l1"
      using False Cons.prems(3) split_loop_cut [OF r(1)] by (cases "split_loop ip False l") auto
    have "ends_range l ip" using False Cons.prems(2) by (auto simp: span_def)
    from Cons.IH [OF r(3) this l1(1)] l1(2) show ?thesis by auto
  qed
qed simp

section \<open>MergeIPRangeList\<close>

lemma insert_loop_True: "insert_loop ip True l = l"
  by (induction l) auto

lemma insert_loop_spans:
  "ranges_ok l \<Longrightarrow> canonical ip \<Longrightarrow> num ip \<notin> spans l \<Longrightarrow>
   ranges_ok (insert_loop ip False l) \<and> spans (insert_loop ip False l) = insert (num ip) (spans l)"
proof (induction l)
  case Nil
  then show ?case by (simp add: range_ok_def span_def)
next
  case (Cons r l)
  have r: "range_ok r" "\<forall>q \<in> set l. before r q" "ranges_ok l" "num ip \<notin> spans l" "num ip \<notin> span r"
    using Cons.prems by auto
  show ?case
  proof (cases "num (Start r) < num ip")
    case True
    then have e: "num (End r) < num ip" using r(5) by (auto simp: span_def)
    note ih = Cons.IH [OF r(3) Cons.prems(2) r(4)]
    have "before r q" if "q \<in> set (insert_loop ip False l)" for q
    proof -
      have "num (Start q) \<in> insert (num ip) (spans l)"
        using ih that span_ends [of q] by (auto simp: ranges_ok_def list_all_iff spans_def)
      then show ?thesis using e spans_before [OF r(2)] by (auto simp: before_def)
    qed
    with ih r(1) True show ?thesis by (auto simp: ip_num)
  next
    case False
    then have s: "num ip < num (Start r)" using r(1,5) by (auto simp: span_def range_ok_def)
    have "before \<lparr>Start = ip, End = ip\<rparr> q" if "q \<in> set (r # l)" for q
    proof -
      have "num (End r) < num (Start q) \<or> q = r" using r(2) that by (auto simp: before_def)
      then show ?thesis using s r(1) by (auto simp: before_def range_ok_def)
    qed
    with s r Cons.prems(2) show ?thesis
      by (auto simp: ip_num insert_loop_True range_ok_def span_def)
  qed
qed

lemma merge_step_spans:
  assumes "ranges_ok (merged @ ipr # rest)"
  shows "ranges_ok (merge_step merged ipr @ rest) \<and>
    spans (merge_step merged ipr @ rest) = spans (merged @ ipr # rest)"
proof (cases "merged = [] \<or> \<not> IP_Equal (IP_Add (End (last merged)) 1) (Start ipr)")
  case True
  then show ?thesis using assms by (auto simp: merge_step_def)
next
  case False
  define m where "m = last merged"
  have mm: "merged = butlast merged @ [m]" using False by (simp add: m_def)
  have all: "ranges_ok (butlast merged @ [m] @ ipr # rest)" using assms mm by (metis append.assoc)
  then have b: "before m ipr" "range_ok m" "range_ok ipr" by auto
  then have adj: "num (Start ipr) = num (End m) + 1"
    using False num_Add_less [of "End m" "Start ipr"] by (auto simp: ip_num m_def before_def)
  have span: "span (m\<lparr>End := End ipr\<rparr>) = span m \<union> span ipr"
    using b adj by (auto simp: span_def range_ok_def)
  have step: "merge_step merged ipr = butlast merged @ [m\<lparr>End := End ipr\<rparr>]"
    using False by (simp add: merge_step_def m_def)
  have "range_ok (m\<lparr>End := End ipr\<rparr>)" using b adj by (auto simp: range_ok_def)
  with all have "ranges_ok (merge_step merged ipr @ rest)"
    unfolding step by (auto simp: before_def)
  moreover have "spans (merged @ ipr # rest) = spans (butlast merged @ [m] @ ipr # rest)"
    using mm by (metis append.assoc)
  ultimately show ?thesis unfolding step by (auto simp: span)
qed

lemma merge_fold_spans:
  "ranges_ok (merged @ l) \<Longrightarrow>
   ranges_ok (foldl merge_step merged l) \<and> spans (foldl merge_step merged l) = spans (merged @ l)"
proof (induction l arbitrary: merged)
  case (Cons r l)
  note step = merge_step_spans [OF Cons.prems]
  from Cons.IH [OF conjunct1 [OF step]] step show ?case by simp
qed simp

lemma MergeIPRangeList_spans:
  assumes "MergeIPRangeList l ip = (b, l')" "ranges_ok l" "canonical ip"
  shows "(b \<longleftrightarrow> num ip \<notin> spans l) \<and> (b \<longrightarrow> ranges_ok l' \<and> spans l' = insert (num ip) (spans l))"
  using insert_loop_spans [OF assms(2,3)] merge_fold_spans [of "[]" "insert_loop ip False l"] assms(1)
  by (auto simp: MergeIPRangeList_def Contains_spans split: if_splits)

section \<open>GetIPRangeList\<close>

text \<open>
  The three methods that \<open>sort.Sort\<close> asks for, and what it promises about them: it swaps elements until none
  is \<open>Less\<close> than one before it.
\<close>

definition IPList_Len :: "IP list \<Rightarrow> nat" where
  "IPList_Len ips = length ips"

definition IPList_Less :: "IP list \<Rightarrow> nat \<Rightarrow> nat \<Rightarrow> bool" where
  "IPList_Less ips i j = LessThan (ips ! i) (ips ! j)"

definition IPList_Swap :: "IP list \<Rightarrow> nat \<Rightarrow> nat \<Rightarrow> IP list" where
  "IPList_Swap ips i j = ips[i := ips ! j, j := ips ! i]"

lemma IPList_Swap_mset: "i < IPList_Len ips \<Longrightarrow> j < IPList_Len ips \<Longrightarrow> mset (IPList_Swap ips i j) = mset ips"
  unfolding IPList_Swap_def IPList_Len_def by (rule mset_swap)

definition sorts :: "(IP list \<Rightarrow> IP list) \<Rightarrow> bool" where
  "sorts f \<longleftrightarrow> (\<forall>ips. mset (f ips) = mset ips \<and>
     (\<forall>i j. i < j \<longrightarrow> j < IPList_Len (f ips) \<longrightarrow> \<not> IPList_Less (f ips) j i))"

lemma sortsD:
  assumes "sorts f"
  shows "set (f ips) = set ips" "sorted_wrt (\<lambda>a b. \<not> LessThan b a) (f ips)"
  using assms by (auto simp: sorts_def sorted_wrt_iff_nth_less IPList_Less_def IPList_Len_def dest: mset_eq_setD)

lemma sorts_sort_key: "sorts (sort_key num)"
proof -
  have "sorted_wrt (\<lambda>a b. \<not> LessThan b a) (sort_key num ips)" for ips
    using sorted_sort_key [of num ips] by (simp add: sorted_map ip_num not_less)
  then show ?thesis by (simp add: sorts_def sorted_wrt_iff_nth_less IPList_Less_def IPList_Len_def)
qed

lemma canonical_nonempty: "canonical ip \<Longrightarrow> ip \<noteq> []"
  using ParseIP_String4 [OF length_Uint32ToBytes] ParseIP_Nil
  by (metis append_is_Nil_conv canonical_def Uint32ToIP_def length_Uint32ToBytes list.size(3) zero_neq_numeral)

definition by_start :: "ip_range \<Rightarrow> ip_range \<Rightarrow> bool" where
  "by_start r q \<longleftrightarrow> num (Start r) \<le> num (Start q)"

lemma range_list_loop_spans:
  "range_list_loop ips pre rg list = (pre', rg', list') \<Longrightarrow> canonical pre \<Longrightarrow> canonical (Start rg) \<Longrightarrow>
   num (Start rg) \<le> num pre \<Longrightarrow> list_all canonical ips \<Longrightarrow>
   sorted_wrt (\<lambda>a b. \<not> LessThan b a) (pre # ips) \<Longrightarrow>
   list_all range_ok list \<Longrightarrow> sorted_wrt by_start (list @ [rg]) \<Longrightarrow>
   list_all range_ok (list' @ [rg'\<lparr>End := pre'\<rparr>]) \<and> sorted_wrt by_start (list' @ [rg'\<lparr>End := pre'\<rparr>]) \<and>
   spans (list' @ [rg'\<lparr>End := pre'\<rparr>]) = spans list \<union> {num (Start rg)..num pre} \<union> num ` set ips"
proof (induction ips arbitrary: pre rg list)
  case Nil
  then have "range_ok (rg\<lparr>End := pre\<rparr>)" by (simp add: range_ok_def)
  with Nil show ?case by (auto simp: span_def by_start_def sorted_wrt_append)
next
  case (Cons ip ips)
  have pre: "pre \<noteq> []" using canonical_nonempty [OF Cons.prems(2)] .
  have le: "num pre \<le> num ip" using Cons.prems(6) by (auto simp: ip_num)
  have tail: "canonical ip" "list_all canonical ips" "sorted_wrt (\<lambda>a b. \<not> LessThan b a) (ip # ips)"
    using Cons.prems(5,6) by auto
  show ?case
  proof (cases "IP_Add pre 1 = ip")
    case True
    have "num ip \<noteq> num pre"
    proof
      assume "num ip = num pre"
      then have "ip = pre" using canonical_eq tail(1) Cons.prems(2) by simp
      with True have "IPToUint32 pre + 1 = IPToUint32 pre" by (metis IP_Add_def IPToUint32_ToIP)
      then show False by simp
    qed
    with le have "num ip = num pre + 1" using True num_Add_less [of pre ip] by simp
    then have "{num (Start rg)..num ip} = insert (num ip) {num (Start rg)..num pre}"
      using Cons.prems(4) by auto
    moreover have "range_list_loop ips ip rg list = (pre', rg', list')"
      using Cons.prems(1) pre True by simp
    ultimately show ?thesis
      using Cons.IH [of ip rg list] Cons.prems(3,4,7,8) tail le by auto
  next
    case False
    let ?l = "list @ [rg\<lparr>End := pre\<rparr>]" and ?r = "\<lparr>Start = ip, End = []\<rparr>"
    have "range_list_loop ips ip ?r ?l = (pre', rg', list')" using Cons.prems(1) pre False by simp
    moreover have "range_ok (rg\<lparr>End := pre\<rparr>)" using Cons.prems(2-4) by (simp add: range_ok_def)
    then have "list_all range_ok ?l" using Cons.prems(7) by simp
    moreover have "sorted_wrt by_start (?l @ [?r])"
    proof -
      have "sorted_wrt by_start list" "\<forall>x \<in> set list. num (Start x) \<le> num (Start rg)"
        using Cons.prems(8) by (simp_all add: sorted_wrt_append, simp add: by_start_def)
      then show ?thesis using Cons.prems(4) le by (simp add: sorted_wrt_append) (auto simp: by_start_def)
    qed
    ultimately show ?thesis
      using Cons.IH [of ip ?r ?l] tail by (auto simp: span_def)
  qed
qed

lemma GetIPRangeList_spans:
  assumes "sorts sortf" "list_all canonical ips"
  shows "list_all range_ok (GetIPRangeList sortf ips) \<and> sorted_wrt by_start (GetIPRangeList sortf ips) \<and>
    spans (GetIPRangeList sortf ips) = num ` set ips"
proof (cases "ips = []")
  case False
  have srt: "set (sortf ips) = set ips" "sorted_wrt (\<lambda>a b. \<not> LessThan b a) (sortf ips)"
    using sortsD [OF assms(1)] by auto
  then obtain ip rest where f: "sortf ips = ip # rest" using False by (cases "sortf ips") auto
  have c: "canonical ip" "list_all canonical rest"
    using assms(2) srt(1) f by (auto simp: list_all_iff)
  obtain pre' rg' list' where
    l: "range_list_loop rest ip \<lparr>Start = ip, End = []\<rparr> [] = (pre', rg', list')" by (metis prod_cases3)
  then have "GetIPRangeList sortf ips = list' @ [rg'\<lparr>End := pre'\<rparr>]"
    using False f by (simp add: GetIPRangeList_def)
  with range_list_loop_spans [OF l c(1) _ _ c(2)] srt f c(1) show ?thesis by auto
qed (simp add: GetIPRangeList_def)

section \<open>Taking a list of ranges out of another\<close>

lemma splitRange_list:
  assumes "ranges_ok free" "range_ok b" "\<forall>a \<in> set free. \<not> covers_top a b"
  shows "ranges_ok (concat (map (\<lambda>a. splitRange a b) free)) \<and>
    spans (concat (map (\<lambda>a. splitRange a b) free)) = spans free - span b"
  using assms(1,3)
proof (induction free)
  case (Cons a free)
  let ?t = "concat (map (\<lambda>a. splitRange a b) free)"
  have hd: "ranges_ok (splitRange a b)" "spans (splitRange a b) = span a - span b"
    using splitRange_spans [of a b] Cons.prems assms(2) by auto
  have tl: "ranges_ok ?t" "spans ?t = spans free - span b" using Cons by auto
  have "before p q" if p: "p \<in> set (splitRange a b)" and q: "q \<in> set ?t" for p q
  proof -
    have "num (End p) \<in> span a" using hd p span_ends [of p] by (auto simp: ranges_ok_def list_all_iff spans_def)
    moreover have "before a q"
      using before_spans [OF ranges_okD [OF tl(1)], of free a] tl(2) Cons.prems(1) q by auto
    ultimately show ?thesis by (auto simp: before_def span_def)
  qed
  with hd tl show ?case by auto
qed simp

lemma splitRange_end:
  assumes "p \<in> set (splitRange a b)" "range_ok a" "range_ok b"
  shows "num (End p) = num (End a) \<or> num (End p) < num (Start b) \<or> covers_top a b"
  using assms by (auto simp: splitRange_def ip_num range_ok_def covers_top_def split: if_splits)

lemma split_all_spans:
  "ranges_ok free \<Longrightarrow> list_all range_ok reserved \<Longrightarrow> sorted_wrt by_start reserved \<Longrightarrow>
   \<forall>b \<in> set reserved. num (End b) < lim \<Longrightarrow>
   \<forall>a \<in> set free. num (End a) = lim \<or> (\<forall>b \<in> set reserved. num (End a) < num (Start b)) \<Longrightarrow>
   ranges_ok (foldl (\<lambda>free b. concat (map (\<lambda>a. splitRange a b) free)) free reserved) \<and>
   spans (foldl (\<lambda>free b. concat (map (\<lambda>a. splitRange a b) free)) free reserved) = spans free - spans reserved"
proof (induction reserved arbitrary: free)
  case (Cons b reserved)
  let ?f = "concat (map (\<lambda>a. splitRange a b) free)"
  have nt: "\<forall>a \<in> set free. \<not> covers_top a b" using Cons.prems(4,5) by (fastforce simp: covers_top_def)
  have b: "range_ok b" "list_all range_ok reserved" "sorted_wrt by_start reserved"
    "\<forall>b \<in> set reserved. num (End b) < lim" using Cons.prems(2-4) by auto
  note step = splitRange_list [OF Cons.prems(1) b(1) nt]
  have "\<forall>p \<in> set ?f. num (End p) = lim \<or> (\<forall>q \<in> set reserved. num (End p) < num (Start q))"
  proof
    fix p assume "p \<in> set ?f"
    then obtain a where a: "a \<in> set free" "p \<in> set (splitRange a b)" by auto
    then have "num (End p) = num (End a) \<or> num (End p) < num (Start b)"
      using splitRange_end [of p a b] b(1) nt Cons.prems(1) by (auto simp: ranges_ok_def list_all_iff)
    moreover have "\<forall>q \<in> set reserved. num (Start b) \<le> num (Start q)"
      using Cons.prems(3) by (simp add: by_start_def)
    ultimately show "num (End p) = lim \<or> (\<forall>q \<in> set reserved. num (End p) < num (Start q))"
      using Cons.prems(5) a(1) by fastforce
  qed
  from Cons.IH [OF conjunct1 [OF step] b(2-4) this] step show ?case by auto
qed simp

end
