(* ===== verification/Subnet.thy ===== *)
theory Subnet
  imports IpamRanges
begin

text \<open>
  The in-memory allocator of \<open>pkg/ipam\<close> (\<open>subnet.go\<close>): a subnet with its free and reserved ranges and the
  four maps between pods, addresses and MAC addresses. Every operation takes the mutex for its whole
  body, so it is one step. \<open>rnd\<close> is the triple of random numbers of \<open>GenerateMac\<close>. The invariant
  \<open>subnet_ok\<close> says that nothing assigned is free.
\<close>

record subnet =
  Name :: string
  CIDR :: ipnet
  FreeIPList :: "ip_range list"
  ReservedIPList :: "ip_range list"
  PodToIP :: "string \<rightharpoonup> IP"
  IPToPod :: "IP \<rightharpoonup> string"
  PodToMac :: "string \<rightharpoonup> string"
  MacToPod :: "string \<rightharpoonup> string"

definition ErrOutOfRange :: go_error where "ErrOutOfRange = ErrNew ''AddressOutOfRange''"
definition ErrConflict :: go_error where "ErrConflict = ErrNew ''ConflictError''"
definition ErrNoAvailable :: go_error where "ErrNoAvailable = ErrNew ''NoAvailableAddress''"
definition ErrInvalidCIDR :: go_error where "ErrInvalidCIDR = ErrNew ''CIDRInvalid''"

definition splitFreeWithReserve :: "subnet \<Rightarrow> subnet" where
  "splitFreeWithReserve s =
     s\<lparr>FreeIPList := foldl (\<lambda>freeList reserve. concat (map (\<lambda>a. splitRange a reserve) freeList))
        (FreeIPList s) (ReservedIPList s)\<rparr>"

definition NewSubnet ::
    "(IP list \<Rightarrow> IP list) \<Rightarrow> string \<Rightarrow> string \<Rightarrow> IP list \<Rightarrow> (go_error + subnet) outcome" where
  "NewSubnet sortf name cidrStr excludeIps =
     (case ParseCIDR cidrStr of
        None \<Rightarrow> Returns (Inl ErrInvalidCIDR)
      | Some (_, cidr) \<Rightarrow>
          bind_outcome (GetFirstIP cidrStr) (\<lambda>firstIP.
          bind_outcome (GetLastIP cidrStr) (\<lambda>lastIP.
            Returns (Inr (splitFreeWithReserve
              \<lparr>Name = name, CIDR = cidr, FreeIPList = [\<lparr>Start = firstIP, End = lastIP\<rparr>],
               ReservedIPList = GetIPRangeList sortf excludeIps, PodToIP = Map.empty, IPToPod = Map.empty,
               PodToMac = Map.empty, MacToPod = Map.empty\<rparr>)))))"

definition GetRandomMac :: "int \<times> int \<times> int \<Rightarrow> string \<Rightarrow> subnet \<Rightarrow> string \<times> subnet" where
  "GetRandomMac rnd pod s =
     (case PodToMac s pod of
        Some mac \<Rightarrow> (mac, s)
      | None \<Rightarrow>
          (let (r1, r2, r3) = rnd; mac = GenerateMac r1 r2 r3 in
           (mac, s\<lparr>PodToMac := (PodToMac s)(pod \<mapsto> mac), MacToPod := (MacToPod s)(mac \<mapsto> pod)\<rparr>)))"

definition GetStaticMac :: "string \<Rightarrow> string \<Rightarrow> subnet \<Rightarrow> go_error option \<times> subnet" where
  "GetStaticMac pod mac s =
     (if MacToPod s mac \<noteq> None then (Some ErrConflict, s)
      else (None, s\<lparr>PodToMac := (PodToMac s)(pod \<mapsto> mac), MacToPod := (MacToPod s)(mac \<mapsto> pod)\<rparr>))"

definition map_get :: "('k \<rightharpoonup> string) \<Rightarrow> 'k \<Rightarrow> string" where
  "map_get m k = (case m k of None \<Rightarrow> [] | Some v \<Rightarrow> v)"

definition GetRandomAddress ::
    "int \<times> int \<times> int \<Rightarrow> string \<Rightarrow> subnet \<Rightarrow> (IP \<times> string \<times> go_error option) \<times> subnet" where
  "GetRandomAddress rnd pod s =
     (case PodToIP s pod of
        Some ip \<Rightarrow> ((ip, map_get (PodToMac s) pod, None), s)
      | None \<Rightarrow>
          (case FreeIPList s of
             [] \<Rightarrow> (([], [], Some ErrNoAvailable), s)
           | freeRange # rest \<Rightarrow>
               (let ip = Start freeRange; (mac, s) = GetRandomMac rnd pod s;
                    s = (if Start freeRange = End freeRange then s\<lparr>FreeIPList := rest\<rparr>
                         else s\<lparr>FreeIPList := freeRange\<lparr>Start := IP_Add (Start freeRange) 1\<rparr> # rest\<rparr>)
                in ((ip, mac, None),
                    s\<lparr>IPToPod := (IPToPod s)(ip \<mapsto> pod), PodToIP := (PodToIP s)(pod \<mapsto> ip)\<rparr>))))"

text \<open>The second half of \<open>GetStaticAddress\<close>, after the MAC address.\<close>

definition static_ip :: "string \<Rightarrow> IP \<Rightarrow> subnet \<Rightarrow> go_error option \<times> subnet" where
  "static_ip pod ip s =
     (case IPToPod s ip of
        Some existPod \<Rightarrow> (if existPod \<noteq> pod then (Some ErrConflict, s) else (None, s))
      | None \<Rightarrow>
          (let given = s\<lparr>PodToIP := (PodToIP s)(pod \<mapsto> ip), IPToPod := (IPToPod s)(ip \<mapsto> pod)\<rparr> in
           if IPRangeList_Contains (ReservedIPList s) ip then (None, given)
           else
             (case SplitIPRangeList (FreeIPList s) ip of
                (True, newFreeList) \<Rightarrow> (None, given\<lparr>FreeIPList := newFreeList\<rparr>)
              | (False, _) \<Rightarrow> (Some ErrNoAvailable, s))))"

definition GetStaticAddress ::
    "int \<times> int \<times> int \<Rightarrow> string \<Rightarrow> IP \<Rightarrow> string \<Rightarrow> subnet \<Rightarrow>
     (IP \<times> string \<times> go_error option) \<times> subnet" where
  "GetStaticAddress rnd pod ip mac s =
     (if \<not> net_Contains (CIDR s) (ParseIP ip) then ((ip, mac, Some ErrOutOfRange), s)
      else if mac = [] then
        (let (mac, s1) = (case PodToMac s mac of Some m \<Rightarrow> (m, s) | None \<Rightarrow> GetRandomMac rnd pod s);
             (err, s2) = static_ip pod ip s1
         in ((ip, mac, err), s2))
      else
        (case GetStaticMac pod mac s of
           (Some err, s1) \<Rightarrow> ((ip, mac, Some err), s1)
         | (None, s1) \<Rightarrow> (let (err, s2) = static_ip pod ip s1 in ((ip, mac, err), s2))))"

definition release_mac :: "string \<Rightarrow> subnet \<Rightarrow> string \<times> subnet" where
  "release_mac pod s =
     (case PodToMac s pod of
        Some mac \<Rightarrow> (mac, s\<lparr>PodToMac := (PodToMac s)(pod := None), MacToPod := (MacToPod s)(mac := None)\<rparr>)
      | None \<Rightarrow> ([], s))"

definition ReleaseAddress :: "string \<Rightarrow> subnet \<Rightarrow> (IP \<times> string) \<times> subnet" where
  "ReleaseAddress pod s =
     (case PodToIP s pod of
        None \<Rightarrow> (([], []), s)
      | Some ip \<Rightarrow>
          (let s1 = s\<lparr>PodToIP := (PodToIP s)(pod := None), IPToPod := (IPToPod s)(ip := None)\<rparr>;
               (mac, s2) = release_mac pod s1
           in if \<not> net_Contains (CIDR s2) (ParseIP ip) then ((ip, mac), s2)
              else if IPRangeList_Contains (ReservedIPList s2) ip then ((ip, mac), s2)
              else
                (case MergeIPRangeList (FreeIPList s2) ip of
                   (True, newFreeList) \<Rightarrow> ((ip, mac), s2\<lparr>FreeIPList := newFreeList\<rparr>)
                 | (False, _) \<Rightarrow> ((ip, mac), s2))))"

definition ContainAddress :: "IP \<Rightarrow> subnet \<Rightarrow> bool" where
  "ContainAddress address s = (IPToPod s address \<noteq> None)"

definition GetPodAddress :: "string \<Rightarrow> subnet \<Rightarrow> IP \<times> string \<times> bool" where
  "GetPodAddress podName s =
     (let ip = map_get (PodToIP s) podName; mac = map_get (PodToMac s) podName
      in (ip, mac, ip \<noteq> [] \<and> mac \<noteq> []))"

section \<open>The invariant\<close>

definition subnet_ok :: "subnet \<Rightarrow> bool" where
  "subnet_ok s \<longleftrightarrow> ranges_ok (FreeIPList s) \<and>
     (\<forall>pod ip. PodToIP s pod = Some ip \<longrightarrow> IPToPod s ip = Some pod) \<and>
     (\<forall>ip pod. IPToPod s ip = Some pod \<longrightarrow> canonical ip \<and> num ip \<notin> spans (FreeIPList s)) \<and>
     spans (ReservedIPList s) \<inter> spans (FreeIPList s) = {}"

lemma subnet_okD:
  assumes "subnet_ok s"
  shows "ranges_ok (FreeIPList s)"
    and "PodToIP s pod = Some ip \<Longrightarrow> IPToPod s ip = Some pod"
    and "IPToPod s ip = Some pod \<Longrightarrow> canonical ip"
    and "IPToPod s ip = Some pod \<Longrightarrow> num ip \<notin> spans (FreeIPList s)"
    and "x \<in> spans (ReservedIPList s) \<Longrightarrow> x \<notin> spans (FreeIPList s)"
  using assms by (auto simp: subnet_ok_def)

text \<open>The MAC maps play no part in it.\<close>

definition same_ips :: "subnet \<Rightarrow> subnet \<Rightarrow> bool" where
  "same_ips s t \<longleftrightarrow> CIDR t = CIDR s \<and> FreeIPList t = FreeIPList s \<and> ReservedIPList t = ReservedIPList s \<and>
     PodToIP t = PodToIP s \<and> IPToPod t = IPToPod s"

lemma same_ips_ok: "same_ips s t \<Longrightarrow> subnet_ok t = subnet_ok s"
  by (simp add: same_ips_def subnet_ok_def)

lemma GetRandomMac_ips: "GetRandomMac rnd pod s = (mac, t) \<Longrightarrow> same_ips s t"
  by (auto simp: GetRandomMac_def same_ips_def Let_def split: option.splits prod.splits)

lemma GetStaticMac_ips: "GetStaticMac pod mac s = (err, t) \<Longrightarrow> same_ips s t"
  by (auto simp: GetStaticMac_def same_ips_def split: if_splits)

text \<open>Assigning an address that is no longer free keeps the invariant.\<close>

lemma assign_ok:
  assumes "subnet_ok s" "ranges_ok l" "spans l \<subseteq> spans (FreeIPList s)" "num ip \<notin> spans l" "canonical ip"
    "IPToPod s ip = None"
  shows "subnet_ok (s\<lparr>FreeIPList := l, PodToIP := (PodToIP s)(pod \<mapsto> ip), IPToPod := (IPToPod s)(ip \<mapsto> pod)\<rparr>)"
  using assms by (auto simp: subnet_ok_def)

lemma unassign_ok:
  assumes "subnet_ok s" "PodToIP s pod = Some a"
  shows "subnet_ok (s\<lparr>PodToIP := (PodToIP s)(pod := None), IPToPod := (IPToPod s)(a := None)\<rparr>)"
proof -
  have "b \<noteq> a" if "PodToIP s q = Some b" "q \<noteq> pod" for q b
    using subnet_okD(2) [OF assms(1) that(1)] subnet_okD(2) [OF assms] that(2) by auto
  with assms(1) show ?thesis unfolding subnet_ok_def by simp
qed

lemma take_first:
  assumes "ranges_ok (r # l)"
  shows "ranges_ok (if Start r = End r then l else r\<lparr>Start := IP_Add (Start r) 1\<rparr> # l) \<and>
    spans (if Start r = End r then l else r\<lparr>Start := IP_Add (Start r) 1\<rparr> # l) = spans (r # l) - {num (Start r)}"
proof (cases "Start r = End r")
  case True
  then have "num (Start r) \<notin> spans l" using spans_before [of l r "num (Start r)"] assms by auto
  with True assms show ?thesis by (auto simp: span_def)
next
  case False
  have r: "range_ok r" "\<forall>q \<in> set l. before r q" "ranges_ok l" using assms by auto
  then have less: "num (Start r) < num (End r)"
    using False canonical_eq [of "Start r" "End r"] by (auto simp: range_ok_def less_le)
  then have "range_ok (r\<lparr>Start := IP_Add (Start r) 1\<rparr>)" using r(1) by (auto simp: range_ok_def ip_num)
  moreover have "num (Start r) \<notin> spans l" using spans_before [OF r(2), of "num (Start r)"] less by auto
  moreover have "span (r\<lparr>Start := IP_Add (Start r) 1\<rparr>) = span r - {num (Start r)}"
    using less by (auto simp: span_def ip_num)
  ultimately show ?thesis using False r by (auto simp: before_def)
qed

lemma GetRandomAddress_ok:
  assumes "GetRandomAddress rnd pod s = ((ip, mac, err), t)" "subnet_ok s"
  shows "subnet_ok t \<and> (err = None \<longrightarrow> PodToIP t pod = Some ip) \<and>
    (err = None \<longrightarrow> PodToIP s pod = None \<longrightarrow> num ip \<in> spans (FreeIPList s)) \<and>
    (err \<noteq> None \<longleftrightarrow> PodToIP s pod = None \<and> spans (FreeIPList s) = {})"
proof (cases "PodToIP s pod")
  case (Some a)
  with assms show ?thesis by (auto simp: GetRandomAddress_def)
next
  case None
  show ?thesis
  proof (cases "FreeIPList s")
    case Nil
    with None assms show ?thesis by (auto simp: GetRandomAddress_def)
  next
    case (Cons r l)
    let ?l = "if Start r = End r then l else r\<lparr>Start := IP_Add (Start r) 1\<rparr> # l"
    obtain m s1 where m: "GetRandomMac rnd pod s = (m, s1)" by (cases "GetRandomMac rnd pod s")
    note i = GetRandomMac_ips [OF m]
    then have ok: "subnet_ok s1" and free: "FreeIPList s1 = r # l" "IPToPod s1 = IPToPod s" "PodToIP s1 = PodToIP s"
      using same_ips_ok [OF i] assms(2) Cons by (auto simp: same_ips_def)
    have r: "range_ok r" using subnet_okD(1) [OF ok] free(1) by simp
    then have in_free: "num (Start r) \<in> spans (FreeIPList s)" using span_ends [OF r] Cons by simp
    have unheld: "IPToPod s1 (Start r) = None"
      using subnet_okD(4) [OF assms(2)] in_free free(2) by (cases "IPToPod s (Start r)") auto
    have t: "ip = Start r" "err = None"
      "t = s1\<lparr>FreeIPList := ?l, PodToIP := (PodToIP s1)(pod \<mapsto> Start r), IPToPod := (IPToPod s1)(Start r \<mapsto> pod)\<rparr>"
      using assms(1) None Cons m by (auto simp: GetRandomAddress_def Let_def split: if_splits)
    have "subnet_ok t"
      unfolding t(3)
      using take_first [of r l] subnet_okD(1) [OF ok] free r unheld
      by (intro assign_ok [OF ok]) (auto simp: range_ok_def)
    with t None in_free show ?thesis by auto
  qed
qed

lemma static_ip_ok:
  assumes "static_ip pod ip s = (err, t)" "subnet_ok s" "canonical ip" "num ip + 1 < 2 ^ 32"
    "\<not> ends_range (FreeIPList s) ip"
  shows "subnet_ok t \<and> (err = None \<longrightarrow> IPToPod t ip = Some pod) \<and> (err \<noteq> None \<longrightarrow> t = s) \<and>
    (err = None \<longleftrightarrow> IPToPod s ip = Some pod \<or>
       IPToPod s ip = None \<and> num ip \<in> spans (ReservedIPList s) \<union> spans (FreeIPList s))"
proof (cases "IPToPod s ip")
  case (Some q)
  with assms show ?thesis by (auto simp: static_ip_def split: if_splits)
next
  case None
  obtain b l where sp: "SplitIPRangeList (FreeIPList s) ip = (b, l)"
    by (cases "SplitIPRangeList (FreeIPList s) ip")
  note split = SplitIPRangeList_spans [OF sp subnet_okD(1) [OF assms(2)] assms(4)]
  let ?given = "\<lambda>l. s\<lparr>FreeIPList := l, PodToIP := (PodToIP s)(pod \<mapsto> ip), IPToPod := (IPToPod s)(ip \<mapsto> pod)\<rparr>"
  consider (reserved) "num ip \<in> spans (ReservedIPList s)"
    | (free) "num ip \<notin> spans (ReservedIPList s)" b
    | (no) "num ip \<notin> spans (ReservedIPList s)" "\<not> b" by blast
  then show ?thesis
  proof cases
    case reserved
    then have "t = ?given (FreeIPList s)" "err = None"
      using assms(1) None by (auto simp: static_ip_def Contains_spans)
    moreover have "subnet_ok (?given (FreeIPList s))"
      using subnet_okD [OF assms(2)] reserved None assms(3) by (intro assign_ok [OF assms(2)]) auto
    ultimately show ?thesis using None reserved by simp
  next
    case free
    then have "t = ?given l" "err = None"
      using assms(1) None sp by (auto simp: static_ip_def Contains_spans)
    moreover have "subnet_ok (?given l)"
      using split assms(3,5) None by (intro assign_ok [OF assms(2)]) auto
    ultimately show ?thesis using None free split by simp
  next
    case no
    then show ?thesis using assms(1,2) None sp split by (auto simp: static_ip_def Contains_spans)
  qed
qed

lemma ReleaseAddress_ok:
  assumes "ReleaseAddress pod s = ((ip, mac), t)" "subnet_ok s"
  shows "subnet_ok t \<and> PodToIP t pod = None \<and>
    (\<forall>a. PodToIP s pod = Some a \<longrightarrow> ip = a \<and> IPToPod t a = None)"
proof (cases "PodToIP s pod")
  case None
  with assms show ?thesis by (auto simp: ReleaseAddress_def)
next
  case (Some a)
  define s1 where "s1 = s\<lparr>PodToIP := (PodToIP s)(pod := None), IPToPod := (IPToPod s)(a := None)\<rparr>"
  obtain m s2 where s2: "release_mac pod s1 = (m, s2)" by (cases "release_mac pod s1")
  then have same: "same_ips s1 s2" by (auto simp: same_ips_def release_mac_def split: option.splits)
  have ok1: "subnet_ok s1" unfolding s1_def by (rule unassign_ok [OF assms(2) Some])
  then have ok2: "subnet_ok s2" using same_ips_ok [OF same] by simp
  have held: "IPToPod s a = Some pod" using subnet_okD(2) [OF assms(2) Some] .
  have a: "canonical a" "num a \<notin> spans (FreeIPList s)" using subnet_okD(3,4) [OF assms(2) held] by auto
  obtain b l where mg: "MergeIPRangeList (FreeIPList s2) a = (b, l)" by (cases "MergeIPRangeList (FreeIPList s2) a")
  note merge = MergeIPRangeList_spans [OF mg subnet_okD(1) [OF ok2] a(1)]
  have f2: "FreeIPList s2 = FreeIPList s" "ReservedIPList s2 = ReservedIPList s"
    "IPToPod s2 = (IPToPod s)(a := None)" "PodToIP s2 = (PodToIP s)(pod := None)"
    using same by (simp_all add: same_ips_def s1_def)
  have t: "ip = a" "t = s2 \<or> b \<and> \<not> IPRangeList_Contains (ReservedIPList s2) a \<and> t = s2\<lparr>FreeIPList := l\<rparr>"
    using assms(1) Some s2 [unfolded s1_def] mg
    by (auto simp: ReleaseAddress_def split: if_splits bool.splits)
  have "subnet_ok (s2\<lparr>FreeIPList := l\<rparr>)" if b "\<not> IPRangeList_Contains (ReservedIPList s2) a"
  proof -
    have "num q \<noteq> num a" if "IPToPod s2 q = Some p" for q p
      using that f2(3) canonical_eq [of q a] subnet_okD(3) [OF ok2 that] a(1) by auto
    then show ?thesis using ok2 merge that by (auto simp: subnet_ok_def Contains_spans)
  qed
  with t ok2 f2 Some show ?thesis by auto
qed

lemma ReleaseAddress_free:
  assumes "ReleaseAddress pod s = (r, t)" "subnet_ok s" "PodToIP s pod = Some a"
  shows "spans (FreeIPList t) =
    (if net_Contains (CIDR s) (ParseIP a) \<and> num a \<notin> spans (ReservedIPList s) then insert (num a) (spans (FreeIPList s))
     else spans (FreeIPList s))"
proof -
  define s1 where "s1 = s\<lparr>PodToIP := (PodToIP s)(pod := None), IPToPod := (IPToPod s)(a := None)\<rparr>"
  obtain m s2 where s2: "release_mac pod s1 = (m, s2)" by (cases "release_mac pod s1")
  then have same: "same_ips s1 s2" by (auto simp: same_ips_def release_mac_def split: option.splits)
  have f2: "FreeIPList s2 = FreeIPList s" "ReservedIPList s2 = ReservedIPList s" "CIDR s2 = CIDR s"
    using same by (simp_all add: same_ips_def s1_def)
  have held: "IPToPod s a = Some pod" using subnet_okD(2) [OF assms(2,3)] .
  obtain b l where mg: "MergeIPRangeList (FreeIPList s) a = (b, l)" by (cases "MergeIPRangeList (FreeIPList s) a")
  from MergeIPRangeList_spans [OF mg subnet_okD(1) [OF assms(2)] subnet_okD(3) [OF assms(2) held]]
  have "b" "spans l = insert (num a) (spans (FreeIPList s))" using subnet_okD(4) [OF assms(2) held] by auto
  moreover have "t = (if net_Contains (CIDR s) (ParseIP a) \<and> num a \<notin> spans (ReservedIPList s) then s2\<lparr>FreeIPList := l\<rparr> else s2)"
    if b
    using assms(1,3) s2 [unfolded s1_def] mg that f2
    by (auto simp: ReleaseAddress_def Contains_spans split: if_splits)
  ultimately show ?thesis using f2 by simp
qed

lemma GetStaticAddress_ok:
  assumes "GetStaticAddress rnd pod ip mac s = ((ip', mac', err), t)" "subnet_ok s" "canonical ip"
    "num ip + 1 < 2 ^ 32" "\<not> ends_range (FreeIPList s) ip"
  shows "subnet_ok t \<and> (err = None \<longrightarrow> IPToPod t ip = Some pod)"
proof -
  have step: "subnet_ok t \<and> (err = None \<longrightarrow> IPToPod t ip = Some pod)"
    if "same_ips s s1" "static_ip pod ip s1 = (err, t)" for s1
    using static_ip_ok [OF that(2) _ assms(3,4)] same_ips_ok [OF that(1)] assms(2,5) that(1)
    by (simp add: same_ips_def)
  show ?thesis
  proof (cases "net_Contains (CIDR s) (ParseIP ip)")
    case False
    with assms(1,2) show ?thesis by (auto simp: GetStaticAddress_def)
  next
    case inside: True
    show ?thesis
    proof (cases "mac = []")
      case True
      let ?m = "case PodToMac s mac of Some m \<Rightarrow> (m, s) | None \<Rightarrow> GetRandomMac rnd pod s"
      obtain m s1 where m: "?m = (m, s1)" by (cases ?m)
      have "same_ips s s1"
        using m GetRandomMac_ips by (auto simp: same_ips_def split: option.splits)
      moreover have "static_ip pod ip s1 = (err, t)"
        using assms(1) inside True m by (auto simp: GetStaticAddress_def split: prod.splits)
      ultimately show ?thesis by (rule step)
    next
      case False
      obtain e s1 where m: "GetStaticMac pod mac s = (e, s1)" by (cases "GetStaticMac pod mac s")
      note i = GetStaticMac_ips [OF m]
      show ?thesis
      proof (cases e)
        case None
        then have "static_ip pod ip s1 = (err, t)"
          using assms(1) inside False m by (auto simp: GetStaticAddress_def split: prod.splits)
        with i show ?thesis by (rule step)
      next
        case (Some e')
        then have "t = s1" "err = Some e'"
          using assms(1) inside False m by (auto simp: GetStaticAddress_def)
        with same_ips_ok [OF i] assms(2) show ?thesis by simp
      qed
    qed
  qed
qed

section \<open>Histories\<close>

text \<open>A static request is a step when its text is a printed address that does not end a longer range.\<close>

inductive subnet_step :: "subnet \<Rightarrow> subnet \<Rightarrow> bool" where
  step_random: "GetRandomAddress rnd pod s = (r, t) \<Longrightarrow> subnet_step s t"
| step_static: "GetStaticAddress rnd pod ip mac s = (r, t) \<Longrightarrow> canonical ip \<Longrightarrow> num ip + 1 < 2 ^ 32 \<Longrightarrow>
    \<not> ends_range (FreeIPList s) ip \<Longrightarrow> subnet_step s t"
| step_release: "ReleaseAddress pod s = (r, t) \<Longrightarrow> subnet_step s t"

lemma subnet_step_ok: "subnet_step s t \<Longrightarrow> subnet_ok s \<Longrightarrow> subnet_ok t"
proof (induction rule: subnet_step.induct)
  case (step_random rnd pod s r t)
  then show ?case using GetRandomAddress_ok [of rnd pod s] by (cases r) auto
next
  case (step_static rnd pod ip mac s r t)
  then show ?case using GetStaticAddress_ok [of rnd pod ip mac s] by (cases r) auto
next
  case (step_release pod s r t)
  then show ?case using ReleaseAddress_ok [of pod s "fst r" "snd r" t] by simp
qed

lemma subnet_run_ok: "subnet_step\<^sup>*\<^sup>* s t \<Longrightarrow> subnet_ok s \<Longrightarrow> subnet_ok t"
  by (induction rule: rtranclp_induct) (auto intro: subnet_step_ok)

text \<open>What the constructor makes of a network of more than two addresses.\<close>

lemma NewSubnet_ok:
  assumes "NewSubnet sortf name (ip_String p @ ''/'' @ itoa (32 - k)) ips = Returns (Inr s)"
    "length p = 4" "2 \<le> k" "k \<le> 32" "sorts sortf" "base = network_base k (num (ip_String p))"
    "list_all (\<lambda>ip. canonical ip \<and> num ip < base + 2 ^ k - 2) ips"
  shows "subnet_ok s \<and> PodToIP s = Map.empty \<and> spans (ReservedIPList s) = num ` set ips \<and>
    spans (FreeIPList s) = {base<..<base + 2 ^ k - 1} - num ` set ips"
proof -
  let ?cidr = "ip_String p @ ''/'' @ itoa (32 - k)"
  obtain f l where e: "GetFirstIP ?cidr = Returns f" "GetLastIP ?cidr = Returns l" "canonical f" "canonical l"
    "num f = base + 1" "num l = base + 2 ^ k - 2"
    by (rule network_ends [OF assms(2) _ assms(4) refl]) (use assms(3,6) in auto)
  have "4 \<le> (2 :: nat) ^ k" using power_increasing [OF assms(3), of "2 :: nat"] by simp
  then have pool: "num f \<le> num l" "span \<lparr>Start = f, End = l\<rparr> = {base<..<base + 2 ^ k - 1}"
    unfolding span_def by (auto simp: e)
  let ?free = "[\<lparr>Start = f, End = l\<rparr>]" and ?reserved = "GetIPRangeList sortf ips"
  have res: "list_all range_ok ?reserved" "sorted_wrt by_start ?reserved" "spans ?reserved = num ` set ips"
    using GetIPRangeList_spans [OF assms(5), of ips] assms(7) by (auto simp: list_all_iff)
  have below: "\<forall>b \<in> set ?reserved. num (End b) < num l"
  proof
    fix b assume b: "b \<in> set ?reserved"
    then have "num (End b) \<in> spans ?reserved" using res(1) span_ends [of b] by (auto simp: list_all_iff spans_def)
    then have "num (End b) \<in> num ` set ips" unfolding res(3) .
    then show "num (End b) < num l" using assms(7) e(6) by (auto simp: list_all_iff)
  qed
  obtain n where s: "s = splitFreeWithReserve \<lparr>Name = name, CIDR = n, FreeIPList = ?free,
      ReservedIPList = ?reserved, PodToIP = Map.empty, IPToPod = Map.empty, PodToMac = Map.empty, MacToPod = Map.empty\<rparr>"
    using assms(1) e(1,2) by (auto simp: NewSubnet_def splitFreeWithReserve_def split: option.splits prod.splits)
  have "ranges_ok ?free" using e(3,4) pool(1) by (simp add: range_ok_def)
  from split_all_spans [OF this res(1,2) below] have
    "ranges_ok (FreeIPList s)" "spans (FreeIPList s) = span \<lparr>Start = f, End = l\<rparr> - num ` set ips"
    using res(3) unfolding s by (simp_all add: splitFreeWithReserve_def)
  moreover have "ReservedIPList s = ?reserved" "PodToIP s = Map.empty" "IPToPod s = Map.empty"
    unfolding s by (simp_all add: splitFreeWithReserve_def)
  ultimately show ?thesis using pool(2) res(3) by (auto simp: subnet_ok_def)
qed

section \<open>A sample subnet\<close>

lemma num_ToIP [simp]: "num (Uint32ToIP n) = unat n"
  by (simp add: num_def)

lemma Add_ToIP [simp]: "IP_Add (Uint32ToIP n) m = Uint32ToIP (n + m)"
  by (simp add: IP_Add_def)

lemma Sub_ToIP [simp]: "IP_Sub (Uint32ToIP n) m = Uint32ToIP (n - m)"
  by (simp add: IP_Sub_def)

definition pool29 :: subnet where
  "pool29 = \<lparr>Name = ''n'', CIDR = \<lparr>IP = [10, 0, 0, 0], Mask = [255, 255, 255, 248]\<rparr>,
     FreeIPList = [\<lparr>Start = Uint32ToIP 0x0A000001, End = Uint32ToIP 0x0A000006\<rparr>], ReservedIPList = [],
     PodToIP = Map.empty, IPToPod = Map.empty, PodToMac = Map.empty, MacToPod = Map.empty\<rparr>"

lemma texts29: "Uint32ToIP 0x0A000001 = ''10.0.0.1''" "Uint32ToIP 0x0A000003 = ''10.0.0.3''"
  "Uint32ToIP 0x0A000006 = ''10.0.0.6''" "Uint32ToIP 0x0A000002 = ''10.0.0.2''"
  by code_simp+

lemma cidr29: "net_Contains \<lparr>IP = [10, 0, 0, 0], Mask = [255, 255, 255, 248]\<rparr> (ParseIP (Uint32ToIP 0x0A000003))"
  "net_Contains \<lparr>IP = [10, 0, 0, 0], Mask = [255, 255, 255, 248]\<rparr> (ParseIP (Uint32ToIP 0x0A000002))"
  unfolding texts29 by code_simp+

lemma NewSubnet29: "NewSubnet (sort_key num) ''n'' ''10.0.0.0/29'' [] = Returns (Inr pool29)"
proof -
  have p: "ParseCIDR ''10.0.0.0/29'' = Some (v4InV6Prefix @ [10, 0, 0, 0], \<lparr>IP = [10, 0, 0, 0], Mask = [255, 255, 255, 248]\<rparr>)"
    "mask_Size [255, 255, 255, 248] = (29, 32)" by code_simp+
  have "GetFirstIP ''10.0.0.0/29'' = Returns ''10.0.0.1''" "GetLastIP ''10.0.0.0/29'' = Returns ''10.0.0.6''"
    unfolding GetFirstIP_def GetLastIP_def p option.case prod.case ipnet.simps Let_def by code_simp+
  then show ?thesis by (simp add: NewSubnet_def p pool29_def GetIPRangeList_def splitFreeWithReserve_def texts29)
qed

definition collide :: "subnet \<Rightarrow> subnet" where
  "collide s =
     (let s1 = snd (GetStaticAddress (1, 2, 3) ''p1'' ''10.0.0.3'' [] s);
          s2 = snd (GetStaticAddress (4, 5, 6) ''p2'' ''10.0.0.2'' [] s1);
          s3 = snd (GetRandomAddress (7, 8, 9) ''p3'' s2)
      in snd (GetRandomAddress (10, 11, 12) ''p4'' s3))"

lemmas subnet_ops =
  GetStaticAddress_def static_ip_def GetRandomAddress_def ReleaseAddress_def GetRandomMac_def GetStaticMac_def
  release_mac_def SplitIPRangeList_def MergeIPRangeList_def merge_step_def IPRange_Contains_def
  IPRangeList_Contains_def map_get_def ip_num cidr29 Let_def

section \<open>Properties\<close>

text \<open>
  C38. The pool of a new subnet of an IPv4 network with a prefix of at most 30 bits, when every excluded address lies below
  the last one of the pool: its free addresses are exactly the addresses strictly between the network's own and the
  broadcast address that are not excluded. (Excluding the last one leaves it free and adds the broadcast address.)
\<close>

theorem NewSubnet_pool:
  assumes "NewSubnet sortf name (ip_String p @ ''/'' @ itoa (32 - k)) ips = Returns (Inr s)"
    "length p = 4" "2 \<le> k" "k \<le> 32" "sorts sortf" "base = network_base k (num (ip_String p))"
    "list_all (\<lambda>ip. canonical ip \<and> num ip < base + 2 ^ k - 2) ips"
  shows "spans (FreeIPList s) = {base<..<base + 2 ^ k - 1} - num ` set ips"
  using NewSubnet_ok [OF assms] by blast

lemma pool29_cidr:
  "NewSubnet (sort_key num) ''n'' (ip_String [10, 0, 0, 0] @ ''/'' @ itoa (32 - 3)) [] = Returns (Inr pool29)"
proof -
  have "ip_String [10, 0, 0, 0] @ ''/'' @ itoa (32 - 3) = ''10.0.0.0/29''" by code_simp
  then show ?thesis using NewSubnet29 by (simp only:)
qed

theorem NewSubnet_pool_witness:
  "spans (FreeIPList pool29) =
   {network_base 3 (num (ip_String [10, 0, 0, 0]))<..<network_base 3 (num (ip_String [10, 0, 0, 0])) + 2 ^ 3 - 1}"
  using NewSubnet_pool [OF pool29_cidr _ _ _ sorts_sort_key refl] by simp

text \<open>
  C10. In every history of random requests, static requests and releases of a new subnet, where every
  static request is for a printed address (not 255.255.255.255) that does not end a longer free range, the IPv4 network has a prefix of at
  most 30 bits and every excluded address lies below the last one of the pool, two pods never have
  the same address, and no address that a pod has is free. (Without the first condition two pods can get the same one.)
\<close>

theorem Subnet_addresses_unique:
  assumes "NewSubnet sortf name (ip_String p @ ''/'' @ itoa (32 - k)) ips = Returns (Inr s)"
    "length p = 4" "2 \<le> k" "k \<le> 32" "sorts sortf"
    "list_all (\<lambda>ip. canonical ip \<and> num ip < network_base k (num (ip_String p)) + 2 ^ k - 2) ips"
    "subnet_step\<^sup>*\<^sup>* s t" "PodToIP t pod = Some a" "PodToIP t pod' = Some b"
  shows "(num a = num b \<longleftrightarrow> pod = pod') \<and> num a \<notin> spans (FreeIPList t)"
proof -
  have ok: "subnet_ok t"
    using subnet_run_ok [OF assms(7)] NewSubnet_ok [OF assms(1-5) refl assms(6)] by blast
  have held: "IPToPod t a = Some pod" "IPToPod t b = Some pod'"
    using subnet_okD(2) [OF ok] assms(8,9) by auto
  have "a = b" if "num a = num b"
    using canonical_eq [OF subnet_okD(3) [OF ok held(1)] subnet_okD(3) [OF ok held(2)] that] .
  with held subnet_okD(4) [OF ok held(1)] assms(8,9) show ?thesis by auto
qed

definition two_pods :: subnet where
  "two_pods = snd (GetRandomAddress (1, 2, 4) ''p2'' (snd (GetRandomAddress (1, 2, 3) ''p1'' pool29)))"

lemma two_pods_run: "subnet_step\<^sup>*\<^sup>* pool29 two_pods"
proof -
  let ?s = "snd (GetRandomAddress (1, 2, 3) ''p1'' pool29)"
  have "subnet_step pool29 ?s" "subnet_step ?s two_pods"
    unfolding two_pods_def by (rule step_random, rule surjective_pairing)+
  then show ?thesis by (meson r_into_rtranclp rtranclp.rtrancl_into_rtrancl)
qed

lemma two_pods_ips: "PodToIP two_pods ''p1'' = Some (Uint32ToIP 0x0A000001)" "PodToIP two_pods ''p2'' = Some (Uint32ToIP 0x0A000002)"
  by (simp_all add: two_pods_def pool29_def subnet_ops)

theorem Subnet_addresses_unique_witness:
  "num (Uint32ToIP 0x0A000001) \<noteq> num (Uint32ToIP 0x0A000002) \<and>
   num (Uint32ToIP 0x0A000001) \<notin> spans (FreeIPList two_pods)"
  using Subnet_addresses_unique [OF pool29_cidr _ _ _ sorts_sort_key _ two_pods_run two_pods_ips] by simp

text \<open>
  Taking a free address out of the pool and putting it back gives the same set of free addresses,
  in a well-formed list, if the address does not end a longer range.
\<close>

theorem Split_Merge_roundtrip:
  assumes "ranges_ok l" "canonical ip" "num ip + 1 < 2 ^ 32" "\<not> ends_range l ip" "num ip \<in> spans l"
    "SplitIPRangeList l ip = (b, l')" "MergeIPRangeList l' ip = (b', l'')"
  shows "b \<and> b' \<and> ranges_ok l'' \<and> spans l'' = spans l"
proof -
  note split = SplitIPRangeList_spans [OF assms(6,1,3)]
  with MergeIPRangeList_spans [OF assms(7) _ assms(2)] assms(4,5) show ?thesis by auto
qed

theorem Split_Merge_roundtrip_witness:
  "spans (snd (MergeIPRangeList (snd (SplitIPRangeList (FreeIPList pool29) (Uint32ToIP 0x0A000003))) (Uint32ToIP 0x0A000003))) =
   spans (FreeIPList pool29)"
proof -
  have "ranges_ok (FreeIPList pool29)" "\<not> ends_range (FreeIPList pool29) (Uint32ToIP 0x0A000003)"
    "num (Uint32ToIP 0x0A000003) \<in> spans (FreeIPList pool29)"
    by (simp_all add: pool29_def range_ok_def span_def)
  from Split_Merge_roundtrip [OF this(1) canonical_ToIP _ this(2,3) surjective_pairing surjective_pairing]
  show ?thesis by simp
qed

text \<open>
  \<open>splitRange\<close> takes exactly the addresses of \<open>b\<close> out of \<open>a\<close>, except when \<open>b\<close> covers the upper part of
  \<open>a\<close>: then the result still has the first two addresses of \<open>b\<close>.
\<close>

theorem splitRange_exact:
  assumes "range_ok a" "range_ok b" "num (Start b) < num (End b)"
  shows "spans (splitRange a b) =
    (if covers_top a b then (span a - span b) \<union> {num (Start b), num (Start b) + 1} else span a - span b)"
  using splitRange_spans [OF assms(1,2)] splitRange_top [OF _ assms(3), of a]
  by (auto simp: covers_top_def span_def)

theorem splitRange_exact_witness:
  "spans (splitRange \<lparr>Start = Uint32ToIP 1, End = Uint32ToIP 6\<rparr> \<lparr>Start = Uint32ToIP 4, End = Uint32ToIP 9\<rparr>) = {1..5}"
proof -
  let ?a = "\<lparr>Start = Uint32ToIP 1, End = Uint32ToIP 6\<rparr>" and ?b = "\<lparr>Start = Uint32ToIP 4, End = Uint32ToIP 9\<rparr>"
  have "range_ok ?a" "range_ok ?b" "covers_top ?a ?b" "num (Start ?b) < num (End ?b)"
    by (simp_all add: range_ok_def covers_top_def)
  then have "spans (splitRange ?a ?b) = (span ?a - span ?b) \<union> {num (Start ?b), num (Start ?b) + 1}"
    using splitRange_exact [of ?a ?b] by simp
  also have "\<dots> = {1..5}" by (auto simp: span_def)
  finally show ?thesis .
qed

text \<open>
  C39. In every history as in C10, where a static request is for a printed address that does not end a longer free
  range and excluded addresses lie below the last one of the pool, a released address is the one the pod had, and
  the pod has none afterwards. It is free again if it lies in the subnet and is not reserved; nothing else becomes
  free, and nothing at all if it is reserved. (After a static request that ends a longer range this fails:
  another pod can have the address.)
\<close>

theorem ReleaseAddress_returns:
  assumes "NewSubnet sortf name (ip_String p @ ''/'' @ itoa (32 - k)) ips = Returns (Inr s0)"
    "length p = 4" "2 \<le> k" "k \<le> 32" "sorts sortf"
    "list_all (\<lambda>ip. canonical ip \<and> num ip < network_base k (num (ip_String p)) + 2 ^ k - 2) ips"
    "subnet_step\<^sup>*\<^sup>* s0 s" "ReleaseAddress pod s = ((ip, mac), t)" "PodToIP s pod = Some a"
  shows "ip = a \<and> PodToIP t pod = None \<and> IPToPod t a = None \<and>
    spans (FreeIPList t) =
      (if net_Contains (CIDR s) (ParseIP a) \<and> num a \<notin> spans (ReservedIPList s)
       then insert (num a) (spans (FreeIPList s)) else spans (FreeIPList s))"
proof -
  have ok: "subnet_ok s"
    using subnet_run_ok [OF assms(7)] NewSubnet_ok [OF assms(1-5) refl assms(6)] by blast
  show ?thesis using ReleaseAddress_ok [OF assms(8) ok] ReleaseAddress_free [OF assms(8) ok assms(9)] assms(9) by blast
qed

theorem ReleaseAddress_returns_witness:
  "spans (FreeIPList (snd (ReleaseAddress ''p2'' two_pods))) =
   insert (num (Uint32ToIP 0x0A000002)) (spans (FreeIPList two_pods))"
proof -
  have "net_Contains (CIDR two_pods) (ParseIP (Uint32ToIP 0x0A000002))"
    "num (Uint32ToIP 0x0A000002) \<notin> spans (ReservedIPList two_pods)"
    by (simp_all add: two_pods_def pool29_def subnet_ops)
  moreover obtain ip mac t where t: "ReleaseAddress ''p2'' two_pods = ((ip, mac), t)" by (metis surj_pair)
  ultimately show ?thesis
    using ReleaseAddress_returns [OF pool29_cidr _ _ _ sorts_sort_key _ two_pods_run t two_pods_ips(2)] by simp
qed

text \<open>
  A static request with a MAC address that fails because another pod has the address registers the
  MAC address nevertheless, so that a second request with it fails with a conflict whatever the address.
\<close>

theorem GetStaticAddress_keeps_mac:
  assumes "GetStaticAddress rnd pod ip mac s = ((ip', mac', err), t)" "mac \<noteq> []" "MacToPod s mac = None"
    "net_Contains (CIDR s) (ParseIP ip)" "IPToPod s ip = Some other" "other \<noteq> pod"
    "GetStaticAddress rnd' pod ip2 mac t = ((ip2', mac2', err2), t2)" "net_Contains (CIDR s) (ParseIP ip2)"
  shows "err = Some ErrConflict \<and> MacToPod t mac = Some pod \<and> PodToIP t = PodToIP s \<and> err2 = Some ErrConflict"
proof -
  have t: "err = Some ErrConflict" "MacToPod t mac = Some pod" "PodToIP t = PodToIP s" "CIDR t = CIDR s"
    using assms(1-6) by (auto simp: GetStaticAddress_def GetStaticMac_def static_ip_def)
  with assms(2,7,8) show ?thesis by (auto simp: GetStaticAddress_def GetStaticMac_def)
qed

theorem GetStaticAddress_keeps_mac_witness:
  "MacToPod (snd (GetStaticAddress (0, 0, 0) ''p3'' (Uint32ToIP 0x0A000002) ''aa'' two_pods)) ''aa'' = Some ''p3''"
proof -
  let ?t = "GetStaticAddress (0, 0, 0) ''p3'' (Uint32ToIP 0x0A000002) ''aa'' two_pods"
  have "MacToPod two_pods ''aa'' = None" "net_Contains (CIDR two_pods) (ParseIP (Uint32ToIP 0x0A000002))"
    "IPToPod two_pods (Uint32ToIP 0x0A000002) = Some ''p2''"
    by (simp_all add: two_pods_def pool29_def subnet_ops GenerateMac_def DefaultMacPrefix_def)
  note held = this
  obtain ip' mac' err t where t: "?t = ((ip', mac', err), t)" by (metis surj_pair)
  obtain ip2 mac2 err2 t2 where
    t2: "GetStaticAddress (0, 0, 0) ''p3'' (Uint32ToIP 0x0A000003) ''aa'' t = ((ip2, mac2, err2), t2)" by (metis surj_pair)
  have "net_Contains (CIDR two_pods) (ParseIP (Uint32ToIP 0x0A000003))"
    by (simp add: two_pods_def pool29_def subnet_ops)
  from GetStaticAddress_keeps_mac [OF t _ held _ t2 this] show ?thesis by (simp add: t)
qed

text \<open>
  Without the condition on static requests two pods can get the same address: in a new subnet for
  10.0.0.0/29, a static request that ends a range leaves an empty range in the list of free ranges, and a
  random request takes an address from it that another pod has.
\<close>

lemma Subnet_collision:
  "NewSubnet (sort_key num) ''n'' ''10.0.0.0/29'' [] = Returns (Inr pool29) \<and>
   PodToIP (collide pool29) ''p1'' = Some ''10.0.0.3'' \<and> PodToIP (collide pool29) ''p4'' = Some ''10.0.0.3''"
proof (intro conjI)
  show "NewSubnet (sort_key num) ''n'' ''10.0.0.0/29'' [] = Returns (Inr pool29)" by (rule NewSubnet29)
  show "PodToIP (collide pool29) ''p1'' = Some ''10.0.0.3''" "PodToIP (collide pool29) ''p4'' = Some ''10.0.0.3''"
    unfolding texts29 [symmetric] collide_def pool29_def by (simp_all add: subnet_ops)
qed

end
