(* ===== verification/CniPlugin.thy ===== *)
theory CniPlugin
  imports ServerClaims
begin

text \<open>
  The CNI plugin (\<open>cmd/cni/plugin.go\<close>). What it does to the machine it does through other programs and
  libraries: netlink, network namespaces, \<open>ovs-vsctl\<close>, the daemon's socket, the JSON decoder. They are the
  parameter \<open>host\<close>, operations over the state \<open>'s\<close> of the machine; \<open>'b\<close> is the body of an HTTP answer.
  The commands, their order and every early return are the code's. A namespace is its path; closing
  one and logging are left out.
\<close>

record nlink =
  LinkName :: string
  HardwareAddr :: string

record cni_iface =
  IfaceName :: string
  IfaceMac :: string
  Sandbox :: string

record plugin_conf =
  PluginVersion :: string
  PluginDNS :: dns
  BridgeName :: string
  IsGW :: bool
  IsDefaultGW :: bool

record cni_result =
  ResVersion :: string
  Interfaces :: "cni_iface list"
  ResIPs :: "ip_config list"
  ResRoutes :: "route list"
  ResDNS :: dns

record cmd_args =
  ContainerID :: string
  Netns :: string
  ArgIfName :: string
  StdinData :: string

type_synonym params = "(string \<times> string) list"

record ('s, 'b) host =
  decodeConf :: "plugin_conf \<Rightarrow> string \<Rightarrow> go_error + plugin_conf"
  decodeResult :: "'b \<Rightarrow> go_error + ipam_result"
  decodePorts :: "string \<Rightarrow> go_error + string list list"
  getenv :: "string \<Rightarrow> string"
  linkByName :: "string \<Rightarrow> 's \<Rightarrow> (go_error + nlink) \<times> 's"
  linkSetUp :: "nlink \<Rightarrow> 's \<Rightarrow> (go_error + unit) \<times> 's"
  getNS :: "string \<Rightarrow> 's \<Rightarrow> (go_error + string) \<times> 's"
  enterNS :: "string \<Rightarrow> 's \<Rightarrow> (go_error + unit) \<times> 's"
  leaveNS :: "string \<Rightarrow> 's \<Rightarrow> 's"
  makeVeth :: "string \<Rightarrow> nat \<Rightarrow> 's \<Rightarrow> (go_error + nlink \<times> nlink) \<times> 's"
  ovs_vsctl :: "string list \<Rightarrow> 's \<Rightarrow> (string \<times> go_error option) \<times> 's"
  randInt :: "'s \<Rightarrow> nat \<times> 's"
  httpPost :: "string \<Rightarrow> params \<Rightarrow> 's \<Rightarrow> (go_error + nat \<times> (go_error + 'b)) \<times> 's"
  interfaceByName :: "string \<Rightarrow> 's \<Rightarrow> (go_error + nlink) \<times> 's"
  configureIface :: "string \<Rightarrow> cni_result \<Rightarrow> 's \<Rightarrow> (go_error + unit) \<times> 's"
  gratuitousArp :: "ip \<Rightarrow> nlink \<Rightarrow> 's \<Rightarrow> (go_error + unit) \<times> 's"
  delLink :: "string \<Rightarrow> 's \<Rightarrow> (go_error + unit) \<times> 's"
  printResult :: "cni_result \<Rightarrow> string \<Rightarrow> 's \<Rightarrow> (go_error + unit) \<times> 's"

section \<open>Early returns\<close>

text \<open>
  A piece of a command returns an error or a value, or panics. \<open>andThen\<close> is a call followed by
  \<open>if err != nil { return err }\<close>, \<open>wrapping\<close> the same with \<open>fmt.Errorf\<close> around the error.
\<close>

type_synonym ('s, 'a) act = "'s \<Rightarrow> (go_error + 'a) outcome \<times> 's"

definition call :: "('s \<Rightarrow> (go_error + 'a) \<times> 's) \<Rightarrow> ('s, 'a) act" where
  "call op s = (case op s of (r, s') \<Rightarrow> (Returns r, s'))"

definition done_with :: "'a \<Rightarrow> ('s, 'a) act" where
  "done_with x s = (Returns (Inr x), s)"

definition fails :: "go_error \<Rightarrow> ('s, 'a) act" where
  "fails e s = (Returns (Inl e), s)"

definition andThen :: "('s, 'a) act \<Rightarrow> ('a \<Rightarrow> ('s, 'b) act) \<Rightarrow> ('s, 'b) act" where
  "andThen m k s =
     (case m s of
        (Panics, s') \<Rightarrow> (Panics, s')
      | (Returns (Inl e), s') \<Rightarrow> (Returns (Inl e), s')
      | (Returns (Inr x), s') \<Rightarrow> k x s')"

definition wrapping :: "string \<Rightarrow> string list \<Rightarrow> ('s, 'a) act \<Rightarrow> ('s, 'a) act" where
  "wrapping fmt args m s =
     (case m s of
        (Returns (Inl e), s') \<Rightarrow> (Returns (Inl (Wrapf fmt args e)), s')
      | (r, s') \<Rightarrow> (r, s'))"

text \<open>\<open>netns.Do\<close>: the body runs in the namespace.\<close>

definition in_ns :: "('s, 'b) host \<Rightarrow> string \<Rightarrow> ('s, 'a) act \<Rightarrow> ('s, 'a) act" where
  "in_ns h ns body =
     andThen (call (enterNS h ns)) (\<lambda>_ s. case body s of (r, s') \<Rightarrow> (r, leaveNS h ns s'))"

section \<open>The parts of the commands\<close>

definition defaultBridgeName :: string where
  "defaultBridgeName = ''kubeovs-br''"

definition loadNetConf :: "('s, 'b) host \<Rightarrow> string \<Rightarrow> go_error + plugin_conf \<times> string" where
  "loadNetConf h bytes =
     (case decodeConf h \<lparr>PluginVersion = [], PluginDNS = empty_dns, BridgeName = defaultBridgeName,
             IsGW = False, IsDefaultGW = False\<rparr> bytes of
        Inl err \<Rightarrow> Inl (Wrapf ''failed to load netconf: %v'' [] err)
      | Inr n \<Rightarrow> Inr (n, PluginVersion n))"

definition bridgeByName :: "('s, 'b) host \<Rightarrow> string \<Rightarrow> ('s, nlink) act" where
  "bridgeByName h name = wrapping ''could not lookup %q: %v'' [name] (call (linkByName h name))"

definition getBridgeInterface :: "('s, 'b) host \<Rightarrow> ('s, cni_iface) act" where
  "getBridgeInterface h =
     andThen (wrapping ''failed to fetch bridge %q: %v'' [defaultBridgeName] (bridgeByName h defaultBridgeName))
       (\<lambda>br. done_with \<lparr>IfaceName = LinkName br, IfaceMac = HardwareAddr br, Sandbox = []\<rparr>)"

definition setupVeth :: "('s, 'b) host \<Rightarrow> string \<Rightarrow> string \<Rightarrow> ('s, cni_iface \<times> cni_iface) act" where
  "setupVeth h netns ifName =
     andThen (in_ns h netns (call (makeVeth h ifName 1500))) (\<lambda>(hostVeth, containerVeth).
     andThen (wrapping ''failed to lookup %q: %v'' [LinkName hostVeth] (call (linkByName h (LinkName hostVeth)))) (\<lambda>link.
       done_with
         (\<lparr>IfaceName = LinkName hostVeth, IfaceMac = HardwareAddr link, Sandbox = []\<rparr>,
          \<lparr>IfaceName = LinkName containerVeth, IfaceMac = HardwareAddr containerVeth, Sandbox = netns\<rparr>)))"

text \<open>The pod's namespace and name, with an error when the variable is empty.\<close>

definition pod_info_step :: "string \<Rightarrow> string \<times> string \<Rightarrow> string \<times> string" where
  "pod_info_step arg info =
     (if ContainsStr arg ''K8S_POD_NAMESPACE'' then (TrimPrefix arg ''K8S_POD_NAMESPACE='', snd info)
      else if ContainsStr arg ''K8S_POD_NAME'' then (fst info, TrimPrefix arg ''K8S_POD_NAME='')
      else info)"

definition getPodInfo :: "string \<Rightarrow> string \<times> string \<times> go_error option" where
  "getPodInfo cniArgs =
     (if cniArgs = [] then ([], [], Some (ErrNew ''env var CNI_ARGS was empty''))
      else let (podNamespace, podName) = fold pod_info_step (Split cniArgs CHR '';'') ([], [])
           in (podNamespace, podName, None))"

definition normalizedNetNS :: "string \<Rightarrow> string" where
  "normalizedNetNS netns = filter (\<lambda>ch. ch \<noteq> CHR ''/'') netns"

definition external_ids :: "string \<Rightarrow> string \<Rightarrow> string \<Rightarrow> string list" where
  "external_ids netNs podNamespace podName =
     [''external-ids:netns='' @ normalizedNetNS netNs,
      ''external-ids:k8s_pod_namespace='' @ podNamespace,
      ''external-ids:k8s_pod_name='' @ podName]"

definition addPort ::
    "('s, 'b) host \<Rightarrow> string \<Rightarrow> string \<Rightarrow> string \<Rightarrow> string \<Rightarrow> string \<Rightarrow> string \<Rightarrow> ('s, unit) act" where
  "addPort h bridgeName port containerMac netNs podNamespace podName s =
     (let commands = [''--may-exist'', ''add-port'', bridgeName, port, ''--'', ''set'', ''port'', port] @
            external_ids netNs podNamespace podName @ [''--'', ''set'', ''interface'', port] @
            external_ids netNs podNamespace podName @
            [''--'', ''set'', ''port'', port, ''mac='' @ [CHR 0x22] @ containerMac @ [CHR 0x22]]
      in case ovs_vsctl h commands s of
           ((output, Some err), s') \<Rightarrow>
             fails (Wrapf ''failed to add OVS port %q to bridge %q, err: %v, %v'' [port, bridgeName, output] err) s'
         | ((output, None), s') \<Rightarrow> done_with () s')"

text \<open>The address the plugin asks for: the random number decides the last byte.\<close>

definition getAvailableIP :: "nat \<Rightarrow> ip_config" where
  "getAvailableIP r =
     (let n1 = (50 :: nat); n2 = r mod (255 - 241) + 241 in
      \<lparr>Version = ''4'', Interface = Some 2,
       Address = \<lparr>IP = [192, 168, word_of_nat n1, word_of_nat n2], Mask = [255, 255, 255, 0]\<rparr>,
       CfgGateway = [192, 168, 50, 1]\<rparr>)"

definition getAvailableIPFromDaemon ::
    "('s, 'b) host \<Rightarrow> string \<Rightarrow> string \<Rightarrow> string \<Rightarrow> ('s, ipam_result) act" where
  "getAvailableIPFromDaemon h ip containerID ifName =
     andThen (call (httpPost h ''http://unix/add''
         [(''ips'', ip), (''containerID'', containerID), (''ifName'', ifName)])) (\<lambda>(status, body).
       if status \<noteq> 200 then fails (Errorf ''status code: %v'' [itoa status])
       else case body of
              Inl err \<Rightarrow> fails err
            | Inr data \<Rightarrow> (case decodeResult h data of Inl err \<Rightarrow> fails err | Inr result \<Rightarrow> done_with result))"

definition findPort :: "('s, 'b) host \<Rightarrow> string \<Rightarrow> string \<Rightarrow> string \<Rightarrow> string \<Rightarrow> ('s, string) act" where
  "findPort h bridge netNS podNamespace podName s =
     (let commands = [''--format=json'', ''--column=name'', ''find'', ''port''] @
            external_ids netNS podNamespace podName
      in case ovs_vsctl h commands s of
           ((out, Some err), s') \<Rightarrow>
             fails (Wrapf ''failed to get OVS port with net namespace %q from bridge %q, err: %v'' [netNS, bridge] err) s'
         | ((out, None), s') \<Rightarrow>
             (case decodePorts h out of
                Inl err \<Rightarrow> fails err s'
              | Inr [] \<Rightarrow> fails (Errorf ''OVS port for %s/%s was not found, OVS DB data: %v, output: %q''
                    [podNamespace, podName, out]) s'
              | Inr ([] # _) \<Rightarrow> (Panics, s')
              | Inr ((portName # _) # _) \<Rightarrow> done_with portName s'))"

definition delPort :: "('s, 'b) host \<Rightarrow> string \<Rightarrow> string \<Rightarrow> ('s, unit) act" where
  "delPort h bridge port s =
     (case ovs_vsctl h [''--if-exists'', ''del-port'', bridge, port] s of
        ((out, Some err), s') \<Rightarrow>
          fails (Wrapf ''failed to delete OVS port %q on bridge %q, err: %v, output: %q'' [port, bridge, out] err) s'
      | ((out, None), s') \<Rightarrow> done_with () s')"

section \<open>cmdAdd\<close>

text \<open>The link of the host end: its lookup error is dropped, and bringing up a nil link panics.\<close>

definition bring_up :: "('s, 'b) host \<Rightarrow> string \<Rightarrow> ('s, unit) act" where
  "bring_up h name s =
     (case linkByName h name s of
        (Inl err, s') \<Rightarrow> (Panics, s')
      | (Inr hostLink, s') \<Rightarrow> call (linkSetUp h hostLink) s')"

fun announce :: "('s, 'b) host \<Rightarrow> nlink \<Rightarrow> ip_config list \<Rightarrow> 's \<Rightarrow> 's" where
  "announce h contVeth [] s = s"
| "announce h contVeth (ipc # ips) s =
     announce h contVeth ips
       (if Version ipc = ''4'' then snd (gratuitousArp h (IP (Address ipc)) contVeth s) else s)"

definition configure :: "('s, 'b) host \<Rightarrow> string \<Rightarrow> cni_result \<Rightarrow> ('s, unit) act" where
  "configure h ifName result =
     andThen (call (interfaceByName h ifName)) (\<lambda>contVeth.
     andThen (call (configureIface h ifName result)) (\<lambda>_ s.
       done_with () (announce h contVeth (ResIPs result) s)))"

definition pick_ip :: "('s, 'b) host \<Rightarrow> ('s, ip_config) act" where
  "pick_ip h s = (case randInt h s of (r, s') \<Rightarrow> done_with (getAvailableIP r) s')"

text \<open>The container's interface: the bridge, the namespace, the veth pair, the port.\<close>

definition attach_pod ::
    "('s, 'b) host \<Rightarrow> cmd_args \<Rightarrow> plugin_conf \<Rightarrow> ('s, string \<times> cni_iface \<times> cni_iface \<times> cni_iface) act" where
  "attach_pod h args netConf =
     andThen (wrapping ''failed to setup bridge: %v'' [] (getBridgeInterface h)) (\<lambda>bridge.
     andThen (wrapping ''failed to open netns %q: %v'' [Netns args] (call (getNS h (Netns args)))) (\<lambda>netns.
     andThen (setupVeth h netns (ArgIfName args)) (\<lambda>(hostInterface, containerInterface).
     let (podNamespace, podName, err) = getPodInfo (getenv h ''CNI_ARGS'') in
     andThen (addPort h (BridgeName netConf) (IfaceName hostInterface) (IfaceMac containerInterface)
         (Netns args) podNamespace podName) (\<lambda>_.
     andThen (bring_up h (IfaceName hostInterface)) (\<lambda>_.
       done_with (netns, bridge, hostInterface, containerInterface))))))"

fun map_first :: "('a \<Rightarrow> 'a) \<Rightarrow> 'a list \<Rightarrow> 'a list" where
  "map_first f [] = []"
| "map_first f (x # xs) = f x # xs"

text \<open>The address on the interface, and the printed result.\<close>

definition finish_add ::
    "('s, 'b) host \<Rightarrow> cmd_args \<Rightarrow> plugin_conf \<Rightarrow> string \<Rightarrow> string \<Rightarrow> cni_result \<Rightarrow> ('s, unit) act" where
  "finish_add h args netConf cniVersion netns result =
     (if ResIPs result = [] then fails (ErrNew ''no IPs available'')
      else
     andThen (wrapping ''failed to configure container addresses: %v'' []
         (in_ns h netns (configure h (ArgIfName args) result))) (\<lambda>_.
     andThen (bridgeByName h (BridgeName netConf)) (\<lambda>br.
       call (printResult h
         (result\<lparr>Interfaces := map_first (\<lambda>bridge. bridge\<lparr>IfaceMac := HardwareAddr br\<rparr>) (Interfaces result),
                 ResDNS := PluginDNS netConf\<rparr>) cniVersion))))"

definition cmdAdd :: "('s, 'b) host \<Rightarrow> cmd_args \<Rightarrow> ('s, unit) act" where
  "cmdAdd h args =
     andThen (\<lambda>s. (Returns (loadNetConf h (StdinData args)), s)) (\<lambda>(netConf, cniVersion).
     andThen (attach_pod h args netConf) (\<lambda>(netns, bridge, hostInterface, containerInterface).
     andThen (pick_ip h) (\<lambda>localIpam.
     andThen (getAvailableIPFromDaemon h (ip_String (IP (Address localIpam))) (ContainerID args) (ArgIfName args))
       (\<lambda>ipamResult.
       finish_add h args netConf cniVersion netns
         \<lparr>ResVersion = cniVersion, Interfaces = [bridge, hostInterface, containerInterface],
          ResIPs = map (\<lambda>ipc. ipc\<lparr>Interface := Some 2\<rparr>) (IPs ipamResult),
          ResRoutes = ResultRoutes ipamResult, ResDNS = empty_dns\<rparr>))))"

section \<open>cmdDel\<close>

definition ErrLinkNotFound :: go_error where
  "ErrLinkNotFound = ErrNew ''link not found''"

definition delete_link :: "('s, 'b) host \<Rightarrow> string \<Rightarrow> ('s, unit) act" where
  "delete_link h ifName s =
     (case delLink h ifName s of
        (Inl err, s') \<Rightarrow> (if err = ErrLinkNotFound then done_with () s' else fails err s')
      | (Inr _, s') \<Rightarrow> done_with () s')"

definition detach_port :: "('s, 'b) host \<Rightarrow> cmd_args \<Rightarrow> plugin_conf \<Rightarrow> string \<Rightarrow> string \<Rightarrow> ('s, unit) act" where
  "detach_port h args netConf podNamespace podName =
     (if Netns args \<noteq> []
      then andThen (findPort h (BridgeName netConf) (Netns args) podNamespace podName) (\<lambda>portName.
        delPort h (BridgeName netConf) portName)
      else done_with ())"

definition clean_netns :: "('s, 'b) host \<Rightarrow> cmd_args \<Rightarrow> ('s, unit) act" where
  "clean_netns h args =
     (if Netns args = [] then done_with ()
      else andThen (call (getNS h (Netns args))) (\<lambda>netns. in_ns h netns (delete_link h (ArgIfName args))))"

definition cmdDel :: "('s, 'b) host \<Rightarrow> cmd_args \<Rightarrow> ('s, unit) act" where
  "cmdDel h args =
     andThen (\<lambda>s. (Returns (loadNetConf h (StdinData args)), s)) (\<lambda>(netConf, _).
     case getPodInfo (getenv h ''CNI_ARGS'') of
       (_, _, Some err) \<Rightarrow> fails err
     | (podNamespace, podName, None) \<Rightarrow>
     andThen (detach_port h args netConf podNamespace podName) (\<lambda>_.
     andThen (call (httpPost h ''http://unix/del''
         [(''containerID'', ContainerID args), (''ifName'', ArgIfName args)])) (\<lambda>(status, body).
     if status \<noteq> 200 then fails (Errorf ''status code: %v'' [itoa status])
     else clean_netns h args)))"

end
