(* ===== verification/CniGateways.thy ===== *)
theory CniGateways
  imports CniPlugin
begin

text \<open>
  Gateways and default routes of the plugin (\<open>calcGatewayIP\<close> and \<open>calcGateways\<close> of \<open>cmd/cni/plugin.go\<close>). The
  Go function changes the addresses and the routes of the result it is given; here they are returned.
\<close>

record gw_info =
  gws :: "ipnet list"
  family :: nat
  defaultRouteFound :: bool

definition FAMILY_V4 :: nat where "FAMILY_V4 = 2"
definition FAMILY_V6 :: nat where "FAMILY_V6 = 10"

definition IPv4zero :: ip where
  "IPv4zero = v4InV6Prefix @ [0, 0, 0, 0]"

definition IPv6zero :: ip where
  "IPv6zero = replicate 16 0"

text \<open>\<open>net.IPNet.String\<close>.\<close>

definition ipnet_String :: "ipnet \<Rightarrow> string" where
  "ipnet_String n =
     (let (nn, m) = networkNumberAndMask n in
      if nn = [] \<or> m = [] then ''<nil>''
      else case simpleMaskLength_from 0 m of
             None \<Rightarrow> ip_String nn @ ''/'' @ hexString m
           | Some l \<Rightarrow> ip_String nn @ ''/'' @ itoa l)"

definition calcGatewayIP :: "ipnet \<Rightarrow> ip" where
  "calcGatewayIP ipn = NextIP (ip_Mask (IP ipn) (Mask ipn))"

definition default_net :: "ip \<Rightarrow> ipnet" where
  "default_net zero = \<lparr>IP = zero, Mask = zero\<rparr>"

text \<open>One address with the gateway list of its family.\<close>

definition calc_gateway ::
    "plugin_conf \<Rightarrow> ip \<Rightarrow> ip_config \<Rightarrow> gw_info \<Rightarrow> route list \<Rightarrow> ip_config \<times> gw_info \<times> route list" where
  "calc_gateway n zero ipc gw routes =
     (let ipc = ipc\<lparr>Interface := Some 2\<rparr>;
          ipc = (if CfgGateway ipc = [] \<and> IsGW n then ipc\<lparr>CfgGateway := calcGatewayIP (Address ipc)\<rparr> else ipc);
          (gw, routes) =
            (if IsDefaultGW n \<and> \<not> defaultRouteFound gw then
               (gw\<lparr>defaultRouteFound := True\<rparr>,
                if list_ex (\<lambda>r. GW r \<noteq> [] \<and> ipnet_String (default_net zero) = ipnet_String (Dst r)) routes then routes
                else routes @ [\<lparr>Dst = default_net zero, GW = CfgGateway ipc\<rparr>])
             else (gw, routes));
          gw = (if IsGW n then gw\<lparr>gws := gws gw @ [\<lparr>IP = CfgGateway ipc, Mask = Mask (Address ipc)\<rparr>]\<rparr> else gw)
      in (ipc, gw, routes))"

fun gateways_loop ::
    "plugin_conf \<Rightarrow> ip_config list \<Rightarrow> gw_info \<Rightarrow> gw_info \<Rightarrow> route list \<Rightarrow>
     go_error + gw_info \<times> gw_info \<times> route list \<times> ip_config list" where
  "gateways_loop n [] v4 v6 routes = Inr (v4, v6, routes, [])"
| "gateways_loop n (ipc # ips) v4 v6 routes =
     (if To4 (IP (Address ipc)) \<noteq> [] then
        (let (ipc', v4', routes') = calc_gateway n IPv4zero ipc (v4\<lparr>family := FAMILY_V4\<rparr>) routes in
         case gateways_loop n ips v4' v6 routes' of
           Inl e \<Rightarrow> Inl e
         | Inr (a, b, r, ips') \<Rightarrow> Inr (a, b, r, ipc' # ips'))
      else if length (IP (Address ipc)) = 16 then
        (let (ipc', v6', routes') = calc_gateway n IPv6zero ipc (v6\<lparr>family := FAMILY_V6\<rparr>) routes in
         case gateways_loop n ips v4 v6' routes' of
           Inl e \<Rightarrow> Inl e
         | Inr (a, b, r, ips') \<Rightarrow> Inr (a, b, r, ipc' # ips'))
      else Inl (Errorf ''Unknown IP object: %v'' [config_text ipc]))"

definition no_gw :: gw_info where
  "no_gw = \<lparr>gws = [], family = 0, defaultRouteFound = False\<rparr>"

definition calcGateways ::
    "plugin_conf \<Rightarrow> ip_config list \<Rightarrow> route list \<Rightarrow>
     go_error + gw_info \<times> gw_info \<times> route list \<times> ip_config list" where
  "calcGateways n ips routes = gateways_loop n ips no_gw no_gw routes"

section \<open>Default routes\<close>

definition default_routes :: "ip \<Rightarrow> route list \<Rightarrow> route list" where
  "default_routes zero routes = filter (\<lambda>r. ipnet_String (Dst r) = ipnet_String (default_net zero)) routes"

lemma default_texts:
  "ipnet_String (default_net IPv4zero) = ''0.0.0.0/0''" "ipnet_String (default_net IPv6zero) = ''::/0''"
  by code_simp+

definition routes_ok :: "ip \<Rightarrow> gw_info \<Rightarrow> route list \<Rightarrow> bool" where
  "routes_ok zero gw routes \<longleftrightarrow> (defaultRouteFound gw \<longrightarrow> default_routes zero routes \<noteq> [])"

lemma calc_gateway_routes:
  assumes "calc_gateway n zero ipc gw routes = (ipc', gw', routes')" "routes_ok zero gw routes"
  shows "routes_ok zero gw' routes' \<and> defaultRouteFound gw' = (defaultRouteFound gw \<or> IsDefaultGW n) \<and>
    (routes' = routes \<or> \<not> defaultRouteFound gw \<and> IsDefaultGW n \<and>
       routes' = routes @ [\<lparr>Dst = default_net zero, GW = CfgGateway ipc'\<rparr>]) \<and>
    Address ipc' = Address ipc \<and> Interface ipc' = Some 2 \<and>
    CfgGateway ipc' = (if CfgGateway ipc = [] \<and> IsGW n then calcGatewayIP (Address ipc) else CfgGateway ipc)"
  using assms
  by (auto simp: calc_gateway_def routes_ok_def default_routes_def list_ex_iff filter_empty_conv Let_def
      split: if_splits)

lemma routes_ok_append: "routes_ok zero gw routes \<Longrightarrow> routes_ok zero gw (routes @ new)"
  by (auto simp: routes_ok_def default_routes_def)

lemma routes_ok_family [simp]: "routes_ok zero (gw\<lparr>family := f\<rparr>) routes = routes_ok zero gw routes"
  by (simp add: routes_ok_def)

definition room :: "gw_info \<Rightarrow> nat" where
  "room gw = (if defaultRouteFound gw then 0 else 1)"

definition is_v4 :: "ip_config \<Rightarrow> bool" where
  "is_v4 ipc \<longleftrightarrow> To4 (IP (Address ipc)) \<noteq> []"

text \<open>The addresses after the loop.\<close>

definition completed :: "plugin_conf \<Rightarrow> ip_config \<Rightarrow> ip_config \<Rightarrow> bool" where
  "completed n ipc ipc' \<longleftrightarrow> Address ipc' = Address ipc \<and> Interface ipc' = Some 2 \<and>
     CfgGateway ipc' = (if CfgGateway ipc = [] \<and> IsGW n then calcGatewayIP (Address ipc) else CfgGateway ipc)"

lemma calc_gateway_step:
  assumes "calc_gateway n zero ipc gw routes = (ipc', gw', routes')" "routes_ok zero gw routes"
  obtains new where "routes' = routes @ new" "length new + room gw' \<le> room gw" "\<not> IsDefaultGW n \<Longrightarrow> new = []"
    "routes_ok zero gw' routes'" "defaultRouteFound gw' = (defaultRouteFound gw \<or> IsDefaultGW n)" "completed n ipc ipc'"
proof -
  note c = calc_gateway_routes [OF assms]
  then consider "routes' = routes"
    | "\<not> defaultRouteFound gw" "IsDefaultGW n" "routes' = routes @ [\<lparr>Dst = default_net zero, GW = CfgGateway ipc'\<rparr>]"
    by blast
  then show thesis
  proof cases
    case 1
    with c that [of "[]"] show thesis by (auto simp: completed_def room_def)
  next
    case 2
    with c that [of "[\<lparr>Dst = default_net zero, GW = CfgGateway ipc'\<rparr>]"] show thesis
      by (auto simp: completed_def room_def)
  qed
qed

lemma gateways_loop_routes:
  "gateways_loop n ips v4 v6 routes = Inr (a, b, routes', ips') \<Longrightarrow>
   routes_ok IPv4zero v4 routes \<Longrightarrow> routes_ok IPv6zero v6 routes \<Longrightarrow>
   \<exists>new. routes' = routes @ new \<and> length new \<le> room v4 + room v6 \<and> (\<not> IsDefaultGW n \<longrightarrow> new = []) \<and>
     routes_ok IPv4zero a routes' \<and> routes_ok IPv6zero b routes' \<and>
     (defaultRouteFound a \<longleftrightarrow> defaultRouteFound v4 \<or> IsDefaultGW n \<and> list_ex is_v4 ips) \<and>
     (defaultRouteFound b \<longleftrightarrow> defaultRouteFound v6 \<or> IsDefaultGW n \<and> list_ex (\<lambda>ipc. \<not> is_v4 ipc) ips) \<and>
     list_all2 (completed n) ips ips'"
proof (induction ips arbitrary: v4 v6 routes ips')
  case Nil
  then show ?case by simp
next
  case (Cons ipc ips)
  show ?case
  proof (cases "To4 (IP (Address ipc)) \<noteq> []")
    case True
    obtain ipc' g r where step: "calc_gateway n IPv4zero ipc (v4\<lparr>family := FAMILY_V4\<rparr>) routes = (ipc', g, r)"
      by (metis prod_cases3)
    obtain new where new: "r = routes @ new" "length new + room g \<le> room v4" "\<not> IsDefaultGW n \<Longrightarrow> new = []"
      "routes_ok IPv4zero g r" "defaultRouteFound g = (defaultRouteFound v4 \<or> IsDefaultGW n)" "completed n ipc ipc'"
      by (rule calc_gateway_step [OF step]) (use Cons.prems(2) in \<open>simp_all add: room_def\<close>)
    from Cons.prems(1) True step obtain ips1 where
      rest: "gateways_loop n ips g v6 r = Inr (a, b, routes', ips1)" "ips' = ipc' # ips1"
      by (auto split: sum.splits)
    have "routes_ok IPv6zero v6 r" unfolding new(1) by (rule routes_ok_append [OF Cons.prems(3)])
    from Cons.IH [OF rest(1) new(4) this] obtain new' where
      "routes' = r @ new'" "length new' \<le> room g + room v6" "\<not> IsDefaultGW n \<longrightarrow> new' = []"
      "routes_ok IPv4zero a routes'" "routes_ok IPv6zero b routes'"
      "defaultRouteFound a \<longleftrightarrow> defaultRouteFound g \<or> IsDefaultGW n \<and> list_ex is_v4 ips"
      "defaultRouteFound b \<longleftrightarrow> defaultRouteFound v6 \<or> IsDefaultGW n \<and> list_ex (\<lambda>ipc. \<not> is_v4 ipc) ips"
      "list_all2 (completed n) ips ips1" by blast
    moreover from True have "is_v4 ipc" by (simp add: is_v4_def)
    ultimately show ?thesis using new rest(2)
      by (intro exI [of _ "new @ new'"]) auto
  next
    case False
    obtain ipc' g r where step: "calc_gateway n IPv6zero ipc (v6\<lparr>family := FAMILY_V6\<rparr>) routes = (ipc', g, r)"
      by (metis prod_cases3)
    obtain new where new: "r = routes @ new" "length new + room g \<le> room v6" "\<not> IsDefaultGW n \<Longrightarrow> new = []"
      "routes_ok IPv6zero g r" "defaultRouteFound g = (defaultRouteFound v6 \<or> IsDefaultGW n)" "completed n ipc ipc'"
      by (rule calc_gateway_step [OF step]) (use Cons.prems(3) in \<open>simp_all add: room_def\<close>)
    from Cons.prems(1) False step obtain ips1 where
      rest: "gateways_loop n ips v4 g r = Inr (a, b, routes', ips1)" "ips' = ipc' # ips1"
      by (auto split: sum.splits if_splits)
    have "routes_ok IPv4zero v4 r" unfolding new(1) by (rule routes_ok_append [OF Cons.prems(2)])
    from Cons.IH [OF rest(1) this new(4)] obtain new' where
      "routes' = r @ new'" "length new' \<le> room v4 + room g" "\<not> IsDefaultGW n \<longrightarrow> new' = []"
      "routes_ok IPv4zero a routes'" "routes_ok IPv6zero b routes'"
      "defaultRouteFound a \<longleftrightarrow> defaultRouteFound v4 \<or> IsDefaultGW n \<and> list_ex is_v4 ips"
      "defaultRouteFound b \<longleftrightarrow> defaultRouteFound g \<or> IsDefaultGW n \<and> list_ex (\<lambda>ipc. \<not> is_v4 ipc) ips"
      "list_all2 (completed n) ips ips1" by blast
    moreover from False have "\<not> is_v4 ipc" by (simp add: is_v4_def)
    ultimately show ?thesis using new rest(2)
      by (intro exI [of _ "new @ new'"]) auto
  qed
qed

text \<open>
  \<open>calcGateways\<close> keeps the routes it is given and adds at most one for each family, none if no default
  gateway is wanted; if one is wanted, there is a default route for every family that has an address.
  Every address is given the container's interface, and a gateway if it had none and one is wanted.
\<close>

theorem calcGateways_routes:
  assumes "calcGateways n ips routes = Inr (v4, v6, routes', ips')"
  shows "take (length routes) routes' = routes \<and>
    length routes' \<le> length routes + (if IsDefaultGW n then 2 else 0) \<and>
    (IsDefaultGW n \<and> list_ex is_v4 ips \<longrightarrow> default_routes IPv4zero routes' \<noteq> []) \<and>
    (IsDefaultGW n \<and> list_ex (\<lambda>ipc. \<not> is_v4 ipc) ips \<longrightarrow> default_routes IPv6zero routes' \<noteq> []) \<and>
    list_all2 (completed n) ips ips'"
  using gateways_loop_routes [of n ips no_gw no_gw routes v4 v6 routes' ips'] assms
  by (auto simp: calcGateways_def no_gw_def routes_ok_def room_def)

definition gw_conf :: plugin_conf where
  "gw_conf = \<lparr>PluginVersion = [], PluginDNS = empty_dns, BridgeName = ''br'', IsGW = True, IsDefaultGW = True\<rparr>"

definition lan_ip :: ip_config where
  "lan_ip = \<lparr>Version = ''4'', Interface = None,
     Address = \<lparr>IP = [192, 168, 50, 7], Mask = [255, 255, 255, 0]\<rparr>, CfgGateway = []\<rparr>"

theorem calcGateways_routes_witness:
  "default_routes IPv4zero [\<lparr>Dst = default_net IPv4zero, GW = [192, 168, 50, 1]\<rparr>] \<noteq> [] \<and>
   completed gw_conf lan_ip (lan_ip\<lparr>Interface := Some 2, CfgGateway := [192, 168, 50, 1]\<rparr>)"
proof -
  have "calcGateways gw_conf [lan_ip] [] =
    Inr (\<lparr>gws = [\<lparr>IP = [192, 168, 50, 1], Mask = [255, 255, 255, 0]\<rparr>], family = 2, defaultRouteFound = True\<rparr>, no_gw,
      [\<lparr>Dst = default_net IPv4zero, GW = [192, 168, 50, 1]\<rparr>], [lan_ip\<lparr>Interface := Some 2, CfgGateway := [192, 168, 50, 1]\<rparr>])"
    and d: "IsDefaultGW gw_conf" "list_ex is_v4 [lan_ip]"
    by code_simp+
  from calcGateways_routes [OF this(1)] d show ?thesis by simp
qed

end
