(* ===== verification/EtcdMutex.thy ===== *)
theory EtcdMutex
  imports EtcdStore
begin

text \<open>
  Several requests at the same time. The mutex of the etcd client
  (\<open>vendor/go.etcd.io/etcd/clientv3/concurrency/mutex.go\<close>, \<open>key.go\<close>), which \<open>lock.go\<close> wraps, as a
  system of goroutines whose steps are the single calls to etcd. A goroutine runs
  \<open>Lock\<close>, a body of calls that is a parameter here, and \<open>Unlock\<close>. \<open>jobs\<close> gives each goroutine the lease of
  its daemon's session and its body; the \<open>Mutex\<close> struct belongs to the session. The keys of the lock are
  those under its prefix: the lease stands for the key, which is the prefix and the lease in hexadecimal;
  they are listed as they were created, with their create revisions. Other writes may raise the
  revision. A watch of a key ends once the key that was read has been deleted. Keys do not expire here;
  \<open>EtcdLease\<close> adds that.
\<close>

record mutex =
  myKey :: "nat option"
  myRev :: int

text \<open>
  Where a goroutine is: before \<open>Lock\<close>; in the loop of \<open>waitDeletes\<close> with its bound; in \<open>waitDelete\<close> for a
  key; in the body; before the deferred \<open>Unlock\<close>, with the result; done.
\<close>

datatype ('b, 'r) phase =
    Start
  | Waiting int
  | Watching int "nat \<times> int"
  | Body 'b
  | Unlocking 'r
  | Finished 'r

record ('b, 'c, 'r) lock_sys =
  revision :: int
  lockKeys :: "(nat \<times> int) list"
  mutexes :: "nat \<Rightarrow> mutex"
  phases :: "nat \<Rightarrow> ('b, 'r) phase"
  content :: 'c

section \<open>The mutex\<close>

text \<open>The transaction of \<open>Lock\<close>: whether the lock is held after it.\<close>

definition Lock_txn :: "nat \<Rightarrow> ('b, 'c, 'r) lock_sys \<Rightarrow> bool \<times> ('b, 'c, 'r) lock_sys" where
  "Lock_txn lease s =
     (let (rv, s) =
            (case map_of (lockKeys s) lease of
               None \<Rightarrow> (let r = revision s + 1
                        in (r, s\<lparr>revision := r, lockKeys := lockKeys s @ [(lease, r)]\<rparr>))
             | Some r \<Rightarrow> (r, s));
          s = s\<lparr>mutexes := (mutexes s)(lease := \<lparr>myKey = Some lease, myRev = rv\<rparr>)\<rparr>
      in (lockKeys s = [] \<or> snd (hd (lockKeys s)) = rv, s))"

text \<open>The read in \<open>waitDeletes\<close>: the key created last, up to a revision.\<close>

definition last_created :: "int \<Rightarrow> (nat \<times> int) list \<Rightarrow> (nat \<times> int) option" where
  "last_created maxCreateRev ks =
     (let l = filter (\<lambda>(_, r). r \<le> maxCreateRev) ks in if l = [] then None else Some (last l))"

text \<open>\<open>Unlock\<close> deletes the key the struct has; without one it deletes a key that nothing uses.\<close>

definition Mutex_Unlock :: "nat \<Rightarrow> ('b, 'c, 'r) lock_sys \<Rightarrow> ('b, 'c, 'r) lock_sys" where
  "Mutex_Unlock lease s =
     (let keys = (case myKey (mutexes s lease) of
                    None \<Rightarrow> lockKeys s
                  | Some k \<Rightarrow> filter (\<lambda>(l, _). l \<noteq> k) (lockKeys s))
      in s\<lparr>lockKeys := keys, mutexes := (mutexes s)(lease := \<lparr>myKey = None, myRev = - 1\<rparr>)\<rparr>)"

section \<open>The system\<close>

fun active :: "('b, 'r) phase \<Rightarrow> bool" where
  "active Start = False"
| "active (Finished r) = False"
| "active _ = True"

fun inside :: "('b, 'r) phase \<Rightarrow> bool" where
  "inside (Body b) = True"
| "inside (Unlocking r) = True"
| "inside _ = False"

definition to_phase :: "nat \<Rightarrow> ('b, 'r) phase \<Rightarrow> ('b, 'c, 'r) lock_sys \<Rightarrow> ('b, 'c, 'r) lock_sys" where
  "to_phase i ph s = s\<lparr>phases := (phases s)(i := ph)\<rparr>"

text \<open>
  \<open>serial\<close>: a daemon works on one request at a time (its HTTP server does not see to that).
  \<open>reliable\<close>: \<open>Lock\<close> does not return an error, which the callers ignore.
\<close>

inductive lock_step ::
    "bool \<Rightarrow> bool \<Rightarrow> (nat \<times> 'b) list \<Rightarrow> ('b \<Rightarrow> 'c \<Rightarrow> ('b + 'r) \<times> 'c) \<Rightarrow>
     ('b, 'c, 'r) lock_sys \<Rightarrow> ('b, 'c, 'r) lock_sys \<Rightarrow> bool"
  for serial reliable jobs body where
  lock: "i < length jobs \<Longrightarrow> phases s i = Start \<Longrightarrow> jobs ! i = (lease, b) \<Longrightarrow>
    serial \<longrightarrow> (\<forall>j < length jobs. fst (jobs ! j) = lease \<longrightarrow> \<not> active (phases s j)) \<Longrightarrow>
    Lock_txn lease s = (acquired, s') \<Longrightarrow>
    lock_step serial reliable jobs body s
      (to_phase i (if acquired then Body b else Waiting (myRev (mutexes s' lease) - 1)) s')"
| lock_error: "i < length jobs \<Longrightarrow> phases s i = Start \<Longrightarrow> jobs ! i = (lease, b) \<Longrightarrow>
    serial \<longrightarrow> (\<forall>j < length jobs. fst (jobs ! j) = lease \<longrightarrow> \<not> active (phases s j)) \<Longrightarrow> \<not> reliable \<Longrightarrow>
    lock_step serial reliable jobs body s
      (to_phase i (Body b) (s\<lparr>mutexes := (mutexes s)(lease := (mutexes s lease)\<lparr>myKey := Some lease\<rparr>)\<rparr>))"
| wait_get: "i < length jobs \<Longrightarrow> phases s i = Waiting m \<Longrightarrow>
    lock_step serial reliable jobs body s
      (to_phase i (case last_created m (lockKeys s) of None \<Rightarrow> Body (snd (jobs ! i)) | Some k \<Rightarrow> Watching m k) s)"
| deleted: "i < length jobs \<Longrightarrow> phases s i = Watching m k \<Longrightarrow> k \<notin> set (lockKeys s) \<Longrightarrow>
    lock_step serial reliable jobs body s (to_phase i (Waiting m) s)"
| body_call: "i < length jobs \<Longrightarrow> phases s i = Body b \<Longrightarrow> body b (content s) = (res, c') \<Longrightarrow> revision s \<le> rv \<Longrightarrow>
    lock_step serial reliable jobs body s
      (to_phase i (case res of Inl b' \<Rightarrow> Body b' | Inr r \<Rightarrow> Unlocking r) (s\<lparr>content := c', revision := rv\<rparr>))"
| unlock: "i < length jobs \<Longrightarrow> phases s i = Unlocking r \<Longrightarrow> revision s \<le> rv \<Longrightarrow>
    lock_step serial reliable jobs body s
      (to_phase i (Finished r) (Mutex_Unlock (fst (jobs ! i)) (s\<lparr>revision := rv\<rparr>)))"

definition initial_sys :: "'c \<Rightarrow> ('b, 'c, 'r) lock_sys" where
  "initial_sys c =
     \<lparr>revision = 1, lockKeys = [], mutexes = \<lambda>_. \<lparr>myKey = None, myRev = - 1\<rparr>, phases = \<lambda>_. Start, content = c\<rparr>"

lemma to_phase_simps [simp]:
  "phases (to_phase i ph s) = (phases s)(i := ph)" "lockKeys (to_phase i ph s) = lockKeys s"
  "mutexes (to_phase i ph s) = mutexes s" "content (to_phase i ph s) = content s"
  "revision (to_phase i ph s) = revision s"
  by (simp_all add: to_phase_def)

section \<open>The invariant\<close>

definition keys_ok :: "(nat \<times> int) list \<Rightarrow> int \<Rightarrow> bool" where
  "keys_ok ks rv \<longleftrightarrow> sorted_wrt (\<lambda>x y. snd x < snd y) ks \<and> distinct (map fst ks) \<and> (\<forall>(l, r) \<in> set ks. r \<le> rv)"

fun phase_ok :: "nat \<Rightarrow> (nat \<times> int) list \<Rightarrow> ('b, 'r) phase \<Rightarrow> bool" where
  "phase_ok l ks (Waiting m) \<longleftrightarrow> (l, m + 1) \<in> set ks"
| "phase_ok l ks (Watching m k) \<longleftrightarrow> (l, m + 1) \<in> set ks \<and> snd k \<le> m"
| "phase_ok l ks (Body b) \<longleftrightarrow> ks \<noteq> [] \<and> fst (hd ks) = l"
| "phase_ok l ks (Unlocking r) \<longleftrightarrow> ks \<noteq> [] \<and> fst (hd ks) = l"
| "phase_ok l ks _ \<longleftrightarrow> True"

definition lock_ok :: "(nat \<times> 'b) list \<Rightarrow> ('b, 'c, 'r) lock_sys \<Rightarrow> bool" where
  "lock_ok jobs s \<longleftrightarrow> keys_ok (lockKeys s) (revision s) \<and>
     (\<forall>(l, r) \<in> set (lockKeys s). \<exists>i < length jobs. fst (jobs ! i) = l \<and> active (phases s i)) \<and>
     (\<forall>i < length jobs. phase_ok (fst (jobs ! i)) (lockKeys s) (phases s i) \<and>
       (active (phases s i) \<longrightarrow> myKey (mutexes s (fst (jobs ! i))) = Some (fst (jobs ! i))) \<and>
       (\<forall>j < length jobs. active (phases s i) \<longrightarrow> active (phases s j) \<longrightarrow>
         fst (jobs ! i) = fst (jobs ! j) \<longrightarrow> i = j))"

lemma lock_okD:
  assumes "lock_ok jobs s"
  shows "keys_ok (lockKeys s) (revision s)"
    and "(l, r) \<in> set (lockKeys s) \<Longrightarrow> \<exists>i < length jobs. fst (jobs ! i) = l \<and> active (phases s i)"
    and "i < length jobs \<Longrightarrow> phase_ok (fst (jobs ! i)) (lockKeys s) (phases s i)"
    and "i < length jobs \<Longrightarrow> active (phases s i) \<Longrightarrow> myKey (mutexes s (fst (jobs ! i))) = Some (fst (jobs ! i))"
    and "i < length jobs \<Longrightarrow> j < length jobs \<Longrightarrow> active (phases s i) \<Longrightarrow> active (phases s j) \<Longrightarrow>
      fst (jobs ! i) = fst (jobs ! j) \<Longrightarrow> i = j"
  using assms unfolding lock_ok_def by blast+

lemma phase_ok_mono:
  "phase_ok l ks ph \<Longrightarrow> set ks \<subseteq> set ks' \<Longrightarrow> (ks \<noteq> [] \<Longrightarrow> ks' \<noteq> [] \<and> hd ks' = hd ks) \<Longrightarrow> phase_ok l ks' ph"
  by (cases ph) auto

lemma hd_smallest:
  assumes "sorted_wrt (\<lambda>x y. snd x < snd y) ks" "(l, r) \<in> set ks" "\<forall>k \<in> set ks. r \<le> snd k"
  shows "ks \<noteq> [] \<and> hd ks = (l, r :: int)"
  using assms by (cases ks) force+

lemma last_created_cases:
  assumes "last_created m ks = Some k"
  shows "k \<in> set ks \<and> snd k \<le> m"
proof -
  have "last (filter (\<lambda>(_, r). r \<le> m) ks) \<in> set (filter (\<lambda>(_, r). r \<le> m) ks)"
    using assms by (intro last_in_set) (auto simp: last_created_def split: if_splits)
  then show ?thesis using assms by (auto simp: last_created_def Let_def split: if_splits)
qed

lemma last_created_None: "last_created m ks = None \<longleftrightarrow> (\<forall>k \<in> set ks. m < snd k)"
  by (auto simp: last_created_def filter_empty_conv Let_def not_le split_beta)

text \<open>A step that only moves one goroutine inside its request.\<close>

lemma lock_ok_move:
  assumes "lock_ok jobs s" "i < length jobs" "active (phases s i)" "active ph"
    "phase_ok (fst (jobs ! i)) (lockKeys s) ph" "revision s \<le> revision t"
    "lockKeys t = lockKeys s" "mutexes t = mutexes s" "phases t = (phases s)(i := ph)"
  shows "lock_ok jobs t"
  unfolding lock_ok_def
proof (intro conjI ballI allI impI)
  note ok = lock_okD [OF assms(1)]
  show "keys_ok (lockKeys t) (revision t)" using ok(1) assms(6,7) by (fastforce simp: keys_ok_def)
  fix k assume "k \<in> set (lockKeys t)"
  then have "(fst k, snd k) \<in> set (lockKeys s)" using assms(7) by simp
  from ok(2) [OF this] obtain j where "j < length jobs" "fst (jobs ! j) = fst k" "active (phases s j)" by blast
  then have "j < length jobs" "fst (jobs ! j) = fst k" "active (phases t j)" using assms(4,9) by simp_all
  then show "case k of (l, r) \<Rightarrow> \<exists>i < length jobs. fst (jobs ! i) = l \<and> active (phases t i)"
    unfolding case_prod_beta by blast
next
  note ok = lock_okD [OF assms(1)]
  fix j assume j: "j < length jobs"
  show "phase_ok (fst (jobs ! j)) (lockKeys t) (phases t j)" using ok(3) [OF j] assms(5,7,9) by simp
  show "myKey (mutexes t (fst (jobs ! j))) = Some (fst (jobs ! j))" if "active (phases t j)"
    using ok(4) [OF j] that assms(3,8,9) by (simp split: if_splits)
  fix j' assume j': "j' < length jobs"
    and a: "active (phases t j)" "active (phases t j')" "fst (jobs ! j) = fst (jobs ! j')"
  have "active (phases s q)" if "active (phases t q)" for q using that assms(3,9) by (simp split: if_splits)
  from ok(5) [OF j j' this [OF a(1)] this [OF a(2)] a(3)] show "j = j'" .
qed

lemma lock_ok_lock:
  assumes "lock_ok jobs s" "i < length jobs" "phases s i = Start" "jobs ! i = (lease, b)"
    "\<forall>j < length jobs. fst (jobs ! j) = lease \<longrightarrow> \<not> active (phases s j)" "Lock_txn lease s = (acquired, s')"
  shows "lock_ok jobs (to_phase i (if acquired then Body b else Waiting (myRev (mutexes s' lease) - 1)) s')"
proof -
  note ok = lock_okD [OF assms(1)]
  let ?r = "revision s + 1"
  let ?ph = "if acquired then Body b else Waiting (myRev (mutexes s' lease) - 1)"
  have new: "lease \<notin> fst ` set (lockKeys s)" using ok(2) assms(5) by fastforce
  then have "map_of (lockKeys s) lease = None" by (simp add: map_of_eq_None_iff)
  then have t: "lockKeys s' = lockKeys s @ [(lease, ?r)]" "revision s' = ?r" "phases s' = phases s"
    "mutexes s' = (mutexes s)(lease := \<lparr>myKey = Some lease, myRev = ?r\<rparr>)"
    "acquired \<longleftrightarrow> snd (hd (lockKeys s @ [(lease, ?r)])) = ?r"
    using assms(6) by (auto simp: Lock_txn_def Let_def)
  have le: "r \<le> revision s" if "(l, r) \<in> set (lockKeys s)" for l r using ok(1) that by (auto simp: keys_ok_def)
  have own: "phase_ok lease (lockKeys s') ?ph"
  proof (cases acquired)
    case True
    then have "lockKeys s = []" using t(5) le [of "fst (hd (lockKeys s))" "snd (hd (lockKeys s))"]
      by (cases "lockKeys s") auto
    then show ?thesis using True t(1) by simp
  qed (simp add: t(1,4))
  show ?thesis
    unfolding lock_ok_def
  proof (intro conjI ballI allI impI)
    show "keys_ok (lockKeys (to_phase i ?ph s')) (revision (to_phase i ?ph s'))"
      using ok(1) new le by (fastforce simp: keys_ok_def sorted_wrt_append t(1,2))
    fix k assume "k \<in> set (lockKeys (to_phase i ?ph s'))"
    then consider "k = (lease, ?r)" | "k \<in> set (lockKeys s)" by (auto simp: t(1))
    then show "case k of (l, r) \<Rightarrow> \<exists>i' < length jobs. fst (jobs ! i') = l \<and> active (phases (to_phase i ?ph s') i')"
    proof cases
      case 1
      have "fst (jobs ! i) = lease" "active (phases (to_phase i ?ph s') i)" using assms(4) by simp_all
      with 1 assms(2) show ?thesis unfolding 1 prod.case by blast
    next
      case 2
      then obtain j where "j < length jobs" "fst (jobs ! j) = fst k" "active (phases s j)"
        using ok(2) [of "fst k" "snd k"] by auto
      then have "j < length jobs" "fst (jobs ! j) = fst k" "active (phases (to_phase i ?ph s') j)"
        by (auto simp: t(3))
      then show ?thesis unfolding case_prod_beta by blast
    qed
  next
    fix j assume j: "j < length jobs"
    have "phase_ok (fst (jobs ! j)) (lockKeys s') (phases s j)"
      by (rule phase_ok_mono [OF ok(3) [OF j]]) (auto simp: t(1))
    with own assms(4) show "phase_ok (fst (jobs ! j)) (lockKeys (to_phase i ?ph s')) (phases (to_phase i ?ph s') j)"
      by (cases "j = i") (simp_all add: t(3) del: phase_ok.simps if_split)
    show "myKey (mutexes (to_phase i ?ph s') (fst (jobs ! j))) = Some (fst (jobs ! j))"
      if "active (phases (to_phase i ?ph s') j)"
    proof (cases "j = i")
      case False
      then show ?thesis using ok(4) [OF j] that by (simp add: t(3,4))
    qed (simp add: t(4) assms(4))
    fix j' assume j': "j' < length jobs"
      and a: "active (phases (to_phase i ?ph s') j)" "active (phases (to_phase i ?ph s') j')"
        "fst (jobs ! j) = fst (jobs ! j')"
    have "j = i" if "fst (jobs ! j) = lease" "j < length jobs" "active (phases (to_phase i ?ph s') j)" for j
      using that assms(5) by (auto simp: t(3) split: if_splits)
    note own = this
    show "j = j'"
    proof (cases "fst (jobs ! j) = lease")
      case True
      then show ?thesis using own [OF _ j a(1)] own [OF _ j' a(2)] a(3) by metis
    next
      case False
      then have "j \<noteq> i" "j' \<noteq> i" using assms(4) a(3) by auto
      then show ?thesis using ok(5) [OF j j' _ _ a(3)] a(1,2) by (simp add: t(3))
    qed
  qed
qed

lemma Mutex_Unlock_simps [simp]:
  "phases (Mutex_Unlock l s) = phases s" "content (Mutex_Unlock l s) = content s"
  "revision (Mutex_Unlock l s) = revision s"
  by (simp_all add: Mutex_Unlock_def Let_def)

lemma lock_ok_unlock:
  assumes "lock_ok jobs s" "i < length jobs" "phases s i = Unlocking r" "revision s \<le> rv"
  shows "lock_ok jobs (to_phase i (Finished r) (Mutex_Unlock (fst (jobs ! i)) (s\<lparr>revision := rv\<rparr>)))"
proof -
  note ok = lock_okD [OF assms(1)]
  let ?l = "fst (jobs ! i)"
  let ?t = "to_phase i (Finished r) (Mutex_Unlock ?l (s\<lparr>revision := rv\<rparr>))"
  have i: "active (phases s i)" "phase_ok ?l (lockKeys s) (phases s i)" using ok(3) [OF assms(2)] assms(3) by simp_all
  have t: "lockKeys ?t = filter (\<lambda>(l, _). l \<noteq> ?l) (lockKeys s)" "revision ?t = rv"
    "phases ?t = (phases s)(i := Finished r)"
    "mutexes ?t = (mutexes s)(?l := \<lparr>myKey = None, myRev = - 1\<rparr>)"
    using ok(4) [OF assms(2) i(1)] by (simp_all add: Mutex_Unlock_def Let_def)
  have other: "fst (jobs ! j) \<noteq> ?l" if "j < length jobs" "active (phases ?t j)" for j
  proof
    assume "fst (jobs ! j) = ?l"
    then have "j = i" using ok(5) [OF that(1) assms(2) _ i(1)] that(2) by (simp add: t(3) split: if_splits)
    with that(2) show False by (simp add: t(3))
  qed
  show ?thesis
    unfolding lock_ok_def
  proof (intro conjI ballI allI impI)
    show "keys_ok (lockKeys ?t) (revision ?t)"
      using ok(1) assms(4) unfolding t(1,2) keys_ok_def
      by (auto simp: sorted_wrt_filter distinct_map_filter)
    fix k assume "k \<in> set (lockKeys ?t)"
    then have k: "(fst k, snd k) \<in> set (lockKeys s)" "fst k \<noteq> ?l" unfolding t(1) by auto
    from ok(2) [OF k(1)] obtain j where j: "j < length jobs" "fst (jobs ! j) = fst k" "active (phases s j)" by blast
    then have "active (phases ?t j)" using k(2) by (auto simp: t(3))
    with j show "case k of (l, r) \<Rightarrow> \<exists>i < length jobs. fst (jobs ! i) = l \<and> active (phases ?t i)"
      unfolding case_prod_beta by blast
  next
    fix j assume j: "j < length jobs"
    show "phase_ok (fst (jobs ! j)) (lockKeys ?t) (phases ?t j)"
    proof (cases "active (phases ?t j)")
      case True
      then have "fst (jobs ! j) \<noteq> ?l" "phases ?t j = phases s j" using other [OF j] by (auto simp: t(3))
      then show ?thesis using ok(3) [OF j] i(2) assms(3) unfolding t(1) by (cases "phases s j") auto
    next
      case False
      then show ?thesis by (cases "phases ?t j") simp_all
    qed
    show "myKey (mutexes ?t (fst (jobs ! j))) = Some (fst (jobs ! j))" if "active (phases ?t j)"
    proof -
      have "active (phases s j)" using that by (simp add: t(3) split: if_splits)
      then show ?thesis using ok(4) [OF j] other [OF j that] unfolding t(4) by simp
    qed
    fix j' assume j': "j' < length jobs"
      and a: "active (phases ?t j)" "active (phases ?t j')" "fst (jobs ! j) = fst (jobs ! j')"
    have "active (phases s q)" if "active (phases ?t q)" for q using that by (simp add: t(3) split: if_splits)
    from ok(5) [OF j j' this [OF a(1)] this [OF a(2)] a(3)] show "j = j'" .
  qed
qed

lemma lock_ok_step:
  assumes "lock_step True True jobs body s t" "lock_ok jobs s"
  shows "lock_ok jobs t"
  using assms(1)
proof cases
  case (lock i lease b acquired s')
  then show ?thesis using lock_ok_lock [OF assms(2), of i lease b acquired s'] by simp
next
  case (wait_get i m)
  let ?ph = "case last_created m (lockKeys s) of None \<Rightarrow> Body (snd (jobs ! i)) | Some k \<Rightarrow> Watching m k"
  note own = lock_okD(3) [OF assms(2) wait_get(2), unfolded wait_get(3), simplified]
  have "phase_ok (fst (jobs ! i)) (lockKeys s) ?ph"
  proof (cases "last_created m (lockKeys s)")
    case None
    then have "\<forall>k \<in> set (lockKeys s). m + 1 \<le> snd k" by (fastforce simp: last_created_None)
    with hd_smallest [OF _ own] lock_okD(1) [OF assms(2)] None show ?thesis by (simp add: keys_ok_def)
  next
    case (Some k)
    then show ?thesis using own last_created_cases [OF Some] by simp
  qed
  then show ?thesis
    unfolding wait_get(1) using wait_get(2,3)
    by (intro lock_ok_move [OF assms(2) wait_get(2)]) (simp_all split: option.split)
next
  case (deleted i m k)
  then show ?thesis
    using lock_okD(3) [OF assms(2) deleted(2)]
    by (intro lock_ok_move [OF assms(2) deleted(2), of "Waiting m"]) simp_all
next
  case (body_call i b res c' rv)
  then show ?thesis
    using lock_okD(3) [OF assms(2) body_call(2)]
    by (intro lock_ok_move [OF assms(2) body_call(2), of "case res of Inl b' \<Rightarrow> Body b' | Inr r \<Rightarrow> Unlocking r"])
      (simp_all split: sum.split)
next
  case (unlock i r rv)
  then show ?thesis using lock_ok_unlock [OF assms(2)] by simp
qed simp

lemma lock_ok_initial: "lock_ok jobs (initial_sys c)"
  by (simp add: lock_ok_def initial_sys_def keys_ok_def)

lemma lock_ok_run: "(lock_step True True jobs body ^^ n) (initial_sys c) s \<Longrightarrow> lock_ok jobs s"
  by (induction n arbitrary: s) (auto intro: lock_ok_initial lock_ok_step)

text \<open>Only the goroutines of the jobs move.\<close>

lemma lock_step_others:
  "lock_step serial reliable jobs body s t \<Longrightarrow> length jobs \<le> i \<Longrightarrow> phases t i = phases s i"
  by (induction rule: lock_step.induct) (auto simp: Lock_txn_def Let_def split: option.splits)

lemma run_others:
  "(lock_step serial reliable jobs body ^^ n) (initial_sys c) s \<Longrightarrow> length jobs \<le> i \<Longrightarrow> phases s i = Start"
proof (induction n arbitrary: s)
  case (Suc n)
  then show ?case using lock_step_others by (metis relpowp_Suc_E)
qed (simp add: initial_sys_def)

lemma inside_active: "inside ph \<Longrightarrow> active ph"
  by (cases ph) auto

lemma inside_once:
  assumes "lock_ok jobs s" "i < length jobs" "j < length jobs" "inside (phases s i)" "inside (phases s j)"
  shows "i = j"
proof -
  have "fst (jobs ! i) = fst (hd (lockKeys s))" "fst (jobs ! j) = fst (hd (lockKeys s))"
    using lock_okD(3) [OF assms(1,2)] lock_okD(3) [OF assms(1,3)] assms(4,5)
    by (cases "phases s i"; cases "phases s j"; simp)+
  then show ?thesis using lock_okD(5) [OF assms(1-3)] assms(4,5) inside_active by metis
qed

section \<open>No deadlock\<close>

lemma lock_enabled:
  assumes "lock_ok jobs s" "i < length jobs" "\<forall>r. phases s i \<noteq> Finished r"
  shows "\<exists>t. lock_step True True jobs body s t"
proof (cases "lockKeys s")
  case Nil
  then have idle: "\<not> active (phases s j)" if "j < length jobs" for j
    using lock_okD(3) [OF assms(1) that] by (cases "phases s j") auto
  then have "phases s i = Start" using idle [OF assms(2)] assms(3) by (cases "phases s i") auto
  moreover obtain lease b where "jobs ! i = (lease, b)" by (cases "jobs ! i")
  moreover obtain acquired s' where "Lock_txn lease s = (acquired, s')" by (cases "Lock_txn lease s")
  ultimately show ?thesis using lock_step.lock [OF assms(2)] idle by metis
next
  case (Cons k ks)
  obtain j where j: "j < length jobs" "fst (jobs ! j) = fst k" "active (phases s j)"
    using lock_okD(2) [OF assms(1), of "fst k" "snd k"] Cons by auto
  have low: "snd k \<le> snd q" if "q \<in> set (lockKeys s)" for q
    using lock_okD(1) [OF assms(1)] that Cons by (auto simp: keys_ok_def)
  show ?thesis
  proof (cases "phases s j")
    case (Watching m w)
    then have "(fst k, m + 1) \<in> set (lockKeys s)" "snd w \<le> m" using lock_okD(3) [OF assms(1) j(1)] j(2) by auto
    moreover have "m + 1 = snd k"
    proof -
      have "distinct (map fst (lockKeys s))" using lock_okD(1) [OF assms(1)] by (simp add: keys_ok_def)
      then show ?thesis using calculation(1) Cons by (cases k) (auto simp: rev_image_eqI)
    qed
    ultimately have "w \<notin> set (lockKeys s)" using low [of w] by auto
    then show ?thesis using lock_step.deleted [OF j(1) Watching] by blast
  next
    case (Body b)
    obtain res c' where r: "body b (content s) = (res, c')" by (cases "body b (content s)")
    have "lock_step True True jobs body s (to_phase j (case res of Inl b' \<Rightarrow> Body b' | Inr r \<Rightarrow> Unlocking r)
        (s\<lparr>content := c', revision := revision s\<rparr>))"
      by (rule lock_step.body_call) (use j(1) Body r in simp_all)
    then show ?thesis by blast
  next
    case (Waiting m)
    from lock_step.wait_get [OF j(1) this] show ?thesis by blast
  next
    case (Unlocking r)
    from lock_step.unlock [OF j(1) this, of "revision s"] show ?thesis by blast
  qed (use j(3) in simp_all)
qed

section \<open>Every run ends\<close>

definition unfinished :: "(nat \<times> 'b) list \<Rightarrow> ('b, 'c, 'r) lock_sys \<Rightarrow> nat" where
  "unfinished jobs s = card {i. i < length jobs \<and> (\<forall>r. phases s i \<noteq> Finished r)}"

text \<open>
  A body of calls with its reading as one operation: \<open>atomic b c\<close> is the result of the rest of the body
  \<open>b\<close> when nothing else happens, and \<open>calls b\<close> bounds the number of its calls. A body for which this
  holds is \<open>good\<close>, and stays so.
\<close>

locale rpc_body =
  fixes body :: "'b \<Rightarrow> 'c \<Rightarrow> ('b + 'r) \<times> 'c" and atomic :: "'b \<Rightarrow> 'c \<Rightarrow> 'r \<times> 'c"
    and calls :: "'b \<Rightarrow> nat" and good :: "'b \<Rightarrow> bool"
  assumes atomic_done: "good b \<Longrightarrow> body b c = (Inr r, c') \<Longrightarrow> atomic b c = (r, c')"
    and atomic_call: "good b \<Longrightarrow> body b c = (Inl b', c') \<Longrightarrow> atomic b c = atomic b' c'"
    and calls_less: "good b \<Longrightarrow> body b c = (Inl b', c') \<Longrightarrow> good b' \<and> calls b' < calls b"
begin

definition all_good :: "(nat \<times> 'b) list \<Rightarrow> ('b, 'c, 'r) lock_sys \<Rightarrow> bool" where
  "all_good jobs s \<longleftrightarrow> (\<forall>i < length jobs. good (snd (jobs ! i)) \<and> (\<forall>b. phases s i = Body b \<longrightarrow> good b))"

lemma all_good_initial: "\<forall>(l, b) \<in> set jobs. good b \<Longrightarrow> all_good jobs (initial_sys c)"
  by (auto simp: all_good_def initial_sys_def dest!: nth_mem)

lemma all_good_step:
  assumes "lock_step serial reliable jobs body s t" "all_good jobs s"
  shows "all_good jobs t"
  using assms
  by (induction rule: lock_step.induct)
    (auto simp: all_good_def Lock_txn_def Let_def dest: calls_less split: option.splits sum.splits if_splits)

lemma all_good_run:
  "(lock_step serial reliable jobs body ^^ n) s t \<Longrightarrow> all_good jobs s \<Longrightarrow> all_good jobs t"
  by (induction n arbitrary: t) (auto intro: all_good_step)

fun weight :: "nat \<Rightarrow> (nat \<times> int) list \<Rightarrow> ('b, 'r) phase \<Rightarrow> nat" where
  "weight k ks Start = k + 6"
| "weight k ks (Waiting m) = k + 4"
| "weight k ks (Watching m w) = (if w \<in> set ks then k + 3 else k + 5)"
| "weight k ks (Body b) = calls b + 2"
| "weight k ks (Unlocking r) = 1"
| "weight k ks (Finished r) = 0"

definition budget :: "(nat \<times> 'b) list \<Rightarrow> ('b, 'c, 'r) lock_sys \<Rightarrow> nat" where
  "budget jobs s = 2 * length jobs * unfinished jobs s +
     (\<Sum>i < length jobs. weight (calls (snd (jobs ! i))) (lockKeys s) (phases s i))"

lemma weight_mono: "set ks \<subseteq> set ks' \<Longrightarrow> weight k ks' ph \<le> weight k ks ph"
  by (cases ph) auto

lemma weight_change: "weight k ks' ph \<le> weight k ks ph + 2"
  by (cases ph) auto

lemma unfinished_same:
  assumes "phases t = (phases s)(i := ph)" "\<forall>r. ph \<noteq> Finished r" "\<forall>r. phases s i \<noteq> Finished r"
  shows "unfinished jobs t = unfinished jobs s"
proof -
  have "(\<forall>r. phases t j \<noteq> Finished r) \<longleftrightarrow> (\<forall>r. phases s j \<noteq> Finished r)" for j using assms by simp
  then show ?thesis by (simp add: unfinished_def)
qed

lemma budget_move:
  assumes "i < length jobs" "phases t = (phases s)(i := ph)" "set (lockKeys s) \<subseteq> set (lockKeys t)"
    "\<forall>r. ph \<noteq> Finished r" "\<forall>r. phases s i \<noteq> Finished r"
    "weight (calls (snd (jobs ! i))) (lockKeys t) ph < weight (calls (snd (jobs ! i))) (lockKeys s) (phases s i)"
  shows "budget jobs t < budget jobs s"
proof -
  let ?w = "\<lambda>s i. weight (calls (snd (jobs ! i))) (lockKeys s) (phases s i)"
  have "(\<Sum>i < length jobs. ?w t i) < (\<Sum>i < length jobs. ?w s i)"
  proof (rule sum_strict_mono_ex1)
    show "\<forall>j \<in> {..<length jobs}. ?w t j \<le> ?w s j"
      using assms(2,6) weight_mono [OF assms(3)] by (auto simp: less_imp_le)
    show "\<exists>j \<in> {..<length jobs}. ?w t j < ?w s j"
      using assms(1,2,6) by (intro bexI [of _ i]) simp_all
  qed simp
  then show ?thesis using unfinished_same [OF assms(2,4,5), of jobs] by (simp add: budget_def)
qed

lemma budget_finish:
  assumes "i < length jobs" "phases t = (phases s)(i := Finished r)" "phases s i = Unlocking q"
  shows "budget jobs t < budget jobs s"
proof -
  let ?U = "\<lambda>s. {i. i < length jobs \<and> (\<forall>r. phases s i \<noteq> Finished r)}"
  let ?w = "\<lambda>s i. weight (calls (snd (jobs ! i))) (lockKeys s) (phases s i)"
  let ?n = "length jobs"
  have "?U t = ?U s - {i}" "i \<in> ?U s" using assms by auto
  moreover have "finite (?U s)" by simp
  ultimately have "card (?U s) = Suc (card (?U t))" by (simp only: card_Suc_Diff1)
  then have u: "2 * ?n * unfinished jobs s = 2 * ?n * unfinished jobs t + 2 * ?n" by (simp add: unfinished_def)
  have "(\<Sum>j \<in> {..<?n} - {i}. ?w t j) \<le> (\<Sum>j \<in> {..<?n} - {i}. ?w s j + 2)"
  proof (rule sum_mono)
    fix j assume "j \<in> {..<?n} - {i}"
    then show "?w t j \<le> ?w s j + 2" using assms(2) weight_change by simp
  qed
  also have "\<dots> \<le> (\<Sum>j \<in> {..<?n} - {i}. ?w s j) + 2 * ?n" 
    using card_mono [of "{..<?n}" "{..<?n} - {i}"] unfolding sum.distrib by simp
  finally have rest: "(\<Sum>j \<in> {..<?n} - {i}. ?w t j) \<le> (\<Sum>j \<in> {..<?n} - {i}. ?w s j) + 2 * ?n" .
  have "sum f {..<?n} = f i + sum f ({..<?n} - {i})" for f :: "nat \<Rightarrow> nat"
    using assms(1) by (simp add: sum.remove)
  then have "(\<Sum>j < ?n. ?w t j) = ?w t i + (\<Sum>j \<in> {..<?n} - {i}. ?w t j)"
    "(\<Sum>j < ?n. ?w s j) = ?w s i + (\<Sum>j \<in> {..<?n} - {i}. ?w s j)" by blast+
  moreover have "?w t i < ?w s i" using assms(2,3) by simp
  ultimately have "(\<Sum>j < ?n. ?w t j) < (\<Sum>j < ?n. ?w s j) + 2 * ?n" using rest by linarith
  with u show ?thesis by (simp add: budget_def)
qed

lemma budget_step:
  assumes "lock_step serial reliable jobs body s t" "all_good jobs s"
  shows "budget jobs t < budget jobs s"
  using assms(1)
proof cases
  case (lock i lease b acquired s')
  have "set (lockKeys s) \<subseteq> set (lockKeys s')" "phases s' = phases s"
    using lock(6) by (auto simp: Lock_txn_def Let_def split: option.splits)
  then show ?thesis using lock(1-4) by (intro budget_move [of i jobs]) (auto split: if_splits)
next
  case (lock_error i lease b)
  then show ?thesis by (intro budget_move [of i jobs]) auto
next
  case (wait_get i m)
  then show ?thesis
    by (intro budget_move [of i jobs]) (auto split: option.splits dest: last_created_cases)
next
  case (deleted i m k)
  then show ?thesis by (intro budget_move [of i jobs]) auto
next
  case (body_call i b res c' rv)
  moreover from this(2,3) assms(2) have "good b" by (simp add: all_good_def)
  ultimately show ?thesis
    by (intro budget_move [of i jobs]) (auto split: sum.splits dest: calls_less)
next
  case (unlock i r rv)
  then show ?thesis by (intro budget_finish [of i jobs _ _ r]) auto
qed

lemma budget_run:
  "(lock_step serial reliable jobs body ^^ n) s t \<Longrightarrow> all_good jobs s \<Longrightarrow> n + budget jobs t \<le> budget jobs s"
proof (induction n arbitrary: t)
  case (Suc n)
  then obtain u where "(lock_step serial reliable jobs body ^^ n) s u" "lock_step serial reliable jobs body u t"
    by auto
  from Suc.IH [OF this(1) Suc.prems(2)] budget_step [OF this(2) all_good_run [OF this(1) Suc.prems(2)]]
  show ?case by simp
qed simp

lemma budget_initial:
  assumes "\<forall>(l, b) \<in> set jobs. calls b \<le> k"
  shows "budget jobs (initial_sys c) \<le> length jobs * (2 * length jobs + k + 6)"
proof -
  have "(\<Sum>i < length jobs. weight (calls (snd (jobs ! i))) [] Start) \<le> (\<Sum>i < length jobs. k + 6)"
    using assms by (intro sum_mono) (auto simp: case_prod_beta)
  moreover define s0 :: "('b, 'c, 'r) lock_sys" where "s0 = initial_sys c"
  then have "lockKeys s0 = []" "phases s0 = (\<lambda>_. Start)" "unfinished jobs s0 = length jobs"
    by (simp_all add: initial_sys_def unfinished_def)
  ultimately show ?thesis unfolding s0_def [symmetric] by (simp add: budget_def algebra_simps)
qed

text \<open>From every reachable state all goroutines can finish, and nothing else can happen forever.\<close>

lemma run_finishes:
  assumes "lock_ok jobs s" "all_good jobs s"
  shows "\<exists>n t. (lock_step True True jobs body ^^ n) s t \<and> (\<forall>i < length jobs. \<exists>r. phases t i = Finished r)"
  using assms
proof (induction "budget jobs s" arbitrary: s rule: less_induct)
  case less
  show ?case
  proof (cases "\<forall>i < length jobs. \<exists>r. phases s i = Finished r")
    case True
    then show ?thesis by (intro exI [of _ 0]) auto
  next
    case False
    then obtain t where t: "lock_step True True jobs body s t" using lock_enabled [OF less.prems(1)] by blast
    from less.hyps [OF budget_step [OF t less.prems(2)] lock_ok_step [OF t less.prems(1)] all_good_step [OF t less.prems(2)]] obtain n u where
      "(lock_step True True jobs body ^^ n) t u" "\<forall>i < length jobs. \<exists>r. phases u i = Finished r" by blast
    with t show ?thesis by (metis relpowp_Suc_I2)
  qed
qed


end

fun answer :: "('b, 'r) phase \<Rightarrow> 'r option" where
  "answer (Unlocking r) = Some r"
| "answer (Finished r) = Some r"
| "answer _ = None"

definition answers :: "('b, 'c, 'r) lock_sys \<Rightarrow> nat \<Rightarrow> 'r option" where
  "answers s i = answer (phases s i)"

fun one_by_one ::
    "('b \<Rightarrow> 'c \<Rightarrow> 'r \<times> 'c) \<Rightarrow> (nat \<times> 'b) list \<Rightarrow> nat list \<Rightarrow> (nat \<rightharpoonup> 'r) \<times> 'c \<Rightarrow> (nat \<rightharpoonup> 'r) \<times> 'c" where
  "one_by_one atomic jobs [] dc = dc"
| "one_by_one atomic jobs (i # is) (d, c) =
     (case atomic (snd (jobs ! i)) c of (r, c') \<Rightarrow> one_by_one atomic jobs is (d(i \<mapsto> r), c'))"

lemma one_by_one_snoc:
  "one_by_one atomic jobs (is @ [i]) dc =
     (case one_by_one atomic jobs is dc of (d, c) \<Rightarrow>
        case atomic (snd (jobs ! i)) c of (r, c') \<Rightarrow> (d(i \<mapsto> r), c'))"
  by (induction atomic jobs "is" dc rule: one_by_one.induct) (auto split: prod.splits)

lemma inside_answer: "\<not> inside ph \<Longrightarrow> answer ph \<noteq> None \<Longrightarrow> \<exists>r. ph = Finished r"
  by (cases ph) auto

section \<open>Every run is one after the other\<close>

context rpc_body
begin

text \<open>The requests \<open>is\<close>, one after the other, explain the answers and the content.\<close>

definition explains :: "(nat \<times> 'b) list \<Rightarrow> 'c \<Rightarrow> nat list \<Rightarrow> ('b, 'c, 'r) lock_sys \<Rightarrow> bool" where
  "explains jobs c0 is s \<longleftrightarrow>
     (case one_by_one atomic jobs is (Map.empty, c0) of (d, c) \<Rightarrow>
        distinct is \<and> (\<forall>i. answers s i = d i) \<and> set is = dom (answers s) \<and>
        ((\<forall>i < length jobs. \<forall>b. phases s i \<noteq> Body b) \<longrightarrow> content s = c) \<and>
        (\<forall>i < length jobs. \<forall>b. phases s i = Body b \<longrightarrow> atomic b (content s) = atomic (snd (jobs ! i)) c))"

lemma explains_initial: "explains jobs c [] (initial_sys c)"
  by (auto simp: explains_def initial_sys_def answers_def)

text \<open>A step outside the bodies, or into one when no other goroutine is inside.\<close>

lemma explains_move:
  assumes "explains jobs c0 is s" "i < length jobs" "answer ph = answer (phases s i)" "content t = content s"
    "phases t = (phases s)(i := ph)" "\<forall>b. phases s i \<noteq> Body b"
    "\<forall>b. ph = Body b \<longrightarrow> b = snd (jobs ! i) \<and> (\<forall>j < length jobs. \<forall>b. phases s j \<noteq> Body b)"
  shows "explains jobs c0 is t"
proof -
  obtain d c where dc: "one_by_one atomic jobs is (Map.empty, c0) = (d, c)" by fastforce
  note e = assms(1) [unfolded explains_def dc prod.case]
  have a: "answers t = answers s" using assms(3,5) by (auto simp: answers_def fun_eq_iff)
  have "content t = c" if "\<forall>j < length jobs. \<forall>b. phases t j \<noteq> Body b"
  proof -
    have "\<forall>j < length jobs. \<forall>b. phases s j \<noteq> Body b"
    proof (intro allI impI)
      fix j b assume "j < length jobs"
      then show "phases s j \<noteq> Body b" using that assms(5,6) by (cases "j = i") auto
    qed
    then show ?thesis using e assms(4) by simp
  qed
  moreover have "atomic b (content t) = atomic (snd (jobs ! j)) c" if "j < length jobs" "phases t j = Body b" for j b
    using e that assms(4,5,7) by (cases "j = i") auto
  ultimately show ?thesis using e by (simp add: explains_def dc a)
qed

lemma explains_step:
  assumes "lock_step True True jobs body s t" "lock_ok jobs s" "explains jobs c0 is s" "all_good jobs s"
  shows "\<exists>is'. explains jobs c0 is' t"
proof -
  have idle: "\<forall>j < length jobs. \<forall>b. phases s j \<noteq> Body b"
    if "i < length jobs" "\<not> inside (phases s i)" "inside (phases t i)" "phases t = (phases s)(i := ph)" for i ph
  proof (intro allI impI notI)
    fix j b assume j: "j < length jobs" "phases s j = Body b"
    then have "j \<noteq> i" using that(2) by auto
    moreover have "j = i" using inside_once [OF lock_ok_step [OF assms(1,2)] j(1) that(1)] j(2) that(3,4) calculation by simp
    ultimately show False by simp
  qed
  show ?thesis
    using assms(1)
  proof cases
    case (lock i lease b acquired s')
    then have s': "phases s' = phases s" "content s' = content s"
      by (auto simp: Lock_txn_def Let_def split: option.splits)
    with lock idle [OF lock(2)] show ?thesis
      by (intro exI [of _ "is"] explains_move [OF assms(3) lock(2)]) (auto split: if_splits)
  next
    case (wait_get i m)
    with idle [OF wait_get(2)] show ?thesis
      by (intro exI [of _ "is"] explains_move [OF assms(3) wait_get(2)]) (auto split: option.splits)
  next
    case (deleted i m k)
    then show ?thesis by (intro exI [of _ "is"] explains_move [OF assms(3) deleted(2)]) auto
  next
    case (body_call i b res c' rv)
    obtain d c where dc: "one_by_one atomic jobs is (Map.empty, c0) = (d, c)" by fastforce
    note e = assms(3) [unfolded explains_def dc prod.case]
    have good: "good b" using assms(4) body_call(2,3) by (simp add: all_good_def)
    have only: "phases s j \<noteq> Body q" if "j < length jobs" "j \<noteq> i" for j q
      using inside_once [OF assms(2) that(1) body_call(2)] that(2) body_call(3) by auto
    have mine: "atomic b (content s) = atomic (snd (jobs ! i)) c" using e body_call(2,3) by blast
    show ?thesis
    proof (cases res)
      case (Inl b')
      then have "atomic b' c' = atomic (snd (jobs ! i)) c" using atomic_call [OF good, of "content s"] body_call(4) mine by simp
      moreover have t: "phases t = (phases s)(i := Body b')" "content t = c'" unfolding body_call(1) Inl by simp_all
      moreover have a: "answers t = answers s" using body_call(3) by (auto simp: answers_def fun_eq_iff t)
      ultimately have "explains jobs c0 is t"
        using e only body_call(2) by (auto simp: explains_def dc a)
      then show ?thesis ..
    next
      case (Inr r)
      then have r: "atomic (snd (jobs ! i)) c = (r, c')" using atomic_done [OF good] body_call(4) mine by simp
      have t: "phases t = (phases s)(i := Unlocking r)" "content t = c'" unfolding body_call(1) Inr by simp_all
      have a: "answers t = (answers s)(i \<mapsto> r)" by (auto simp: answers_def t)
      have "answers s i = None" using body_call(3) by (simp add: answers_def)
      then have "i \<notin> set is" using e by (auto simp only: dom_def)
      moreover have "one_by_one atomic jobs (is @ [i]) (Map.empty, c0) = (d(i \<mapsto> r), c')"
        by (simp add: one_by_one_snoc dc r)
      ultimately have "explains jobs c0 (is @ [i]) t"
        using e only by (auto simp: explains_def a t)
      then show ?thesis ..
    qed
  next
    case (unlock i r rv)
    then show ?thesis by (intro exI [of _ "is"] explains_move [OF assms(3) unlock(2)]) auto
  qed simp
qed

lemma explains_run:
  assumes "\<forall>(l, b) \<in> set jobs. good b"
  shows "(lock_step True True jobs body ^^ n) (initial_sys c) s \<Longrightarrow> \<exists>is. explains jobs c is s"
proof (induction n arbitrary: s)
  case 0
  then show ?case using explains_initial by auto
next
  case (Suc n)
  then obtain u where u: "(lock_step True True jobs body ^^ n) (initial_sys c) u" "lock_step True True jobs body u s"
    by auto
  then show ?case using Suc.IH [OF u(1)] explains_step [OF u(2) lock_ok_run [OF u(1)]]
      all_good_run [OF u(1) all_good_initial [OF assms]] by blast
qed

end

section \<open>Schedules\<close>

text \<open>A run by the numbers of the goroutines that step, with a mark where \<open>Lock\<close> fails.\<close>

definition can_step :: "bool \<Rightarrow> bool \<Rightarrow> (nat \<times> 'b) list \<Rightarrow> nat \<times> bool \<Rightarrow> ('b, 'c, 'r) lock_sys \<Rightarrow> bool" where
  "can_step serial reliable jobs k s =
     (case k of (i, fails) \<Rightarrow>
        i < length jobs \<and> (fails \<longrightarrow> \<not> reliable) \<and>
        (case phases s i of
           Start \<Rightarrow> serial \<longrightarrow> list_all (\<lambda>j. fst (jobs ! j) = fst (jobs ! i) \<longrightarrow> \<not> active (phases s j)) [0..<length jobs]
         | Watching m w \<Rightarrow> \<not> fails \<and> w \<notin> set (lockKeys s)
         | Finished r \<Rightarrow> False
         | _ \<Rightarrow> \<not> fails))"

definition do_step ::
    "(nat \<times> 'b) list \<Rightarrow> ('b \<Rightarrow> 'c \<Rightarrow> ('b + 'r) \<times> 'c) \<Rightarrow> nat \<times> bool \<Rightarrow>
     ('b, 'c, 'r) lock_sys \<Rightarrow> ('b, 'c, 'r) lock_sys" where
  "do_step jobs body k s =
     (case k of (i, fails) \<Rightarrow> case jobs ! i of (lease, b) \<Rightarrow>
        (case phases s i of
           Start \<Rightarrow>
             if fails then to_phase i (Body b) (s\<lparr>mutexes := (mutexes s)(lease := (mutexes s lease)\<lparr>myKey := Some lease\<rparr>)\<rparr>)
             else (case Lock_txn lease s of (acquired, s') \<Rightarrow>
               to_phase i (if acquired then Body b else Waiting (myRev (mutexes s' lease) - 1)) s')
         | Waiting m \<Rightarrow>
             to_phase i (case last_created m (lockKeys s) of None \<Rightarrow> Body b | Some w \<Rightarrow> Watching m w) s
         | Watching m w \<Rightarrow> to_phase i (Waiting m) s
         | Body b \<Rightarrow>
             (case body b (content s) of (res, c') \<Rightarrow>
               to_phase i (case res of Inl b' \<Rightarrow> Body b' | Inr r \<Rightarrow> Unlocking r) (s\<lparr>content := c', revision := revision s\<rparr>))
         | Unlocking r \<Rightarrow> to_phase i (Finished r) (Mutex_Unlock lease (s\<lparr>revision := revision s\<rparr>))
         | Finished r \<Rightarrow> s))"

fun run_schedule ::
    "bool \<Rightarrow> bool \<Rightarrow> (nat \<times> 'b) list \<Rightarrow> ('b \<Rightarrow> 'c \<Rightarrow> ('b + 'r) \<times> 'c) \<Rightarrow> (nat \<times> bool) list \<Rightarrow>
     ('b, 'c, 'r) lock_sys \<Rightarrow> ('b, 'c, 'r) lock_sys option" where
  "run_schedule serial reliable jobs body [] s = Some s"
| "run_schedule serial reliable jobs body (k # ks) s =
     (if can_step serial reliable jobs k s then run_schedule serial reliable jobs body ks (do_step jobs body k s)
      else None)"

lemma do_step_ok:
  assumes "can_step serial reliable jobs (i, fails) s"
  shows "lock_step serial reliable jobs body s (do_step jobs body (i, fails) s)"
proof -
  obtain l b where j: "jobs ! i = (l, b)" by fastforce
  have i: "i < length jobs" using assms by (simp add: can_step_def)
  show ?thesis
  proof (cases "phases s i")
    case Start
    then have idle: "serial \<longrightarrow> (\<forall>j < length jobs. fst (jobs ! j) = l \<longrightarrow> \<not> active (phases s j))"
      using assms j by (simp add: can_step_def list_all_iff)
    show ?thesis
    proof (cases fails)
      case True
      then show ?thesis using lock_step.lock_error [OF i Start j idle, of reliable] assms Start
        by (simp add: do_step_def j can_step_def)
    next
      case False
      obtain acquired s' where t: "Lock_txn l s = (acquired, s')" by fastforce
      show ?thesis using lock_step.lock [OF i Start j idle t] False Start by (simp add: do_step_def j t)
    qed
  next
    case (Waiting m)
    then show ?thesis using lock_step.wait_get [OF i Waiting] by (simp add: do_step_def j cong: option.case_cong)
  next
    case (Watching m w)
    then show ?thesis using lock_step.deleted [OF i Watching] assms by (simp add: do_step_def can_step_def j)
  next
    case (Body b')
    obtain res c' where r: "body b' (content s) = (res, c')" by fastforce
    have "lock_step serial reliable jobs body s (to_phase i (case res of Inl b' \<Rightarrow> Body b' | Inr r \<Rightarrow> Unlocking r)
        (s\<lparr>content := c', revision := revision s\<rparr>))"
      by (rule lock_step.body_call) (use i Body r in simp_all)
    then show ?thesis using Body by (simp add: do_step_def j r)
  next
    case (Unlocking r)
    then show ?thesis using lock_step.unlock [OF i Unlocking, of "revision s"] by (simp add: do_step_def j)
  qed (use assms in \<open>simp add: can_step_def\<close>)
qed

lemma run_schedule_run:
  "run_schedule serial reliable jobs body ks s = Some t \<Longrightarrow> (lock_step serial reliable jobs body ^^ length ks) s t"
proof (induction ks arbitrary: s)
  case (Cons k ks)
  obtain i fails where k: "k = (i, fails)" by fastforce
  with Cons.prems have c: "can_step serial reliable jobs (i, fails) s"
    "run_schedule serial reliable jobs body ks (do_step jobs body (i, fails) s) = Some t" by (auto split: if_splits)
  show ?case using do_step_ok [OF c(1)] Cons.IH [OF c(2)] relpowp_Suc_I2 by (metis length_Cons)
qed simp

end
