(* ===== verification/EtcdRequests.thy ===== *)
theory EtcdRequests
  imports EtcdMutex
begin

text \<open>
  The requests to the etcd store as bodies under its lock: \<open>Reserve\<close> and \<open>ReleaseByID\<close> of
  \<open>pkg/ipametcd/backend/etcd/backend.go\<close> call by call, between \<open>Lock\<close> and \<open>Unlock\<close>;
  \<open>EtcdGets\<close> builds on them the bodies of the allocator. The claims are about any number of daemons
  that work on requests at the same time.
\<close>

datatype rpc =
    ReserveGet string string ip string
  | ReservePut string string ip string
  | ReserveLast ip string
  | ReleaseList string string
  | ReleaseOldList string
  | ReleaseDelete string

datatype reply = Reserved "go_error + bool" | Released "go_error option"

text \<open>One call to etcd, with the code up to the next one.\<close>

fun store_rpc ::
    "(gomap \<Rightarrow> gomap) \<Rightarrow> 'c kv_client \<Rightarrow> string \<Rightarrow> rpc \<Rightarrow> 'c \<Rightarrow> (rpc + reply) \<times> 'c" where
  "store_rpc ord c p (ReserveGet cid ifname a rid) s =
     (case kv_get c (ip_key p a) s of
        (Inr _, s') \<Rightarrow> (Inr (Reserved (Inr False)), s')
      | (Inl err, s') \<Rightarrow>
          (if err \<noteq> ErrKeyNotExists then Inr (Reserved (Inl err)) else Inl (ReservePut cid ifname a rid), s'))"
| "store_rpc ord c p (ReservePut cid ifname a rid) s =
     (case kv_set c (ip_key p a) (TrimSpace cid @ LineBreak @ ifname) s of
        (Some err, s') \<Rightarrow> (Inr (Reserved (Inl err)), s')
      | (None, s') \<Rightarrow> (Inl (ReserveLast a rid), s'))"
| "store_rpc ord c p (ReserveLast a rid) s =
     (case kv_set c (last_key p rid) (ip_String a) s of
        (Some err, s') \<Rightarrow> (Inr (Reserved (Inl err)), s')
      | (None, s') \<Rightarrow> (Inr (Reserved (Inr True)), s'))"
| "store_rpc ord c p (ReleaseList cid ifname) s =
     (case kv_list c p s of
        (Inl err, s') \<Rightarrow> (Inr (Released (Some err)), s')
      | (Inr strs, s') \<Rightarrow>
          (case find (\<lambda>(k, v). TrimSpace v = TrimSpace cid @ LineBreak @ ifname) (ord strs) of
             None \<Rightarrow> (Inl (ReleaseOldList cid), s')
           | Some (k, v) \<Rightarrow> (Inl (ReleaseDelete k), s')))"
| "store_rpc ord c p (ReleaseOldList cid) s =
     (case kv_list c p s of
        (Inl err, s') \<Rightarrow> (Inr (Released (Some err)), s')
      | (Inr strs, s') \<Rightarrow>
          (case find (\<lambda>(k, v). TrimSpace v = TrimSpace cid) (ord strs) of
             None \<Rightarrow> (Inr (Released None), s')
           | Some (k, v) \<Rightarrow> (Inl (ReleaseDelete k), s')))"
| "store_rpc ord c p (ReleaseDelete k) s = (case kv_delete c k s of (err, s') \<Rightarrow> (Inr (Released err), s'))"

text \<open>The rest of a body as one operation; for a whole body it is the operation of the store.\<close>

fun store_op :: "(gomap \<Rightarrow> gomap) \<Rightarrow> 'c kv_client \<Rightarrow> string \<Rightarrow> rpc \<Rightarrow> 'c \<Rightarrow> reply \<times> 'c" where
  "store_op ord c p (ReserveGet cid ifname a rid) s = map_prod Reserved id (etcd_Reserve c p cid ifname a rid s)"
| "store_op ord c p (ReservePut cid ifname a rid) s =
     (case kv_set c (ip_key p a) (TrimSpace cid @ LineBreak @ ifname) s of
        (Some err, s') \<Rightarrow> (Reserved (Inl err), s')
      | (None, s') \<Rightarrow>
          (case kv_set c (last_key p rid) (ip_String a) s' of
             (Some err, s'') \<Rightarrow> (Reserved (Inl err), s'')
           | (None, s'') \<Rightarrow> (Reserved (Inr True), s'')))"
| "store_op ord c p (ReserveLast a rid) s =
     (case kv_set c (last_key p rid) (ip_String a) s of
        (Some err, s') \<Rightarrow> (Reserved (Inl err), s')
      | (None, s') \<Rightarrow> (Reserved (Inr True), s'))"
| "store_op ord c p (ReleaseList cid ifname) s = map_prod Released id (etcd_ReleaseByID ord c p cid ifname s)"
| "store_op ord c p (ReleaseOldList cid) s =
     (case ReleaseByKey ord c p (TrimSpace cid) s of
        (Inl err, s') \<Rightarrow> (Released (Some err), s')
      | (Inr _, s') \<Rightarrow> (Released None, s'))"
| "store_op ord c p (ReleaseDelete k) s = (case kv_delete c k s of (err, s') \<Rightarrow> (Released err, s'))"

fun rpc_calls :: "rpc \<Rightarrow> nat" where
  "rpc_calls (ReserveGet cid ifname a rid) = 3"
| "rpc_calls (ReservePut cid ifname a rid) = 2"
| "rpc_calls (ReserveLast a rid) = 1"
| "rpc_calls (ReleaseList cid ifname) = 3"
| "rpc_calls (ReleaseOldList cid) = 2"
| "rpc_calls (ReleaseDelete k) = 1"

interpretation store: rpc_body "store_rpc ord c p" "store_op ord c p" rpc_calls "\<lambda>_. True" for ord c p
proof
  fix b s r s'
  assume "store_rpc ord c p b s = (Inr r, s')"
  then show "store_op ord c p b s = (r, s')"
    by (cases b) (auto simp: etcd_Reserve_def etcd_ReleaseByID_def ReleaseByKey_def Let_def
        split: prod.splits sum.splits option.splits if_splits)
next
  fix b s b' s'
  assume "store_rpc ord c p b s = (Inl b', s')"
  then show "store_op ord c p b s = store_op ord c p b' s'"
    by (cases b) (auto simp: etcd_Reserve_def etcd_ReleaseByID_def ReleaseByKey_def Let_def
        split: prod.splits sum.splits option.splits if_splits bool.splits)
next
  fix b s b' s'
  assume "store_rpc ord c p b s = (Inl b', s')"
  then show "True \<and> rpc_calls b' < rpc_calls b"
    by (cases b) (auto split: prod.splits sum.splits option.splits if_splits)
qed

section \<open>One address, one request\<close>

fun reserve_ip :: "rpc \<Rightarrow> ip option" where
  "reserve_ip (ReserveGet cid ifname a rid) = Some a"
| "reserve_ip _ = None"

text \<open>Reservations one after the other: every granted address is held, and was granted once.\<close>

definition granted :: "(nat \<times> rpc) list \<Rightarrow> (nat \<rightharpoonup> reply) \<Rightarrow> nat \<Rightarrow> string \<Rightarrow> bool" where
  "granted jobs d i k \<longleftrightarrow> d i = Some (Reserved (Inr True)) \<and> (\<exists>a. reserve_ip (snd (jobs ! i)) = Some a \<and> ip_String a = k)"

definition granted_once :: "(nat \<times> rpc) list \<Rightarrow> (string \<rightharpoonup> string) \<Rightarrow> (nat \<rightharpoonup> reply) \<Rightarrow> bool" where
  "granted_once jobs held d \<longleftrightarrow>
     (\<forall>i k. granted jobs d i k \<longrightarrow> held k \<noteq> None) \<and> (\<forall>i j k. granted jobs d i k \<longrightarrow> granted jobs d j k \<longrightarrow> i = j)"

context etcd_node
begin

lemma one_by_one_granted:
  assumes "inv s0" "granted_once jobs (etcd_held (view s0) (keyPrefix st)) d0"
    "\<forall>i \<in> set is. \<exists>cid ifn a rid. snd (jobs ! i) = ReserveGet cid ifn a rid" "distinct is" "\<forall>i \<in> set is. d0 i = None"
    "one_by_one (store_op ord c (keyPrefix st)) jobs is (d0, s0) = (d, s)"
  shows "inv s \<and> granted_once jobs (etcd_held (view s) (keyPrefix st)) d"
  using assms
proof (induction "is" arbitrary: d0 s0)
  case Nil
  then show ?case by simp
next
  case (Cons i "is")
  obtain cid ifn a rid where r: "snd (jobs ! i) = ReserveGet cid ifn a rid" using Cons.prems(3) by auto
  obtain res s1 where e: "etcd_Reserve c (keyPrefix st) cid ifn a rid s0 = (res, s1)" by fastforce
  then have op: "Reserve (etcd_ops ord c st) cid ifn a rid s0 = (res, s1)" by (simp add: etcd_ops_def Let_def)
  let ?d = "d0(i \<mapsto> Reserved res)" and ?held = "\<lambda>s. etcd_held (view s) (keyPrefix st)"
  have rest: "one_by_one (store_op ord c (keyPrefix st)) jobs is (?d, s1) = (d, s)"
    using Cons.prems(6) by (simp add: r e)
  have grows: "?held s0 \<subseteq>\<^sub>m ?held s1" by (rule node.reserve_grows [OF Cons.prems(1) op])
  have old: "granted jobs ?d j k \<longleftrightarrow> granted jobs d0 j k \<or> j = i \<and> res = Inr True \<and> k = ip_String a" for j k
    using Cons.prems(5) r by (auto simp: granted_def)
  have new: "?held s0 (ip_String a) = None \<and> ?held s1 (ip_String a) \<noteq> None" if "res = Inr True"
    using node.reserve_new [OF Cons.prems(1) op [unfolded that]] by simp
  have "granted_once jobs (?held s1) ?d"
    using Cons.prems(2) new grows unfolding granted_once_def old map_le_def
    by (metis domI not_None_eq)
  note once = this
  have "inv s1" by (rule node.reserve_inv [OF Cons.prems(1) op])
  moreover have "\<forall>j \<in> set is. ?d j = None" using Cons.prems(4,5) by auto
  ultimately show ?case using Cons.IH [OF _ once _ _ _ rest] Cons.prems(3,4) by simp
qed

end

lemma requests_explained:
  assumes "(lock_step True True jobs (store_rpc ord c p) ^^ n) (initial_sys content0) s"
  shows "\<exists>is d content'. one_by_one (store_op ord c p) jobs is (Map.empty, content0) = (d, content') \<and>
    distinct is \<and> set is = dom (answers s) \<and> d = answers s \<and>
    ((\<forall>i < length jobs. \<forall>b. phases s i \<noteq> Body b) \<longrightarrow> content s = content')"
proof -
  obtain "is" where e: "store.explains ord c p jobs content0 is s" using store.explains_run [OF _ assms] by auto
  obtain d content' where o: "one_by_one (store_op ord c p) jobs is (Map.empty, content0) = (d, content')" by fastforce
  from e [unfolded store.explains_def o prod.case] have
    "distinct is" "set is = dom (answers s)" "d = answers s"
    "(\<forall>i < length jobs. \<forall>b. phases s i \<noteq> Body b) \<longrightarrow> content s = content'" by auto
  with o show ?thesis by blast
qed

section \<open>Sample runs\<close>

text \<open>Two daemons, and two requests of one daemon, for one address.\<close>

definition two_daemons :: "(nat \<times> rpc) list" where
  "two_daemons = [(1, ReserveGet ''a'' ''eth0'' [10, 0, 0, 7] ''0''), (2, ReserveGet ''b'' ''eth0'' [10, 0, 0, 7] ''0'')]"

definition one_daemon :: "(nat \<times> rpc) list" where
  "one_daemon = [(1, ReserveGet ''a'' ''eth0'' [10, 0, 0, 7] ''0''), (1, ReserveGet ''b'' ''eth0'' [10, 0, 0, 7] ''0'')]"

abbreviation memory_rpc :: "rpc \<Rightarrow> gomap \<Rightarrow> (rpc + reply) \<times> gomap" where
  "memory_rpc \<equiv> store_rpc (\<lambda>m. m) memory_client ''/n''"

text \<open>The first daemon gets the lock, the second waits for its key; then both finish.\<close>

definition first_inside :: "(rpc, gomap, reply) lock_sys option" where
  "first_inside = run_schedule True True two_daemons memory_rpc [(0, False), (1, False), (0, False), (1, False)] (initial_sys [])"

definition both_done :: "(rpc, gomap, reply) lock_sys option" where
  "both_done = run_schedule True True two_daemons memory_rpc
     (map (\<lambda>i. (i, False)) [0, 1, 0, 1, 0, 0, 0, 1, 1, 1, 1]) (initial_sys [])"

lemma first_inside_run:
  "\<exists>n s. (lock_step True True two_daemons memory_rpc ^^ n) (initial_sys []) s \<and> inside (phases s 0)"
proof -
  have "case first_inside of None \<Rightarrow> False | Some s \<Rightarrow> inside (phases s 0)" by code_simp
  then obtain s where "first_inside = Some s" "inside (phases s 0)" by (auto split: option.splits)
  from run_schedule_run [OF this(1) [unfolded first_inside_def]] this(2) show ?thesis by blast
qed

lemma both_done_run:
  "\<exists>n s. (lock_step True True two_daemons memory_rpc ^^ n) (initial_sys []) s \<and>
     answers s 0 = Some (Reserved (Inr True)) \<and> answers s 1 = Some (Reserved (Inr False)) \<and>
     content s = [(''/n/10.0.0.7'', etcd_owner ''a'' ''eth0''), (''/n/last_reserved_ip.0'', ''10.0.0.7'')]"
proof -
  have "case both_done of None \<Rightarrow> False | Some s \<Rightarrow>
      answers s 0 = Some (Reserved (Inr True)) \<and> answers s 1 = Some (Reserved (Inr False)) \<and>
      content s = [(''/n/10.0.0.7'', etcd_owner ''a'' ''eth0''), (''/n/last_reserved_ip.0'', ''10.0.0.7'')]" by code_simp
  then obtain s where s: "both_done = Some s"
    "answers s 0 = Some (Reserved (Inr True))" "answers s 1 = Some (Reserved (Inr False))"
    "content s = [(''/n/10.0.0.7'', etcd_owner ''a'' ''eth0''), (''/n/last_reserved_ip.0'', ''10.0.0.7'')]"
    by (auto split: option.splits)
  from run_schedule_run [OF s(1) [unfolded both_done_def]] s(2-4) show ?thesis by blast
qed

lemma both_cases:
  assumes "case r of None \<Rightarrow> False | Some s \<Rightarrow> P s \<and> Q s"
  obtains s where "r = Some s" "P s" "Q s"
  using assms by (auto split: option.splits)

section \<open>Properties\<close>

text \<open>
  While \<open>Lock\<close> does not fail and every daemon works on one request at a time, at most one of all the
  requests of all daemons is between \<open>Lock\<close> and \<open>Unlock\<close>, in every interleaving of their calls to etcd.
\<close>

theorem requests_exclusive:
  assumes "(lock_step True True jobs (store_rpc ord c p) ^^ n) (initial_sys content0) s"
    "i < length jobs" "j < length jobs" "inside (phases s i)" "inside (phases s j)"
  shows "i = j"
  using inside_once [OF lock_ok_run [OF assms(1)] assms(2-5)] .

theorem requests_exclusive_witness:
  "\<exists>n s. (lock_step True True two_daemons memory_rpc ^^ n) (initial_sys []) s \<and> inside (phases s 0) \<and> \<not> inside (phases s 1)"
proof -
  obtain n s where r: "(lock_step True True two_daemons memory_rpc ^^ n) (initial_sys []) s" "inside (phases s 0)"
    using first_inside_run by blast
  have "length two_daemons = 2" by (simp add: two_daemons_def)
  with requests_exclusive [OF r(1), of 0 1] r show ?thesis by force
qed

text \<open>
  Under the same conditions concurrent requests behave as if they ran one after the other: in every
  reachable state there is an order of the answered requests such that \<open>Reserve\<close> and \<open>ReleaseByID\<close>, run
  whole in this order from the first content of etcd, give the same answers, and the same content
  whenever no request is under way.
\<close>

theorem requests_serial:
  assumes "(lock_step True True jobs (store_rpc ord c p) ^^ n) (initial_sys content0) s"
  shows "\<exists>is d content'. one_by_one (store_op ord c p) jobs is (Map.empty, content0) = (d, content') \<and>
    distinct is \<and> set is = dom (answers s) \<and> d = answers s \<and>
    ((\<forall>i < length jobs. \<forall>b. phases s i \<noteq> Body b) \<longrightarrow> content s = content')"
by (rule requests_explained [OF assms])

theorem requests_serial_witness:
  "\<exists>is d content'. one_by_one (store_op (\<lambda>m. m) memory_client ''/n'') two_daemons is (Map.empty, []) = (d, content') \<and>
     d 0 = Some (Reserved (Inr True)) \<and> d 1 = Some (Reserved (Inr False))"
proof -
  obtain n s where r: "(lock_step True True two_daemons memory_rpc ^^ n) (initial_sys []) s"
    "answers s 0 = Some (Reserved (Inr True))" "answers s 1 = Some (Reserved (Inr False))"
    using both_done_run by blast
  from requests_serial [OF r(1)] r(2,3) show ?thesis by auto
qed

text \<open>
  Every request is answered: no interleaving of the calls of \<open>n\<close> requests is longer than \<open>n * (2 * n + 9)\<close>
  calls, a state in which no call is possible has answered all of them, and from every reachable
  state such a state can be reached.
\<close>

theorem requests_answered:
  assumes "(lock_step True True jobs (store_rpc ord c p) ^^ n) (initial_sys content0) s"
  shows "n \<le> length jobs * (2 * length jobs + 9) \<and>
    ((\<nexists>t. lock_step True True jobs (store_rpc ord c p) s t) \<longrightarrow> (\<forall>i < length jobs. \<exists>r. phases s i = Finished r)) \<and>
    (\<exists>m t. (lock_step True True jobs (store_rpc ord c p) ^^ m) s t \<and> (\<forall>i < length jobs. \<exists>r. phases t i = Finished r))"
proof -
  note ok = lock_ok_run [OF assms]
  have "rpc_calls b \<le> 3" for b by (cases b) simp_all
  then have calls: "\<forall>(l, b) \<in> set jobs. rpc_calls b \<le> 3" by auto
  have good: "rpc_body.all_good (\<lambda>_. True) jobs s" for s :: "(rpc, 'a, reply) lock_sys"
    by (simp add: store.all_good_def)
  from store.budget_run [OF assms good] store.budget_initial [OF calls, of content0]
  have "n \<le> length jobs * (2 * length jobs + 9)" by (simp add: add.commute)
  with lock_enabled [OF ok] store.run_finishes [OF ok good] show ?thesis by blast
qed

theorem requests_answered_witness:
  "\<exists>m t. (lock_step True True two_daemons memory_rpc ^^ m) (initial_sys []) t \<and> (\<forall>i < 2. \<exists>r. phases t i = Finished r)"
proof -
  have run: "(lock_step True True two_daemons memory_rpc ^^ 0) (initial_sys []) (initial_sys [])" by simp
  have l: "length two_daemons = 2" by (simp add: two_daemons_def)
  show ?thesis by (rule requests_answered [OF run, unfolded l, THEN conjunct2, THEN conjunct2])
qed

text \<open>
  Of concurrent reservations no two are granted the same address, for every client that behaves as
  etcd does, if \<open>Lock\<close> does not fail and every daemon works on one request at a time.
\<close>

theorem requests_grant_once:
  assumes "etcd_kv c I view" "I content0"
    "(lock_step True True jobs (store_rpc (\<lambda>m. m) c p) ^^ n) (initial_sys content0) s"
    "\<forall>(l, b) \<in> set jobs. \<exists>cid ifn a rid. b = ReserveGet cid ifn a rid"
    "i < length jobs" "j < length jobs" "i \<noteq> j"
    "answers s i = Some (Reserved (Inr True))" "answers s j = Some (Reserved (Inr True))"
    "reserve_ip (snd (jobs ! i)) = Some a" "reserve_ip (snd (jobs ! j)) = Some b"
  shows "ip_String a \<noteq> ip_String b"
proof
  assume same: "ip_String a = ip_String b"
  let ?st = "\<lparr>etcdLock = \<lparr>mutexKey = EtcdLockKey, sess = None\<rparr>, keyPrefix = p\<rparr>"
  have node: "etcd_node c I view (\<lambda>m. m)"
    using assms(1) insertion_order.go_maps_axioms by (intro etcd_node.intro)
  obtain "is" d content' where o:
    "one_by_one (store_op (\<lambda>m. m) c (keyPrefix ?st)) jobs is (Map.empty, content0) = (d, content')"
    "distinct is" "set is = dom (answers s)" "d = answers s"
    using requests_explained [OF assms(3)] by auto
  have "\<exists>cid ifn a rid. snd (jobs ! i) = ReserveGet cid ifn a rid" if "i \<in> set is" for i
  proof -
    have "i < length jobs" using that run_others [OF assms(3), of i] by (force simp: o(3) answers_def not_le [symmetric])
    then have "jobs ! i \<in> set jobs" by simp
    with assms(4) show ?thesis by (cases "jobs ! i") auto
  qed
  then have "\<forall>i \<in> set is. \<exists>cid ifn a rid. snd (jobs ! i) = ReserveGet cid ifn a rid" by blast
  moreover have "granted_once jobs (etcd_held (view content0) (keyPrefix ?st)) Map.empty"
    by (simp add: granted_once_def granted_def)
  ultimately have "granted_once jobs (etcd_held (view content') (keyPrefix ?st)) d"
    using etcd_node.one_by_one_granted [OF node assms(2) _ _ o(2) _ o(1)] by blast
  moreover have "granted jobs d i (ip_String a)" "granted jobs d j (ip_String a)"
    using assms(8-11) same by (simp_all add: granted_def o(4))
  ultimately show False using assms(7) by (auto simp: granted_once_def)
qed

definition two_addresses :: "(nat \<times> rpc) list" where
  "two_addresses = [(1, ReserveGet ''a'' ''eth0'' [10, 0, 0, 7] ''0''), (2, ReserveGet ''b'' ''eth0'' [10, 0, 0, 8] ''0'')]"

definition both_granted :: "(rpc, gomap, reply) lock_sys option" where
  "both_granted = run_schedule True True two_addresses memory_rpc
     (map (\<lambda>i. (i, False)) [0, 1, 0, 1, 0, 0, 0, 1, 1, 1, 1, 1]) (initial_sys [])"

theorem requests_grant_once_witness:
  "\<exists>n s. (lock_step True True two_addresses memory_rpc ^^ n) (initial_sys []) s \<and>
     answers s 0 = Some (Reserved (Inr True)) \<and> answers s 1 = Some (Reserved (Inr True)) \<and>
     ip_String [10, 0, 0, 7] \<noteq> ip_String [10, 0, 0, 8]"
proof -
  have "case both_granted of None \<Rightarrow> False | Some s \<Rightarrow>
      answers s 0 = Some (Reserved (Inr True)) \<and> answers s 1 = Some (Reserved (Inr True))" by code_simp
  then obtain s where s: "both_granted = Some s"
    "answers s 0 = Some (Reserved (Inr True))" "answers s 1 = Some (Reserved (Inr True))" by (auto split: option.splits)
  note run = run_schedule_run [OF s(1) [unfolded both_granted_def]]
  have m: "memory_inv []" by (simp add: memory_inv_def)
  have a: "\<forall>(l, b) \<in> set two_addresses. \<exists>cid ifn a rid. b = ReserveGet cid ifn a rid"
    "reserve_ip (snd (two_addresses ! 0)) = Some [10, 0, 0, 7]" "reserve_ip (snd (two_addresses ! 1)) = Some [10, 0, 0, 8]"
    by (simp_all add: two_addresses_def)
  have "ip_String [10, 0, 0, 7] \<noteq> ip_String [10, 0, 0, 8]"
    by (rule requests_grant_once [OF memory.etcd_kv_axioms m run a(1) _ _ _ s(2,3) a(2,3)])
      (simp_all add: two_addresses_def)
  with run s(2,3) show ?thesis by blast
qed

text \<open>
  Neither condition can be left out. Two requests of one daemon at the same time, which share the key
  of their session's lock, are both granted one address; so are two requests of different daemons when
  the first call of \<open>Lock\<close> fails in one of them, since its error is ignored.
\<close>

theorem requests_granted_twice:
  "(\<exists>n s. (lock_step False True one_daemon memory_rpc ^^ n) (initial_sys []) s \<and>
      answers s 0 = Some (Reserved (Inr True)) \<and> answers s 1 = Some (Reserved (Inr True))) \<and>
   (\<exists>n s. (lock_step True False two_daemons memory_rpc ^^ n) (initial_sys []) s \<and>
      answers s 0 = Some (Reserved (Inr True)) \<and> answers s 1 = Some (Reserved (Inr True)))"
proof -
  let ?ks = "map (\<lambda>i. (i, False)) [0, 1, 0, 1, 0, 1, 0, 1]"
  let ?ls = "(0, True) # map (\<lambda>i. (i, False)) [1, 0, 1, 0, 1, 0, 1]"
  let ?both = "\<lambda>r. case r of None \<Rightarrow> False | Some s \<Rightarrow>
    answers s 0 = Some (Reserved (Inr True)) \<and> answers s 1 = Some (Reserved (Inr True))"
  have "?both (run_schedule False True one_daemon memory_rpc ?ks (initial_sys []))"
    "?both (run_schedule True False two_daemons memory_rpc ?ls (initial_sys []))" by code_simp+
  note runs = this
  obtain s where s: "run_schedule False True one_daemon memory_rpc ?ks (initial_sys []) = Some s"
    "answers s 0 = Some (Reserved (Inr True))" "answers s 1 = Some (Reserved (Inr True))"
    using runs(1) by (rule both_cases)
  obtain t where t: "run_schedule True False two_daemons memory_rpc ?ls (initial_sys []) = Some t"
    "answers t 0 = Some (Reserved (Inr True))" "answers t 1 = Some (Reserved (Inr True))"
    using runs(2) by (rule both_cases)
  from run_schedule_run [OF s(1)] s(2,3) run_schedule_run [OF t(1)] t(2,3) show ?thesis by blast
qed

end
