(* ===== verification/EtcdGets.thy ===== *)
theory EtcdGets
  imports EtcdRequests EtcdIpam
begin

text \<open>
  \<open>IPAllocator.Get\<close> and \<open>IPAllocator.Release\<close> (\<open>allocator.go\<close>) call by call, as any number of daemons run
  them at the same time on one etcd: everything between \<open>store.Lock\<close> and the deferred \<open>store.Unlock\<close> is a
  body of the system of \<open>EtcdMutex\<close>, with the reservations of \<open>EtcdRequests\<close> inside. The claims say that
  concurrent calls do what the calls of the theory \<open>Allocator\<close> do one after the other, that they
  end, and that no address is handed out twice.
\<close>

section \<open>The bodies\<close>

text \<open>
  Where a \<open>Get\<close> is: at its beginning; before \<open>GetIter\<close> reads the last reserved address; before a call of
  \<open>Next\<close>; in a reservation, with the offer it is for and the iterator of the loop, if it is in the loop.
\<close>

datatype job =
    GetBegin ip_allocator string string ip
  | GetLast ip_allocator string string
  | GetNext ip_allocator string string range_iter
  | GetReserve ip_allocator string string rpc "ipnet \<times> ip" "range_iter option"
  | ReleaseJob rpc

datatype ipam_answer = Got "(go_error + ip_config) outcome" | Gave "go_error option"

definition got :: "ip_allocator \<Rightarrow> (go_error + (ipnet \<times> ip) option) outcome \<Rightarrow> ipam_answer" where
  "got a r = Got (map_outcome (Get_result a) r)"

definition not_available :: "ip_allocator \<Rightarrow> ip \<Rightarrow> go_error" where
  "not_available a addr =
     Errorf ''requested IP address %s is not available in range set %s'' [ip_String addr, RangeSet_String (Rangeset a)]"

text \<open>At most one call to etcd, with the code up to the next one; a \<open>Next\<close> that runs forever stays where it is.\<close>

fun job_call ::
    "(gomap \<Rightarrow> gomap) \<Rightarrow> 'c kv_client \<Rightarrow> etcd_store \<Rightarrow> job \<Rightarrow> 'c \<Rightarrow> (job + ipam_answer) \<times> 'c" where
  "job_call ord c st (GetBegin a cid ifname requestedIP) s =
     (if requestedIP \<noteq> [] then
        (case canonicalizeIP requestedIP of
           Inl e \<Rightarrow> (Inr (got a (Returns (Inl e))), s)
         | Inr addr \<Rightarrow>
             (case RangeFor (Rangeset a) addr of
                Inl e \<Rightarrow> (Inr (got a (Returns (Inl e))), s)
              | Inr r \<Rightarrow>
                  if ip_Equal addr (Gateway r)
                  then (Inr (got a (Returns (Inl (Errorf ''requested ip %s is subnet's gateway'' [ip_String addr])))), s)
                  else (Inl (GetReserve a cid ifname (ReserveGet cid ifname addr (rangeID a))
                         (\<lparr>IP = addr, Mask = Mask (Subnet r)\<rparr>, Gateway r) None), s)))
      else
        (let (allocatedIPs, s1) = etcd_GetByID ord c (keyPrefix st) cid ifname s in
         case find (\<lambda>ip. \<not> isl (RangeFor (Rangeset a) ip)) allocatedIPs of
           Some allocatedIP \<Rightarrow>
             (Inr (got a (Returns (Inl (Errorf ''%s has been allocated to %s, duplicate allocation is not allowed''
                [ip_String allocatedIP, cid])))), s1)
         | None \<Rightarrow> (Inl (GetLast a cid ifname), s1)))"
| "job_call ord c st (GetLast a cid ifname) s =
     (case GetIter (etcd_ops ord c st) (Rangeset a) (rangeID a) s of
        (Panics, s1) \<Rightarrow> (Inr (got a Panics), s1)
      | (Returns iter, s1) \<Rightarrow> (Inl (GetNext a cid ifname iter), s1))"
| "job_call ord c st (GetNext a cid ifname iter) s =
     (case Next iter of
        None \<Rightarrow> (Inl (GetNext a cid ifname iter), s)
      | Some Panics \<Rightarrow> (Inr (got a Panics), s)
      | Some (Returns (None, iter)) \<Rightarrow> (Inr (got a (Returns (Inr None))), s)
      | Some (Returns (Some ng, iter)) \<Rightarrow>
          (Inl (GetReserve a cid ifname (ReserveGet cid ifname (IP (fst ng)) (rangeID a)) ng (Some iter)), s))"
| "job_call ord c st (GetReserve a cid ifname r ng iter) s =
     (case store_rpc ord c (keyPrefix st) r s of
        (Inl r', s1) \<Rightarrow> (Inl (GetReserve a cid ifname r' ng iter), s1)
      | (Inr (Released e), s1) \<Rightarrow> (Inr (Gave e), s1)
      | (Inr (Reserved (Inl e)), s1) \<Rightarrow> (Inr (got a (Returns (Inl e))), s1)
      | (Inr (Reserved (Inr True)), s1) \<Rightarrow> (Inr (got a (Returns (Inr (Some ng)))), s1)
      | (Inr (Reserved (Inr False)), s1) \<Rightarrow>
          (case iter of
             None \<Rightarrow> (Inr (got a (Returns (Inl (not_available a (IP (fst ng)))))), s1)
           | Some i \<Rightarrow> (Inl (GetNext a cid ifname i), s1)))"
| "job_call ord c st (ReleaseJob r) s =
     (case store_rpc ord c (keyPrefix st) r s of
        (Inl r', s1) \<Rightarrow> (Inl (ReleaseJob r'), s1)
      | (Inr (Released e), s1) \<Rightarrow> (Inr (Gave e), s1)
      | (Inr (Reserved e), s1) \<Rightarrow> (Inr (Gave None), s1))"

section \<open>The calls as one operation\<close>

text \<open>The store without its lock: what a call does when no other process takes part.\<close>

definition alloc_ops :: "(gomap \<Rightarrow> gomap) \<Rightarrow> 'c kv_client \<Rightarrow> etcd_store \<Rightarrow> 'c store_ops" where
  "alloc_ops ord c st = etcd_ops ord (c\<lparr>mutexLock := Pair None, mutexUnlock := Pair None\<rparr>) st"

fun job_run :: "(gomap \<Rightarrow> gomap) \<Rightarrow> 'c kv_client \<Rightarrow> etcd_store \<Rightarrow> job \<Rightarrow> 'c \<Rightarrow> (ipam_answer \<times> 'c) option" where
  "job_run ord c st (GetBegin a cid ifname requestedIP) s =
     map_option (map_prod Got id) (Get (alloc_ops ord c st) a cid ifname requestedIP s)"
| "job_run ord c st (GetNext a cid ifname iter) s =
     map_option (map_prod (got a) id) (get_loop (alloc_ops ord c st) cid ifname (rangeID a) iter s)"
| "job_run ord c st (GetLast a cid ifname) s =
     (case GetIter (alloc_ops ord c st) (Rangeset a) (rangeID a) s of
        (Panics, s1) \<Rightarrow> Some (got a Panics, s1)
      | (Returns iter, s1) \<Rightarrow> map_option (map_prod (got a) id) (get_loop (alloc_ops ord c st) cid ifname (rangeID a) iter s1))"
| "job_run ord c st (GetReserve a cid ifname r ng iter) s =
     (case store_op ord c (keyPrefix st) r s of
        (Released e, s1) \<Rightarrow> Some (Gave e, s1)
      | (Reserved (Inl e), s1) \<Rightarrow> Some (got a (Returns (Inl e)), s1)
      | (Reserved (Inr True), s1) \<Rightarrow> Some (got a (Returns (Inr (Some ng))), s1)
      | (Reserved (Inr False), s1) \<Rightarrow>
          (case iter of
             None \<Rightarrow> Some (got a (Returns (Inl (not_available a (IP (fst ng))))), s1)
           | Some i \<Rightarrow> map_option (map_prod (got a) id) (get_loop (alloc_ops ord c st) cid ifname (rangeID a) i s1)))"
| "job_run ord c st (ReleaseJob r) s =
     (case store_op ord c (keyPrefix st) r s of
        (Released e, s1) \<Rightarrow> Some (Gave e, s1)
      | (Reserved e, s1) \<Rightarrow> Some (Gave None, s1))"

lemma kv_no_lock:
  "kv_set (c\<lparr>mutexLock := l, mutexUnlock := u\<rparr>) = kv_set c" "kv_get (c\<lparr>mutexLock := l, mutexUnlock := u\<rparr>) = kv_get c"
  "kv_list (c\<lparr>mutexLock := l, mutexUnlock := u\<rparr>) = kv_list c"
  "kv_delete (c\<lparr>mutexLock := l, mutexUnlock := u\<rparr>) = kv_delete c"
  by (simp_all add: fun_eq_iff kv_list_def etcd_op_defs)

lemma store_no_lock:
  "etcd_Reserve (c\<lparr>mutexLock := l, mutexUnlock := u\<rparr>) = etcd_Reserve c"
  "etcd_GetByID ord (c\<lparr>mutexLock := l, mutexUnlock := u\<rparr>) = etcd_GetByID ord c"
  "etcd_LastReservedIP (c\<lparr>mutexLock := l, mutexUnlock := u\<rparr>) = etcd_LastReservedIP c"
  "etcd_ReleaseByID ord (c\<lparr>mutexLock := l, mutexUnlock := u\<rparr>) = etcd_ReleaseByID ord c"
  unfolding fun_eq_iff etcd_Reserve_def etcd_GetByID_def etcd_LastReservedIP_def etcd_ReleaseByID_def
    ReleaseByKey_def kv_no_lock by simp_all

lemma alloc_ops_simps [simp]:
  "Lock (alloc_ops ord c st) = Pair None" "Unlock (alloc_ops ord c st) = Pair None"
  "Reserve (alloc_ops ord c st) = etcd_Reserve c (keyPrefix st)"
  "GetByID (alloc_ops ord c st) = etcd_GetByID ord c (keyPrefix st)"
  "LastReservedIP (alloc_ops ord c st) = LastReservedIP (etcd_ops ord c st)"
  "ReleaseByID (alloc_ops ord c st) = etcd_ReleaseByID ord c (keyPrefix st)"
  by (simp_all add: alloc_ops_def etcd_ops_def Let_def store_no_lock)

lemma GetIter_alloc [simp]: "GetIter (alloc_ops ord c st) = GetIter (etcd_ops ord c st)"
  by (simp add: fun_eq_iff GetIter_def)


text \<open>A call of a body, seen from the operation.\<close>

lemma job_run_next:
  "job_run ord c st b s =
    (case job_call ord c st b s of
       (Inl b', s') \<Rightarrow> job_run ord c st b' s'
     | (Inr r, s') \<Rightarrow> Some (r, s'))"
proof (cases b)
  case (GetBegin a cid ifn req)
  then show ?thesis
    by (simp add: Get_def with_lock_def Get_requested_def Get_dynamic_def Let_def got_def not_available_def id_def
        split: prod.split sum.split option.split outcome.split bool.split)
next
  case (GetNext a cid ifn i)
  then show ?thesis
    by (simp add: get_loop.simps [of _ _ _ _ i] Let_def case_prod_unfold
        split: option.split outcome.split sum.split bool.split)
next
  case (GetReserve a cid ifn r ng it)
  obtain res s' where "store_rpc ord c (keyPrefix st) r s = (res, s')" by fastforce
  with GetReserve store.atomic_done [of ord c "keyPrefix st" r s] store.atomic_call [of ord c "keyPrefix st" r s]
  show ?thesis by (cases res) (auto split: reply.split sum.split bool.split option.split)
next
  case (ReleaseJob r)
  obtain res s' where "store_rpc ord c (keyPrefix st) r s = (res, s')" by fastforce
  with ReleaseJob store.atomic_done [of ord c "keyPrefix st" r s] store.atomic_call [of ord c "keyPrefix st" r s]
  show ?thesis by (cases res) (auto split: reply.split)
qed (simp split: prod.split outcome.split)

section \<open>Every body ends\<close>

text \<open>
  A set of one range, as the daemon configures it, makes the loop of a \<open>Get\<close> finite: the iterator of the
  loop has positions left (\<open>pending\<close>), fewer after every call of \<open>Next\<close>.
\<close>

definition one_range :: "ip_allocator \<Rightarrow> bool" where
  "one_range a \<longleftrightarrow> wf_set (Rangeset a) \<and> length (Rangeset a) = 1"

definition runs_out :: "ip_allocator \<Rightarrow> range_iter \<Rightarrow> bool" where
  "runs_out a i \<longleftrightarrow> (\<exists>xs. pending (Rangeset a) i xs)"

definition left :: "ip_allocator \<Rightarrow> range_iter \<Rightarrow> nat" where
  "left a i = (LEAST n. \<exists>xs. pending (Rangeset a) i xs \<and> length xs = n)"

lemma left_le: "pending (Rangeset a) i xs \<Longrightarrow> left a i \<le> length xs"
  unfolding left_def by (intro Least_le exI conjI) simp_all

lemma runs_outE:
  assumes "runs_out a i"
  obtains xs where "pending (Rangeset a) i xs" "length xs = left a i"
  using assms LeastI_ex [of "\<lambda>n. \<exists>xs. pending (Rangeset a) i xs \<and> length xs = n"]
  by (auto simp: runs_out_def left_def)

lemma Next_runs_out:
  assumes "runs_out a i"
  shows "\<exists>o' i'. Next i = Some (Returns (o', i')) \<and> (o' \<noteq> None \<longrightarrow> runs_out a i' \<and> left a i' < left a i)"
proof -
  obtain xs where xs: "pending (Rangeset a) i xs" "length xs = left a i" by (rule runs_outE [OF assms])
  show ?thesis
  proof (cases "dropWhile (is_gateway (Rangeset a)) xs")
    case Nil
    then show ?thesis using Next_pending_None [OF xs(1)] by blast
  next
    case (Cons y zs)
    have "length zs < length xs" using length_dropWhile_le [of "is_gateway (Rangeset a)" xs] by (simp add: Cons)
    moreover obtain i' where "Next i = Some (Returns (Some (yield (Rangeset a) y), i'))" "pending (Rangeset a) i' zs"
      using Next_pending_Some [OF xs(1) Cons] by blast
    moreover from this(2) have "runs_out a i'" "left a i' \<le> length zs" using left_le by (auto simp: runs_out_def)
    ultimately show ?thesis using xs(2) by auto
  qed
qed

lemma GetIter_runs_out:
  assumes "one_range a"
  shows "\<exists>i s'. GetIter ops (Rangeset a) rid s = (Returns i, s') \<and> runs_out a i \<and> left a i \<le> length (ring (Rangeset a))"
proof -
  obtain res s' where l: "LastReservedIP ops rid s = (res, s')" by fastforce
  have wf: "wf_set (Rangeset a)" "length (Rangeset a) = 1" "Rangeset a \<noteq> []" using assms by (auto simp: one_range_def)
  from GetIter_pending [OF wf(1,3) l refl resumes_ok_single [OF wf(2,1)]] obtain i prev where
    "GetIter ops (Rangeset a) rid s = (Returns i, s')" "pending (Rangeset a) i (try_order (Rangeset a) prev)" by blast
  moreover from left_le [OF this(2)] have "left a i \<le> length (ring (Rangeset a))"
    by (simp add: try_order_def split: option.splits)
  ultimately show ?thesis by (auto simp: runs_out_def)
qed

fun is_reserve :: "rpc \<Rightarrow> bool" where
  "is_reserve (ReserveGet cid ifname a rid) = True"
| "is_reserve (ReservePut cid ifname a rid) = True"
| "is_reserve (ReserveLast a rid) = True"
| "is_reserve _ = False"

lemma store_rpc_kind:
  "store_rpc ord c p r s = (Inl r', s') \<Longrightarrow> is_reserve r' = is_reserve r"
  "store_rpc ord c p r s = (Inr (Reserved e), s') \<Longrightarrow> is_reserve r"
  "store_rpc ord c p r s = (Inr (Released d), s') \<Longrightarrow> \<not> is_reserve r"
  by (cases r; force split: prod.splits sum.splits option.splits if_splits)+

fun good_job :: "job \<Rightarrow> bool" where
  "good_job (GetBegin a cid ifname requestedIP) \<longleftrightarrow> (requestedIP = [] \<longrightarrow> one_range a)"
| "good_job (GetLast a cid ifname) \<longleftrightarrow> one_range a"
| "good_job (GetNext a cid ifname i) \<longleftrightarrow> runs_out a i"
| "good_job (GetReserve a cid ifname r ng iter) \<longleftrightarrow> is_reserve r \<and> (\<forall>i. iter = Some i \<longrightarrow> runs_out a i)"
| "good_job (ReleaseJob r) \<longleftrightarrow> \<not> is_reserve r"

fun job_calls :: "job \<Rightarrow> nat" where
  "job_calls (GetBegin a cid ifname requestedIP) = 4 * length (ring (Rangeset a)) + 4"
| "job_calls (GetLast a cid ifname) = 4 * length (ring (Rangeset a)) + 2"
| "job_calls (GetNext a cid ifname i) = 4 * left a i + 1"
| "job_calls (GetReserve a cid ifname r ng iter) =
     rpc_calls r + (case iter of None \<Rightarrow> 0 | Some i \<Rightarrow> 4 * left a i + 1)"
| "job_calls (ReleaseJob r) = rpc_calls r"

lemma rpc_calls_pos: "0 < rpc_calls r" "rpc_calls r \<le> 3"
  by (cases r; simp)+

lemma job_call_less:
  assumes "good_job b" "job_call ord c st b s = (Inl b', s')"
  shows "good_job b' \<and> job_calls b' < job_calls b"
proof (cases b)
  case (GetBegin a cid ifn req)
  then show ?thesis using assms
    by (auto split: if_splits sum.splits prod.splits option.splits)
next
  case (GetLast a cid ifn)
  then obtain i u where "GetIter (etcd_ops ord c st) (Rangeset a) (rangeID a) s = (Returns i, u)" "runs_out a i"
    "left a i \<le> length (ring (Rangeset a))" using GetIter_runs_out assms(1) by fastforce
  then show ?thesis using assms(2) GetLast by auto
next
  case (GetNext a cid ifn i)
  with assms(1) obtain o' i' where "Next i = Some (Returns (o', i'))"
    "o' \<noteq> None \<longrightarrow> runs_out a i' \<and> left a i' < left a i" using Next_runs_out [of a i] by auto
  then show ?thesis using assms(2) GetNext by (auto split: option.splits)
next
  case (GetReserve a cid ifn r ng it)
  obtain res u where r: "store_rpc ord c (keyPrefix st) r s = (res, u)" by fastforce
  show ?thesis
  proof (cases res)
    case (Inl r')
    with r store.calls_less [of ord c "keyPrefix st" r s r' u] store_rpc_kind(1) GetReserve assms show ?thesis by fastforce
  next
    case (Inr rep)
    with r GetReserve assms rpc_calls_pos(1) [of r] show ?thesis
      by (auto split: reply.splits sum.splits bool.splits option.splits)
  qed
next
  case (ReleaseJob r)
  obtain res u where r: "store_rpc ord c (keyPrefix st) r s = (res, u)" by fastforce
  with ReleaseJob assms store.calls_less [of ord c "keyPrefix st" r s _ u] store_rpc_kind(1) show ?thesis
    by (cases res) (fastforce split: reply.splits)+
qed


interpretation alloc: rpc_body "job_call ord c st" "\<lambda>b s. the (job_run ord c st b s)" job_calls good_job for ord c st
proof
  fix b s r s'
  assume "job_call ord c st b s = (Inr r, s')"
  then show "the (job_run ord c st b s) = (r, s')" by (simp add: job_run_next [of _ _ _ b])
next
  fix b s b' s'
  assume "job_call ord c st b s = (Inl b', s')"
  then show "the (job_run ord c st b s) = the (job_run ord c st b' s')" by (simp add: job_run_next [of _ _ _ b])
qed (rule job_call_less)

section \<open>One call after the other\<close>

text \<open>The calls that a server makes: \<open>Get\<close>, over one range unless an address is requested, and \<open>Release\<close>.\<close>

fun allocator_request :: "job \<Rightarrow> bool" where
  "allocator_request (GetBegin a cid ifname requestedIP) \<longleftrightarrow> (requestedIP = [] \<longrightarrow> one_range a)"
| "allocator_request (ReleaseJob (ReleaseList cid ifname)) \<longleftrightarrow> True"
| "allocator_request _ \<longleftrightarrow> False"



lemma allocator_request_good: "allocator_request b \<Longrightarrow> good_job b"
  by (cases b rule: allocator_request.cases) auto




section \<open>One address, one call\<close>

text \<open>
  What the calls in turn keep: an address that a \<open>Get\<close> returned is held for its container, and no other
  call returned it, among the calls whose container no \<open>Release\<close> is for.
\<close>

definition not_released :: "(nat \<times> job) list \<Rightarrow> nat \<Rightarrow> bool" where
  "not_released jobs i \<longleftrightarrow>
     (\<forall>a cid ifn req. snd (jobs ! i) = GetBegin a cid ifn req \<longrightarrow>
        (\<forall>(l, b) \<in> set jobs. \<forall>cid' ifn'. b = ReleaseJob (ReleaseList cid' ifn') \<longrightarrow>
           \<not> etcd_releases cid' ifn' (etcd_owner cid ifn)))"



definition wf_job :: "(nat \<times> job) list \<Rightarrow> nat \<Rightarrow> bool" where
  "wf_job jobs i \<longleftrightarrow> i < length jobs \<and> allocator_request (snd (jobs ! i)) \<and>
     (\<forall>a cid ifn req. snd (jobs ! i) = GetBegin a cid ifn req \<longrightarrow> wf_set (Rangeset a) \<and> Rangeset a \<noteq> [])"





section \<open>Sample runs\<close>

text \<open>Two daemons, and two requests of one daemon, for any address of one range.\<close>

definition two_gets :: "(nat \<times> job) list" where
  "two_gets = [(1, GetBegin sample_allocator ''a'' ''eth0'' []), (2, GetBegin sample_allocator ''b'' ''eth0'' [])]"

definition same_gets :: "(nat \<times> job) list" where
  "same_gets = [(1, GetBegin sample_allocator ''a'' ''eth0'' []), (1, GetBegin sample_allocator ''b'' ''eth0'' [])]"

abbreviation memory_call :: "job \<Rightarrow> gomap \<Rightarrow> (job + ipam_answer) \<times> gomap" where
  "memory_call \<equiv> job_call (\<lambda>m. m) memory_client sample_store"




lemma two_gets_ok:
  "length two_gets = 2" "\<forall>(l, b) \<in> set two_gets. allocator_request b" "\<forall>i < length two_gets. wf_job two_gets i"
  "not_released two_gets i" "snd (two_gets ! 0) = GetBegin sample_allocator ''a'' ''eth0'' []"
proof -
  have "wf_set (Rangeset sample_allocator)" "length (Rangeset sample_allocator) = 1" by code_simp+
  then show "length two_gets = 2" "\<forall>(l, b) \<in> set two_gets. allocator_request b" "\<forall>i < length two_gets. wf_job two_gets i"
    "not_released two_gets i" "snd (two_gets ! 0) = GetBegin sample_allocator ''a'' ''eth0'' []"
    by (auto simp: two_gets_def one_range_def wf_job_def not_released_def nth_Cons' less_Suc_eq numeral_2_eq_2)
qed

section \<open>Properties\<close>



text \<open>
  C8. Suppose every daemon works on one request at a time, \<open>Lock\<close> does not fail, and every call of \<open>Get\<close> without a
  requested address is one of an allocator with one well-formed range (with several it may run forever). Then every call
  is answered: with at most \<open>m\<close> addresses in every range set, no interleaving of the calls to etcd of \<open>k\<close> requests is
  longer than \<open>k * (2 * k + 4 * m + 10)\<close>, a state in which nothing can happen has answered all of them, and
  from every reachable state such a state can be reached.
\<close>

theorem gets_answered:
  assumes "(lock_step True True jobs (job_call ord c st) ^^ n) (initial_sys content0) s"
    "\<forall>(l, b) \<in> set jobs. allocator_request b"
    "\<forall>(l, b) \<in> set jobs. \<forall>a cid ifn req. b = GetBegin a cid ifn req \<longrightarrow> length (ring (Rangeset a)) \<le> m"
  shows "n \<le> length jobs * (2 * length jobs + 4 * m + 10) \<and>
    ((\<nexists>t. lock_step True True jobs (job_call ord c st) s t) \<longrightarrow> (\<forall>i < length jobs. \<exists>r. phases s i = Finished r)) \<and>
    (\<exists>q t. (lock_step True True jobs (job_call ord c st) ^^ q) s t \<and> (\<forall>i < length jobs. \<exists>r. phases t i = Finished r))"
proof -
  note ok = lock_ok_run [OF assms(1)]
  have "\<forall>(l, b) \<in> set jobs. good_job b" using assms(2) allocator_request_good by auto
  note good = alloc.all_good_initial [OF this, of content0]
  have "job_calls b \<le> 4 * m + 4" if "(l, b) \<in> set jobs" for l b
    using assms(2,3) that by (cases b rule: allocator_request.cases) fastforce+
  then have "\<forall>(l, b) \<in> set jobs. job_calls b \<le> 4 * m + 4" by auto
  note start = alloc.budget_initial [OF this, of content0]
  have "n \<le> length jobs * (2 * length jobs + 4 * m + 10)"
    using alloc.budget_run [OF assms(1) good] start by (simp add: add.assoc)
  with lock_enabled [OF ok] alloc.run_finishes [OF ok alloc.all_good_run [OF assms(1) good]] show ?thesis by blast
qed

theorem gets_answered_witness:
  "\<exists>q t. (lock_step True True two_gets memory_call ^^ q) (initial_sys []) t \<and> (\<forall>i < 2. \<exists>r. phases t i = Finished r)"
proof -
  have run: "(lock_step True True two_gets memory_call ^^ 0) (initial_sys []) (initial_sys [])" by simp
  have "\<forall>(l, b) \<in> set two_gets. \<forall>a cid ifn req. b = GetBegin a cid ifn req \<longrightarrow>
      length (ring (Rangeset a)) \<le> length (ring (Rangeset sample_allocator))" by (auto simp: two_gets_def)
  from gets_answered [OF run two_gets_ok(2) this] show ?thesis unfolding two_gets_ok(1) by blast
qed



text \<open>
  C16. Neither condition can be left out: two calls of \<open>Get\<close> of one daemon at the same time, which share the
  key of their session's lock, are both granted the first free address; so are two calls of different daemons
  when \<open>Lock\<close> fails in one of them, since \<open>Get\<close> ignores its error.
\<close>

theorem gets_granted_twice:
  "(\<exists>n s. (lock_step False True same_gets memory_call ^^ n) (initial_sys []) s \<and>
      answers s 0 = Some (Got (Returns (Inr sample_config))) \<and> answers s 1 = Some (Got (Returns (Inr sample_config)))) \<and>
   (\<exists>n s. (lock_step True False two_gets memory_call ^^ n) (initial_sys []) s \<and>
      answers s 0 = Some (Got (Returns (Inr sample_config))) \<and> answers s 1 = Some (Got (Returns (Inr sample_config))))"
proof -
  let ?ks = "map (\<lambda>i. (i, False)) [0, 1, 0, 1, 0, 1, 0, 1, 0, 1, 0, 1, 0, 1]"
  let ?ls = "(0, True) # map (\<lambda>i. (i, False)) [1, 0, 1, 0, 1, 0, 1, 0, 1, 0, 1, 0, 1]"
  let ?both = "\<lambda>r. case r of None \<Rightarrow> False | Some s \<Rightarrow>
    answers s 0 = Some (Got (Returns (Inr sample_config))) \<and> answers s 1 = Some (Got (Returns (Inr sample_config)))"
  have "?both (run_schedule False True same_gets memory_call ?ks (initial_sys []))"
    "?both (run_schedule True False two_gets memory_call ?ls (initial_sys []))" by code_simp+
  note runs = this
  obtain s where s: "run_schedule False True same_gets memory_call ?ks (initial_sys []) = Some s"
    "answers s 0 = Some (Got (Returns (Inr sample_config)))" "answers s 1 = Some (Got (Returns (Inr sample_config)))"
    using runs(1) by (rule both_cases)
  obtain t where t: "run_schedule True False two_gets memory_call ?ls (initial_sys []) = Some t"
    "answers t 0 = Some (Got (Returns (Inr sample_config)))" "answers t 1 = Some (Got (Returns (Inr sample_config)))"
    using runs(2) by (rule both_cases)
  from run_schedule_run [OF s(1)] s(2,3) run_schedule_run [OF t(1)] t(2,3) show ?thesis by blast
qed

end
