(* ===== verification/EtcdLease.thy ===== *)
theory EtcdLease
  imports EtcdGets
begin

text \<open>
  The mutex when leases expire. The keys of a session hang on its lease
  (\<open>vendor/go.etcd.io/etcd/clientv3/concurrency/session.go\<close>, \<open>mutex.go\<close>): when a daemon is cut off from etcd for longer
  than the lease lives, etcd deletes them, and every later \<open>Lock\<close> of the session fails, since the key it
  puts needs the lease. \<open>lock.go\<close> makes one session at the start and neither watches it nor makes another,
  and \<open>allocator.go\<close> ignores the error.
\<close>

section \<open>The system with expiry\<close>

text \<open>
  The first component are the dead leases. A goroutine of a daemon with a dead lease goes past \<open>Lock\<close>
  with an error; everything else is as in \<open>lock_step\<close>, with its two parameters: \<open>serial\<close>, that a daemon works on
  one request at a time, which neither \<open>lock.go\<close> nor \<open>handler.go\<close> enforces, and \<open>reliable\<close>, that \<open>Lock\<close> fails for no
  other reason than a dead lease.
\<close>

inductive lease_step ::
    "bool \<Rightarrow> bool \<Rightarrow> (nat \<times> 'b) list \<Rightarrow> ('b \<Rightarrow> 'c \<Rightarrow> ('b + 'r) \<times> 'c) \<Rightarrow>
     nat set \<times> ('b, 'c, 'r) lock_sys \<Rightarrow> nat set \<times> ('b, 'c, 'r) lock_sys \<Rightarrow> bool"
  for serial reliable jobs body where
  works: "lock_step serial reliable jobs body s t \<Longrightarrow>
    \<forall>i < length jobs. fst (jobs ! i) \<in> dead \<longrightarrow> phases s i = Start \<longrightarrow> phases t i = Start \<Longrightarrow>
    lease_step serial reliable jobs body (dead, s) (dead, t)"
| lock_fails: "i < length jobs \<Longrightarrow> phases s i = Start \<Longrightarrow> jobs ! i = (lease, b) \<Longrightarrow> lease \<in> dead \<Longrightarrow>
    serial \<longrightarrow> (\<forall>j < length jobs. fst (jobs ! j) = lease \<longrightarrow> \<not> active (phases s j)) \<Longrightarrow>
    lease_step serial reliable jobs body (dead, s)
      (dead, to_phase i (Body b) (s\<lparr>mutexes := (mutexes s)(lease := (mutexes s lease)\<lparr>myKey := Some lease\<rparr>)\<rparr>))"
| expires: "revision s \<le> rv \<Longrightarrow>
    lease_step serial reliable jobs body (dead, s)
      (insert lease dead, s\<lparr>lockKeys := filter (\<lambda>(l, _). l \<noteq> lease) (lockKeys s), revision := rv\<rparr>)"

section \<open>While the leases of the daemons live\<close>

text \<open>
  Expiry of a session that holds no key, that of a daemon without a request or of another program, does
  not disturb the mutex.
\<close>

lemma lock_ok_revision: "lock_ok jobs s \<Longrightarrow> revision s \<le> rv \<Longrightarrow> lock_ok jobs (s\<lparr>revision := rv\<rparr>)"
  by (fastforce simp: lock_ok_def keys_ok_def)

lemma idle_lease:
  assumes "lock_ok jobs s" "\<forall>j < length jobs. fst (jobs ! j) = lease \<longrightarrow> \<not> active (phases s j)"
  shows "filter (\<lambda>(l, _). l \<noteq> lease) (lockKeys s) = lockKeys s"
  using lock_okD(2) [OF assms(1)] assms(2) by (fastforce simp: filter_id_conv)

text \<open>No goroutine of a daemon with a dead lease is at work on a request, now or later.\<close>

fun finished :: "('b, 'r) phase \<Rightarrow> bool" where
  "finished (Finished r) = True"
| "finished _ = False"

definition spared :: "(nat \<times> 'b) list \<Rightarrow> nat set \<Rightarrow> ('b, 'c, 'r) lock_sys \<Rightarrow> bool" where
  "spared jobs dead s \<longleftrightarrow> list_all (\<lambda>j. fst (jobs ! j) \<in> dead \<longrightarrow> finished (phases s j)) [0..<length jobs]"

lemma sparedD: "spared jobs dead s \<Longrightarrow> j < length jobs \<Longrightarrow> fst (jobs ! j) \<in> dead \<Longrightarrow> \<exists>r. phases s j = Finished r"
  by (cases "phases s j") (auto simp: spared_def list_all_iff)

lemma lease_step_ok:
  assumes "lease_step True True jobs body x y" "lock_ok jobs (snd x)" "spared jobs (fst y) (snd x)"
  shows "lock_ok jobs (snd y)"
  using assms
proof (induction rule: lease_step.induct)
  case (works s t dead)
  then show ?case using lock_ok_step by simp
next
  case (lock_fails i s lease b dead)
  then show ?case using sparedD [of jobs dead s i] by auto
next
  case (expires s rv dead lease)
  then have "\<forall>j < length jobs. fst (jobs ! j) = lease \<longrightarrow> \<not> active (phases s j)"
    using sparedD [of jobs "insert lease dead" s] by fastforce
  from idle_lease [OF _ this] lock_ok_revision [of jobs s rv] expires show ?case by simp
qed

section \<open>Runs by events\<close>

datatype event = Moves nat | Expires nat

definition do_event ::
    "(nat \<times> 'b) list \<Rightarrow> ('b \<Rightarrow> 'c \<Rightarrow> ('b + 'r) \<times> 'c) \<Rightarrow> event \<Rightarrow>
     nat set \<times> ('b, 'c, 'r) lock_sys \<Rightarrow> (nat set \<times> ('b, 'c, 'r) lock_sys) option" where
  "do_event jobs body e x =
     (case (e, x) of
        (Moves i, (dead, s)) \<Rightarrow>
          (let fails = (i < length jobs \<and> phases s i = Start \<and> fst (jobs ! i) \<in> dead)
           in if can_step True (\<not> fails) jobs (i, fails) s then Some (dead, do_step jobs body (i, fails) s) else None)
      | (Expires l, (dead, s)) \<Rightarrow>
          Some (insert l dead, s\<lparr>lockKeys := filter (\<lambda>(q, _). q \<noteq> l) (lockKeys s), revision := revision s\<rparr>))"

text \<open>\<open>strict\<close>: only leases of daemons expire whose requests are done.\<close>

fun run_events ::
    "bool \<Rightarrow> (nat \<times> 'b) list \<Rightarrow> ('b \<Rightarrow> 'c \<Rightarrow> ('b + 'r) \<times> 'c) \<Rightarrow> event list \<Rightarrow>
     nat set \<times> ('b, 'c, 'r) lock_sys \<Rightarrow> (nat set \<times> ('b, 'c, 'r) lock_sys) option" where
  "run_events strict jobs body [] x = Some x"
| "run_events strict jobs body (e # es) x =
     (case do_event jobs body e x of
        None \<Rightarrow> None
      | Some y \<Rightarrow> if strict \<and> \<not> spared jobs (fst y) (snd x) then None else run_events strict jobs body es y)"

definition spared_step ::
    "(nat \<times> 'b) list \<Rightarrow> ('b \<Rightarrow> 'c \<Rightarrow> ('b + 'r) \<times> 'c) \<Rightarrow>
     nat set \<times> ('b, 'c, 'r) lock_sys \<Rightarrow> nat set \<times> ('b, 'c, 'r) lock_sys \<Rightarrow> bool" where
  "spared_step jobs body x y \<longleftrightarrow> lease_step True True jobs body x y \<and> spared jobs (fst y) (snd x)"

lemma do_step_others: "j \<noteq> i \<Longrightarrow> phases (do_step jobs body (i, fails) s) j = phases s j"
  by (auto simp: do_step_def Lock_txn_def Let_def split: phase.splits prod.splits option.splits)

lemma do_event_ok:
  assumes "do_event jobs body e x = Some y"
  shows "lease_step True True jobs body x y"
proof (cases e)
  case (Expires l)
  obtain dead s where "x = (dead, s)" by fastforce
  with assms Expires lease_step.expires [of s "revision s" True True jobs body dead l] show ?thesis by (simp add: do_event_def)
next
  case (Moves i)
  obtain dead s where x: "x = (dead, s)" by fastforce
  define fails where "fails \<longleftrightarrow> i < length jobs \<and> phases s i = Start \<and> fst (jobs ! i) \<in> dead"
  have can: "can_step True (\<not> fails) jobs (i, fails) s" and y: "y = (dead, do_step jobs body (i, fails) s)"
    using assms unfolding do_event_def Moves x fails_def by (auto simp: Let_def split: if_splits)
  show ?thesis
  proof (cases fails)
    case True
    obtain l b where j: "jobs ! i = (l, b)" by fastforce
    have "i < length jobs" "phases s i = Start" "l \<in> dead"
      "\<forall>q < length jobs. fst (jobs ! q) = l \<longrightarrow> \<not> active (phases s q)"
      using can True j by (auto simp: fails_def can_step_def list_all_iff)
    note l = this
    from lease_step.lock_fails [OF l(1,2) j l(3), of True] l(4) show ?thesis
      using True l(2) by (simp add: x y do_step_def j)
  next
    case False
    then have "lock_step True True jobs body s (do_step jobs body (i, False) s)" using can do_step_ok by simp
    moreover have "phases (do_step jobs body (i, False) s) j = Start"
      if "j < length jobs" "fst (jobs ! j) \<in> dead" "phases s j = Start" for j
      using do_step_others [of j i jobs body False s] that False by (cases "j = i") (simp_all add: fails_def)
    ultimately show ?thesis using False by (simp add: x y lease_step.works)
  qed
qed

lemma run_events_run:
  "run_events strict jobs body es x = Some y \<Longrightarrow> (lease_step True True jobs body)\<^sup>*\<^sup>* x y"
proof (induction es arbitrary: x)
  case (Cons e es)
  then obtain z where "do_event jobs body e x = Some z" "run_events strict jobs body es z = Some y"
    by (auto split: option.splits if_splits)
  then show ?case using do_event_ok Cons.IH by (metis converse_rtranclp_into_rtranclp)
qed simp

lemma run_events_strict:
  "run_events True jobs body es x = Some y \<Longrightarrow> (spared_step jobs body)\<^sup>*\<^sup>* x y"
proof (induction es arbitrary: x)
  case (Cons e es)
  then obtain z where "do_event jobs body e x = Some z" "spared jobs (fst z) (snd x)" "run_events True jobs body es z = Some y"
    by (auto split: option.splits if_splits)
  then show ?case using do_event_ok Cons.IH by (metis converse_rtranclp_into_rtranclp spared_step_def)
qed simp

section \<open>Properties\<close>

text \<open>
  C17. Suppose every daemon works on one request at a time and \<open>Lock\<close> fails for no other reason than a dead lease.
  As long as leases expire only of sessions whose requests are all done, or that have none, at most one
  request of all daemons is between \<open>Lock\<close> and \<open>Unlock\<close>. (Two requests of one daemon share the key of the lock
  and are both let in.)
\<close>

theorem leases_exclusive:
  assumes "(spared_step jobs (job_call ord c st))\<^sup>*\<^sup>* ({}, initial_sys content0) (dead, s)"
    "i < length jobs" "j < length jobs" "inside (phases s i)" "inside (phases s j)"
  shows "i = j"
proof -
  have "lock_ok jobs (snd y)" if "(spared_step jobs (job_call ord c st))\<^sup>*\<^sup>* ({}, initial_sys content0) y" for y
    using that by (induction rule: rtranclp_induct) (auto simp: spared_step_def intro: lock_ok_initial lease_step_ok)
  from inside_once [OF this [OF assms(1), unfolded snd_conv] assms(2-5)] show ?thesis .
qed

text \<open>The first daemon finishes and loses its lease while the second waits, which then goes on.\<close>

definition late_expiry :: "(nat set \<times> (job, gomap, ipam_answer) lock_sys) option" where
  "late_expiry =
     run_events True two_gets memory_call (map Moves ([0, 1, 1] @ replicate 7 0) @ [Expires 1] @ map Moves [1, 1])
       ({}, initial_sys [])"

theorem leases_exclusive_witness:
  "\<exists>s. (spared_step two_gets memory_call)\<^sup>*\<^sup>* ({}, initial_sys []) ({1}, s) \<and> inside (phases s 1) \<and> \<not> inside (phases s 0)"
proof -
  have "case late_expiry of None \<Rightarrow> False | Some x \<Rightarrow> fst x = {1} \<and> inside (phases (snd x) 1)" by code_simp
  then obtain x where "late_expiry = Some x" "fst x = {1}" "inside (phases (snd x) 1)" by (rule both_cases)
  note x = this
  have run: "(spared_step two_gets memory_call)\<^sup>*\<^sup>* ({}, initial_sys []) ({1}, snd x)"
    using run_events_strict [OF x(1) [unfolded late_expiry_def]] x(2) by (metis prod.collapse)
  with leases_exclusive [OF run, of 0 1] x(3) show ?thesis by (auto simp: two_gets_ok(1))
qed

text \<open>
  C18. An expired lease opens the lock, also when every daemon works on one request at a time. When the lease of a daemon expires while it is between \<open>Lock\<close> and
  \<open>Unlock\<close>, a daemon that waits goes on and both are granted the same address; and a daemon whose
  lease has expired once is never kept out again, so calls that begin later are granted the same
  address too.
\<close>

theorem lease_granted_twice:
  "(\<exists>s. (lease_step True True two_gets memory_call)\<^sup>*\<^sup>* ({}, initial_sys []) ({1}, s) \<and>
      answers s 0 = Some (Got (Returns (Inr sample_config))) \<and> answers s 1 = Some (Got (Returns (Inr sample_config)))) \<and>
   (\<exists>s. (lease_step True True two_gets memory_call)\<^sup>*\<^sup>* ({1}, initial_sys []) ({1}, s) \<and>
      answers s 0 = Some (Got (Returns (Inr sample_config))) \<and> answers s 1 = Some (Got (Returns (Inr sample_config))))"
proof -
  let ?es = "map Moves [0, 1, 1, 0, 0, 0, 0] @ [Expires 1] @ map Moves ([1, 1, 1, 1, 1, 1] @ [0, 0, 1, 1])"
  let ?fs = "map Moves [0, 1, 0, 1, 0, 1, 0, 1, 0, 1, 0, 1, 0, 1]"
  let ?both = "\<lambda>r. case r of None \<Rightarrow> False | Some x \<Rightarrow> fst x = {1} \<and>
    answers (snd x) 0 = Some (Got (Returns (Inr sample_config))) \<and> answers (snd x) 1 = Some (Got (Returns (Inr sample_config)))"
  have "?both (run_events False two_gets memory_call ?es ({}, initial_sys []))"
    "?both (run_events False two_gets memory_call ?fs ({1}, initial_sys []))" by code_simp+
  note runs = this
  obtain x where x: "run_events False two_gets memory_call ?es ({}, initial_sys []) = Some x" "fst x = {1}"
    "answers (snd x) 0 = Some (Got (Returns (Inr sample_config))) \<and> answers (snd x) 1 = Some (Got (Returns (Inr sample_config)))"
    using runs(1) by (rule both_cases)
  obtain y where y: "run_events False two_gets memory_call ?fs ({1}, initial_sys []) = Some y" "fst y = {1}"
    "answers (snd y) 0 = Some (Got (Returns (Inr sample_config))) \<and> answers (snd y) 1 = Some (Got (Returns (Inr sample_config)))"
    using runs(2) by (rule both_cases)
  from run_events_run [OF x(1)] x(2,3) run_events_run [OF y(1)] y(2,3) show ?thesis by (metis prod.collapse)
qed

end
