(* ===== verification/HttpAnswers.thy ===== *)
theory HttpAnswers
  imports CniPlugin
begin

text \<open>
  The answers of the daemon as they go over its socket (\<open>pkg/daemon/util.go\<close>: \<open>writeOkResponse\<close> and
  \<open>writeErrorResponse\<close>; \<open>handler.go\<close>: the paths that \<open>Run\<close> registers). A \<open>response_writer\<close> is what
  \<open>net/http\<close> has of an answer: the header can be set until the status is sent, the first status counts,
  the first byte of a body sends status 200, and a handler that writes nothing answers 200 with an empty
  body. \<open>enc\<close> is the JSON encoder, which writes a whole document or, on an error, nothing.
\<close>

section \<open>The response writer\<close>

datatype json_doc = ResultDoc ipam_result | EmptyDoc | ErrorDoc nat string

datatype 'b chunk = Encoded 'b | PlainText string

record 'b response_writer =
  contentType :: string
  statusCode :: "nat option"
  written :: "'b chunk list"

definition new_writer :: "'b response_writer" where
  "new_writer = \<lparr>contentType = [], statusCode = None, written = []\<rparr>"

definition set_contentType :: "string \<Rightarrow> 'b response_writer \<Rightarrow> 'b response_writer" where
  "set_contentType t w = (if statusCode w = None then w\<lparr>contentType := t\<rparr> else w)"

definition WriteHeader :: "nat \<Rightarrow> 'b response_writer \<Rightarrow> 'b response_writer" where
  "WriteHeader n w = (if statusCode w = None then w\<lparr>statusCode := Some n\<rparr> else w)"

definition write_chunk :: "'b chunk \<Rightarrow> 'b response_writer \<Rightarrow> 'b response_writer" where
  "write_chunk x w = (let w = WriteHeader 200 w in w\<lparr>written := written w @ [x]\<rparr>)"

definition Encode :: "(json_doc \<Rightarrow> go_error + 'b) \<Rightarrow> json_doc \<Rightarrow> 'b response_writer \<Rightarrow> go_error option \<times> 'b response_writer" where
  "Encode enc doc w = (case enc doc of Inl err \<Rightarrow> (Some err, w) | Inr d \<Rightarrow> (None, write_chunk (Encoded d) w))"

definition writeErrorResponse :: "(json_doc \<Rightarrow> go_error + 'b) \<Rightarrow> nat \<Rightarrow> string \<Rightarrow> 'b response_writer \<Rightarrow> 'b response_writer" where
  "writeErrorResponse enc errorCode errorMsg w =
     (let w = set_contentType ''application/json; charset=UTF-8'' w;
          w = WriteHeader errorCode w
      in snd (Encode enc (ErrorDoc 1 errorMsg) w))"

definition writeOkResponse :: "(json_doc \<Rightarrow> go_error + 'b) \<Rightarrow> json_doc \<Rightarrow> 'b response_writer \<Rightarrow> 'b response_writer" where
  "writeOkResponse enc m w =
     (let w = set_contentType ''application/json; charset=UTF-8'' w;
          w = WriteHeader 200 w
      in case Encode enc m w of
           (None, w) \<Rightarrow> w
         | (Some err, w) \<Rightarrow> writeErrorResponse enc 500 ''Internal Server Error'' w)"

section \<open>The handlers of the socket\<close>

definition write_answer :: "(json_doc \<Rightarrow> go_error + 'b) \<Rightarrow> ('r \<Rightarrow> json_doc) \<Rightarrow> 'r response \<Rightarrow> 'b response_writer" where
  "write_answer enc doc r =
     (case r of
        OkJSON m \<Rightarrow> writeOkResponse enc (doc m) new_writer
      | ErrJSON n msg \<Rightarrow> writeErrorResponse enc n msg new_writer
      | NoResponse \<Rightarrow> new_writer)"

text \<open>\<open>req.Form.Get\<close>: the first value of the parameter, or the empty string.\<close>

definition form_get :: "string \<Rightarrow> params \<Rightarrow> string" where
  "form_get k ps = (case map_of ps k of None \<Rightarrow> [] | Some v \<Rightarrow> v)"

definition read_form :: "params \<Rightarrow> form" where
  "read_form ps =
     \<lparr>formIps = form_get ''ips'' ps, formContainerID = form_get ''containerID'' ps, formIfName = form_get ''ifName'' ps\<rparr>"

definition not_found :: "'b response_writer" where
  "not_found =
     write_chunk (PlainText ''404 page not found'')
       (WriteHeader 404 (set_contentType ''text/plain; charset=utf-8'' new_writer))"

definition mux ::
    "(json_doc \<Rightarrow> go_error + 'b) \<Rightarrow> (gomap \<Rightarrow> gomap) \<Rightarrow> 'c kv_client \<Rightarrow> (ip_requests \<Rightarrow> ip_requests) \<Rightarrow>
     go_error + (string \<times> go_error option) \<Rightarrow> ipam_server \<Rightarrow> string \<Rightarrow> params \<Rightarrow> 'c \<Rightarrow>
     ('b response_writer outcome \<times> 'c) option" where
  "mux enc ord c ordR file srv path ps s =
     (let ops = etcd_ops ord c (srvStore srv); req = read_form ps in
      if path = ''/add'' then
        map_option (\<lambda>(r, s'). (map_outcome (write_answer enc ResultDoc) r, s')) (Add ops ordR file srv req s)
      else if path = ''/del'' then
        (case Del ops srv req s of (r, s') \<Rightarrow> Some (Returns (write_answer enc (\<lambda>_. EmptyDoc) r), s'))
      else if path = ''/check'' then
        (case Check ord c srv req s of (r, s') \<Rightarrow> Some (Returns (write_answer enc (\<lambda>_. EmptyDoc) r), s'))
      else Some (Returns not_found, s))"

text \<open>What the client gets of an answer.\<close>

definition status :: "'b response_writer \<Rightarrow> nat" where
  "status w = (case statusCode w of None \<Rightarrow> 200 | Some n \<Rightarrow> n)"

section \<open>What a client can tell from an answer\<close>

lemma writeErrorResponse_new [simp]:
  "status (writeErrorResponse enc n msg new_writer) = n"
  "written (writeErrorResponse enc n msg new_writer) =
    (case enc (ErrorDoc 1 msg) of Inl _ \<Rightarrow> [] | Inr d \<Rightarrow> [Encoded d])"
  by (simp_all add: writeErrorResponse_def Encode_def write_chunk_def WriteHeader_def set_contentType_def
      new_writer_def status_def Let_def split: sum.split)

lemma writeOkResponse_new [simp]:
  "status (writeOkResponse enc m new_writer) = 200"
  "written (writeOkResponse enc m new_writer) =
    (case enc m of
       Inr d \<Rightarrow> [Encoded d]
     | Inl _ \<Rightarrow> (case enc (ErrorDoc 1 ''Internal Server Error'') of Inl _ \<Rightarrow> [] | Inr d \<Rightarrow> [Encoded d]))"
  by (simp_all add: writeOkResponse_def writeErrorResponse_def Encode_def write_chunk_def WriteHeader_def
      set_contentType_def new_writer_def status_def Let_def split: sum.split)

lemma new_writer_sent [simp]: "status new_writer = 200" "written new_writer = []"
  by (simp_all add: new_writer_def status_def)

text \<open>The status tells an answer from an error, and the document is the handler's.\<close>

lemma write_answer_status:
  "status (write_answer enc doc r) = (case r of ErrJSON n _ \<Rightarrow> n | _ \<Rightarrow> 200)"
  by (simp add: write_answer_def split: response.split)

lemma write_answer_written:
  assumes "\<forall>x. \<exists>d. enc x = Inr d"
  shows "written (write_answer enc doc r) =
    (case r of
       OkJSON m \<Rightarrow> [Encoded (projr (enc (doc m)))]
     | ErrJSON _ msg \<Rightarrow> [Encoded (projr (enc (ErrorDoc 1 msg)))]
     | NoResponse \<Rightarrow> [])"
proof -
  have "enc x \<noteq> Inl e" for x e using assms by (metis sum.distinct(1))
  then show ?thesis by (auto simp: write_answer_def split: response.split sum.split)
qed

lemma Add_code:
  "Add ops ordR file srv req s = Some (Returns (ErrJSON n msg), s') \<Longrightarrow> n = StatusBadRequest"
  by (auto simp: Add_def Let_def split: option.splits outcome.splits sum.splits prod.splits if_splits)

text \<open>
  An \<open>Add\<close> that writes no answer did all that one with a readable resolv.conf would have done: it has reserved
  the addresses.
\<close>

lemma Add_silent:
  "Add ops ordR file srv req s = Some (Returns NoResponse, s') \<Longrightarrow>
    ResolvConfFile (ipamConf srv) \<noteq> [] \<and> isl (parseResolvConf file) \<and>
    (\<exists>res. Add ops ordR (Inr ([], None)) srv req s = Some (Returns (OkJSON res), s'))"
proof -
  have "case parseResolvConf (Inr ([], None)) of Inl e \<Rightarrow> False | Inr d \<Rightarrow> True" by code_simp
  then have "\<exists>d. parseResolvConf (Inr ([], None)) = Inr d" by (simp split: sum.splits)
  then show "Add ops ordR file srv req s = Some (Returns NoResponse, s') \<Longrightarrow> ?thesis"
    by (auto simp: Add_def Let_def split: option.splits outcome.splits sum.splits prod.splits if_splits)
qed

lemma Add_readable:
  "Add ops ordR file srv req s = Some (Returns (OkJSON res), s') \<Longrightarrow>
    \<not> (ResolvConfFile (ipamConf srv) \<noteq> [] \<and> isl (parseResolvConf file))"
  by (auto simp: Add_def Let_def split: option.splits outcome.splits sum.splits prod.splits if_splits)

lemma mux_add:
  assumes "mux enc ord c ordR file srv ''/add'' ps s = Some (Returns w, s')"
  obtains r where "Add (etcd_ops ord c (srvStore srv)) ordR file srv (read_form ps) s = Some (Returns r, s')"
    "w = write_answer enc ResultDoc r"
proof -
  from assms obtain o' where "Add (etcd_ops ord c (srvStore srv)) ordR file srv (read_form ps) s = Some (o', s')"
    "map_outcome (write_answer enc ResultDoc) o' = Returns w"
    by (auto simp: mux_def Let_def)
  with that show thesis by (cases o') auto
qed

lemma mux_del:
  assumes "mux enc ord c ordR file srv ''/del'' ps s = Some (Returns w, s')" "status w = 200"
  shows "Del (etcd_ops ord c (srvStore srv)) srv (read_form ps) s = (OkJSON (), s')"
  using assms by (auto simp: mux_def Let_def write_answer_status Del_def split: prod.splits if_splits)

section \<open>The socket as a client sees it\<close>

text \<open>
  \<open>httpc.Post\<close> on a socket whose connections do not fail: \<open>net/http\<close> closes the connection of a handler
  that panics; the last case stands for a call that the client gives up.
\<close>

definition over_socket ::
    "(string \<Rightarrow> params \<Rightarrow> 'c \<Rightarrow> ('b response_writer outcome \<times> 'c) option) \<Rightarrow> string \<Rightarrow> params \<Rightarrow> 'c \<Rightarrow>
     (go_error + nat \<times> (go_error + 'b chunk list)) \<times> 'c" where
  "over_socket handlers url ps s =
     (case handlers (TrimPrefix url ''http://unix'') ps s of
        Some (Returns w, s') \<Rightarrow> (Inr (status w, Inr (written w)), s')
      | Some (Panics, s') \<Rightarrow> (Inl (ErrNew ''EOF''), s')
      | None \<Rightarrow> (Inl (ErrNew ''context canceled''), s))"

lemma over_socket_answer:
  "over_socket handlers url ps s = (Inr (n, content), s') \<longleftrightarrow>
    (\<exists>w. handlers (TrimPrefix url ''http://unix'') ps s = Some (Returns w, s') \<and> n = status w \<and> content = Inr (written w))"
  by (auto simp: over_socket_def split: option.splits prod.splits outcome.splits)

lemma socket_add:
  assumes "over_socket (mux enc ord c ordR file srv) ''http://unix/add'' ps s = (Inr (200, Inr body), s')"
    "\<forall>x. \<exists>d. enc x = Inr d" "body \<noteq> []"
  obtains res where "Add (etcd_ops ord c (srvStore srv)) ordR file srv (read_form ps) s = Some (Returns (OkJSON res), s')"
    "body = [Encoded (projr (enc (ResultDoc res)))]"
proof -
  have path: "TrimPrefix ''http://unix/add'' ''http://unix'' = ''/add''" by code_simp
  with assms(1) obtain w where w: "mux enc ord c ordR file srv ''/add'' ps s = Some (Returns w, s')"
    "status w = 200" "body = written w" by (auto simp: over_socket_answer)
  obtain r where r: "Add (etcd_ops ord c (srvStore srv)) ordR file srv (read_form ps) s = Some (Returns r, s')"
    "w = write_answer enc ResultDoc r" by (rule mux_add [OF w(1)])
  show thesis
  proof (cases r)
    case (OkJSON res)
    with that r w(3) show thesis by (simp add: write_answer_written [OF assms(2)])
  next
    case (ErrJSON n msg)
    with r w(2) Add_code show thesis by (fastforce simp: write_answer_status)
  next
    case NoResponse
    with r w(3) assms(3) show thesis by (simp add: write_answer_written [OF assms(2)])
  qed
qed

lemma socket_del:
  assumes "over_socket (mux enc ord c ordR file srv) ''http://unix/del'' ps s = (Inr (200, content), s')"
  shows "Del (etcd_ops ord c (srvStore srv)) srv (read_form ps) s = (OkJSON (), s')"
proof -
  have "TrimPrefix ''http://unix/del'' ''http://unix'' = ''/del''" by code_simp
  with assms obtain w where "mux enc ord c ordR file srv ''/del'' ps s = Some (Returns w, s')" "status w = 200"
    by (auto simp: over_socket_answer)
  then show ?thesis by (rule mux_del)
qed

section \<open>Properties\<close>

text \<open>
  C14. What the status of an answer to a request for addresses tells. With status 200 addresses that were free
  and are different from each other are held for the container, and nothing else changed in what is held. The body
  is the document that lists them, except that it is empty when the resolv.conf of the configuration cannot be read,
  and the document of an internal error, or empty, when the encoder fails on the result: in these two cases the
  client does not learn its addresses, which stay held. The only other status is 400; then a container that held
  no address before the request holds none, and nothing else changed either. (The ranges are well formed, listing and deleting the keys of etcd
  does not fail, and the container's value is recognised and stored under addresses only.)
\<close>

theorem add_over_http:
  assumes "deleting_kv c I view" "map_order ord" "own_id cid ifn" "wf_server srv" "p = keyPrefix (srvStore srv)"
    "form_get ''containerID'' ps = cid" "form_get ''ifName'' ps = ifn" "I s" "clean p cid ifn (view s)"
    "mux enc ord c ordR file srv ''/add'' ps s = Some (Returns w, s')"
  shows "(\<exists>res. status w = 200 \<and>
      fresh (etcd_held (view s) p) (map config_text (IPs res)) \<and>
      etcd_held (view s') p = grants (map config_text (IPs res)) (etcd_owner cid ifn) (etcd_held (view s) p) \<and>
      written w =
        (if ResolvConfFile (ipamConf srv) \<noteq> [] \<and> isl (parseResolvConf file) then []
         else case enc (ResultDoc res) of
                Inr d \<Rightarrow> [Encoded d]
              | Inl _ \<Rightarrow> (case enc (ErrorDoc 1 ''Internal Server Error'') of Inr d \<Rightarrow> [Encoded d] | Inl _ \<Rightarrow> []))) \<or>
    (\<exists>msg. status w = 400 \<and> written w = (case enc (ErrorDoc 1 msg) of Inr d \<Rightarrow> [Encoded d] | Inl _ \<Rightarrow> []) \<and>
      (owned (etcd_releases cid ifn) (etcd_held (view s) p) = {} \<longrightarrow> etcd_held (view s') p = etcd_held (view s) p))"
proof -
  have form: "formContainerID (read_form ps) = cid" "formIfName (read_form ps) = ifn"
    using assms(6,7) by (simp_all add: read_form_def)
  have quiet: "quiet_kv c I view" using assms(1) by (simp add: deleting_kv_def)
  note granted = exclusive_store.Add_ok [OF quiet_node.exclusive_laws [OF quiet_nodeI [OF quiet assms(2)]] _ assms(8,4)]
  obtain r where r: "Add (etcd_ops ord c (srvStore srv)) ordR file srv (read_form ps) s = Some (Returns r, s')"
    "w = write_answer enc ResultDoc r" by (rule mux_add [OF assms(10)])
  show ?thesis
  proof (cases r)
    case (OkJSON res)
    with r(1) have add: "Add (etcd_ops ord c (srvStore srv)) ordR file srv (read_form ps) s = Some (Returns (OkJSON res), s')"
      by simp
    have "written w = (case enc (ResultDoc res) of
        Inr d \<Rightarrow> [Encoded d]
      | Inl _ \<Rightarrow> (case enc (ErrorDoc 1 ''Internal Server Error'') of Inr d \<Rightarrow> [Encoded d] | Inl _ \<Rightarrow> []))" "status w = 200"
      using r(2) OkJSON by (simp_all add: write_answer_def split: sum.split)
    then show ?thesis using granted [OF add] Add_readable [OF add] form unfolding assms(5) by auto
  next
    case (ErrJSON n msg)
    have "etcd_held (view s') p = etcd_held (view s) p" if "owned (etcd_releases cid ifn) (etcd_held (view s) p) = {}"
      using owner_store.Add_failed [OF owner_node.laws [OF owner_nodeI [OF assms(1-3)]] r(1) [unfolded ErrJSON] _ assms(4) form]
        assms(8,9) that unfolding assms(5) by simp
    moreover have "n = 400" using Add_code [OF r(1) [unfolded ErrJSON]] by simp
    ultimately show ?thesis
      unfolding r(2) ErrJSON by (intro disjI2 exI [of _ msg]) (simp add: write_answer_def)
  next
    case NoResponse
    from Add_silent [OF r(1) [unfolded NoResponse]] obtain res where
      unread: "ResolvConfFile (ipamConf srv) \<noteq> [] \<and> isl (parseResolvConf file)" and
      add: "Add (etcd_ops ord c (srvStore srv)) ordR (Inr ([], None)) srv (read_form ps) s = Some (Returns (OkJSON res), s')" by blast
    have "written w = []" "status w = 200" using r(2) NoResponse by (simp_all add: write_answer_def)
    then show ?thesis using granted [OF add] unread form unfolding assms(5) by auto
  qed
qed

theorem add_over_http_witness:
  "\<exists>w. mux Inr (\<lambda>m. m) memory_client (\<lambda>m. m) (Inl ErrKeyNotExists) sample_server ''/add''
       [(''ips'', formIps sample_form), (''containerID'', ''cont''), (''ifName'', ''eth0'')] [] =
     Some (Returns w, sample_after) \<and> status w = 200 \<and>
     (\<exists>res. written w = [Encoded (ResultDoc res)] \<and>
       etcd_held (map_of sample_after) ''/n/a'' =
         grants (map config_text (IPs res)) (etcd_owner ''cont'' ''eth0'') (etcd_held (map_of []) ''/n/a''))"
proof -
  let ?ps = "[(''ips'', formIps sample_form), (''containerID'', ''cont''), (''ifName'', ''eth0'')]"
  let ?w = "write_answer Inr ResultDoc (OkJSON sample_result)"
  have form: "read_form ?ps = sample_form" "form_get ''containerID'' ?ps = ''cont''" "form_get ''ifName'' ?ps = ''eth0''"
    by code_simp+
  have w: "mux Inr (\<lambda>m. m) memory_client (\<lambda>m. m) (Inl ErrKeyNotExists) sample_server ''/add'' ?ps [] = Some (Returns ?w, sample_after)"
    using sample_Add_ok by (simp add: mux_def form(1))
  have sent: "status ?w = 200" "written ?w = [Encoded (ResultDoc sample_result)]"
    by (simp_all add: write_answer_status write_answer_written)
  have conf: "ResolvConfFile (ipamConf sample_server) = []" by code_simp
  show ?thesis
    using add_over_http [OF memory_server_laws(2-4) sample_server_ok(1) sample_server_ok(4) [symmetric]
        form(2,3) sample_server_ok(3) _ w] w sent conf by (auto simp: no_content)
qed

end
