(* ===== verification/CniProps.thy ===== *)
theory CniProps
  imports HttpAnswers
begin

text \<open>
  What the plugin's commands guarantee. The locale \<open>daemon_host\<close> is a machine whose daemon is the model
  of the address server: a POST that is answered with status 200 ran the handler on the content of etcd,
  and nothing else that the plugin calls touches etcd. It is interpreted on a machine that runs the
  handlers on the in-memory client.
\<close>

section \<open>Early returns\<close>

lemma andThen_Inr:
  "andThen m k s = (Returns (Inr y), s') \<longleftrightarrow> (\<exists>x t. m s = (Returns (Inr x), t) \<and> k x t = (Returns (Inr y), s'))"
  by (auto simp: andThen_def split: prod.splits outcome.splits sum.splits)

lemma wrapping_Inr [simp]:
  "wrapping fmt as m s = (Returns (Inr y), s') \<longleftrightarrow> m s = (Returns (Inr y), s')"
  by (auto simp: wrapping_def split: prod.splits outcome.splits sum.splits)

lemma call_Inr [simp]: "call op s = (Returns (Inr y), s') \<longleftrightarrow> op s = (Inr y, s')"
  by (auto simp: call_def split: prod.splits)

lemma done_with_Inr [simp]: "done_with x s = (Returns (Inr y), s') \<longleftrightarrow> x = y \<and> s = s'"
  by (auto simp: done_with_def)

lemma fails_Inr [simp]: "fails e s \<noteq> (Returns (Inr y), s')"
  by (simp add: fails_def)

text \<open>An action that leaves a part of the state alone.\<close>

definition keeps :: "('s \<Rightarrow> 'c) \<Rightarrow> ('s, 'a) act \<Rightarrow> bool" where
  "keeps part m \<longleftrightarrow> (\<forall>s. part (snd (m s)) = part s)"

named_theorems keeps_intros \<open>actions that leave a part of the state alone\<close>

lemma keepsD: "keeps part m \<Longrightarrow> m s = (r, s') \<Longrightarrow> part s' = part s"
  by (metis keeps_def snd_conv)

lemma keeps_andThen [keeps_intros]: "keeps part m \<Longrightarrow> (\<And>x. keeps part (k x)) \<Longrightarrow> keeps part (andThen m k)"
  by (auto simp: keeps_def andThen_def split: prod.splits outcome.splits sum.splits) (metis snd_conv)+

lemma keeps_wrapping [keeps_intros]: "keeps part m \<Longrightarrow> keeps part (wrapping fmt as m)"
  by (auto simp: keeps_def wrapping_def split: prod.splits outcome.splits sum.splits) (metis snd_conv)+

lemma keeps_call [keeps_intros]: "(\<And>s. part (snd (op s)) = part s) \<Longrightarrow> keeps part (call op)"
  by (auto simp: keeps_def call_def split: prod.splits) (metis snd_conv)

lemma keeps_done_with [keeps_intros]: "keeps part (done_with x)"
  by (simp add: keeps_def done_with_def)

lemma keeps_fails [keeps_intros]: "keeps part (fails e)"
  by (simp add: keeps_def fails_def)

section \<open>A machine whose daemon is the address server\<close>

locale daemon_host =
  fixes h :: "('s, 'b) host" and etcd :: "'s \<Rightarrow> 'c" and c :: "'c kv_client"
    and ord :: "gomap \<Rightarrow> gomap" and ordR :: "ip_requests \<Rightarrow> ip_requests"
    and resolv :: "go_error + (string \<times> go_error option)" and srv :: ipam_server
  assumes links: "etcd (snd (linkByName h name s)) = etcd s" "etcd (snd (linkSetUp h link s)) = etcd s"
      "etcd (snd (interfaceByName h name s)) = etcd s" "etcd (snd (delLink h name s)) = etcd s"
      "etcd (snd (makeVeth h name mtu s)) = etcd s"
    and namespaces: "etcd (snd (getNS h path s)) = etcd s" "etcd (snd (enterNS h path s)) = etcd s"
      "etcd (leaveNS h path s) = etcd s"
    and programs: "etcd (snd (ovs_vsctl h commands s)) = etcd s" "etcd (snd (randInt h s)) = etcd s"
      "etcd (snd (configureIface h name res s)) = etcd s" "etcd (snd (gratuitousArp h ip link s)) = etcd s"
      "etcd (snd (printResult h res version s)) = etcd s"
    and add_call: "httpPost h ''http://unix/add'' [(''ips'', ips), (''containerID'', cid), (''ifName'', ifn)] s =
        (Inr (200, Inr body), s') \<Longrightarrow> decodeResult h body = Inr ans \<Longrightarrow>
      \<exists>res0. Add (etcd_ops ord c (srvStore srv)) ordR resolv srv
          \<lparr>formIps = ips, formContainerID = cid, formIfName = ifn\<rparr> (etcd s) = Some (Returns (OkJSON res0), etcd s') \<and>
        map config_text (IPs ans) = map config_text (IPs res0)"
    and del_call: "httpPost h ''http://unix/del'' [(''containerID'', cid), (''ifName'', ifn)] s = (Inr (200, content), s') \<Longrightarrow>
      Del (etcd_ops ord c (srvStore srv)) srv
        \<lparr>formIps = [], formContainerID = cid, formIfName = ifn\<rparr> (etcd s) = (OkJSON (), etcd s')"
begin

lemmas frames = links namespaces programs

lemma keeps_in_ns [keeps_intros]: "keeps etcd m \<Longrightarrow> keeps etcd (in_ns h ns m)"
  unfolding in_ns_def
  by (intro keeps_intros) (auto simp: frames keeps_def split: prod.splits, metis snd_conv)

lemma keeps_bridge [keeps_intros]: "keeps etcd (bridgeByName h name)" "keeps etcd (getBridgeInterface h)"
  unfolding getBridgeInterface_def bridgeByName_def by (intro keeps_intros frames)+

lemma keeps_setupVeth [keeps_intros]: "keeps etcd (setupVeth h ns name)"
  unfolding setupVeth_def by (intro keeps_intros frames) (auto split: prod.splits intro!: keeps_intros frames)

lemma keeps_ports [keeps_intros]:
  "keeps etcd (addPort h br port mac ns pns pn)" "keeps etcd (findPort h br ns pns pn)" "keeps etcd (delPort h br port)"
proof -
  have "etcd s' = etcd s" if "ovs_vsctl h cs s = (r, s')" for cs s r s' using programs(1) that by (metis snd_conv)
  then show "keeps etcd (addPort h br port mac ns pns pn)" "keeps etcd (findPort h br ns pns pn)"
    "keeps etcd (delPort h br port)"
    by (auto simp: keeps_def addPort_def findPort_def delPort_def fails_def done_with_def Let_def
        split: prod.splits option.splits sum.splits list.splits)
qed

lemma keeps_bring_up [keeps_intros]: "keeps etcd (bring_up h name)"
  using links(1,2) by (auto simp: keeps_def bring_up_def call_def split: prod.splits sum.splits) (metis snd_conv)+

lemma announce_frame: "etcd (announce h link ips s) = etcd s"
  by (induction ips arbitrary: s) (auto simp: frames)

lemma keeps_configure [keeps_intros]: "keeps etcd (configure h ifn res)"
  unfolding configure_def
  by (intro keeps_intros frames) (auto simp: keeps_def done_with_def announce_frame)

lemma daemon_add:
  assumes "getAvailableIPFromDaemon h ip cid ifn s = (Returns (Inr res), s')"
  shows "\<exists>res0. Add (etcd_ops ord c (srvStore srv)) ordR resolv srv
      \<lparr>formIps = ip, formContainerID = cid, formIfName = ifn\<rparr> (etcd s) = Some (Returns (OkJSON res0), etcd s') \<and>
    map config_text (IPs res) = map config_text (IPs res0)"
  using assms add_call
  by (auto simp: getAvailableIPFromDaemon_def andThen_Inr split: prod.splits if_splits sum.splits)

lemma keeps_attach_pod: "keeps etcd (attach_pod h args conf)"
  unfolding attach_pod_def Let_def
  by (intro keeps_intros frames) (auto split: prod.splits intro!: keeps_intros frames)

lemma keeps_finish_add: "keeps etcd (finish_add h args conf version ns res)"
  by (auto simp: finish_add_def intro!: keeps_intros frames)

lemma finish_add_prints:
  "finish_add h args conf version ns res s = (Returns (Inr ()), s') \<Longrightarrow>
   \<exists>res' t. ResIPs res' = ResIPs res \<and> ResIPs res \<noteq> [] \<and> printResult h res' version t = (Inr (), s')"
  by (clarsimp simp: finish_add_def andThen_Inr split: if_splits)
    (intro exI [of _ "res\<lparr>Interfaces := _, ResDNS := _\<rparr>"] exI conjI; simp)

text \<open>A successful \<open>cmdAdd\<close>: one call of \<open>Add\<close>, whose addresses are in the printed result.\<close>

lemma cmdAdd_add:
  assumes "cmdAdd h args s = (Returns (Inr ()), s')"
  shows "\<exists>netConf version att s1 r s2 res0 res t. loadNetConf h (StdinData args) = Inr (netConf, version) \<and>
    attach_pod h args netConf s = (Returns (Inr att), s1) \<and> randInt h s1 = (r, s2) \<and>
    Add (etcd_ops ord c (srvStore srv)) ordR resolv srv
      \<lparr>formIps = config_text (getAvailableIP r), formContainerID = ContainerID args, formIfName = ArgIfName args\<rparr>
      (etcd s) = Some (Returns (OkJSON res0), etcd s') \<and>
    map config_text (ResIPs res) = map config_text (IPs res0) \<and> ResIPs res \<noteq> [] \<and>
    printResult h res version t = (Inr (), s')"
proof -
  obtain netConf version ns br hi ci s1 ip s2 res1 s3 where
    a: "loadNetConf h (StdinData args) = Inr (netConf, version)"
      "attach_pod h args netConf s = (Returns (Inr (ns, br, hi, ci)), s1)"
      "pick_ip h s1 = (Returns (Inr ip), s2)"
      "getAvailableIPFromDaemon h (config_text ip) (ContainerID args) (ArgIfName args) s2 =
        (Returns (Inr res1), s3)"
    and fin: "finish_add h args netConf version ns
      \<lparr>ResVersion = version, Interfaces = [br, hi, ci], ResIPs = map (\<lambda>ipc. ipc\<lparr>Interface := Some 2\<rparr>) (IPs res1),
        ResRoutes = ResultRoutes res1, ResDNS = empty_dns\<rparr> s3 = (Returns (Inr ()), s')"
    using assms by (auto simp: cmdAdd_def andThen_Inr config_text_def)
  obtain r where r: "randInt h s1 = (r, s2)" "ip = getAvailableIP r"
    using a(3) by (auto simp: pick_ip_def split: prod.splits)
  have "etcd s2 = etcd s"
    using keepsD [OF keeps_attach_pod a(2)] programs(2) [of s1] r by simp
  with daemon_add [OF a(4) [unfolded r(2)]] keepsD [OF keeps_finish_add fin] obtain res0 where
    "Add (etcd_ops ord c (srvStore srv)) ordR resolv srv
      \<lparr>formIps = config_text (getAvailableIP r), formContainerID = ContainerID args, formIfName = ArgIfName args\<rparr>
      (etcd s) = Some (Returns (OkJSON res0), etcd s')"
    "map config_text (IPs res1) = map config_text (IPs res0)" by auto
  moreover from finish_add_prints [OF fin] obtain res t where
    "ResIPs res = map (\<lambda>ipc. ipc\<lparr>Interface := Some 2\<rparr>) (IPs res1)" "ResIPs res \<noteq> []"
    "printResult h res version t = (Inr (), s')" by auto
  moreover from this(1) have "map config_text (ResIPs res) = map config_text (IPs res1)"
    by (simp add: config_text_def comp_def)
  ultimately show ?thesis using a(1,2) r(1) by metis
qed

lemma cmdDel_del:
  assumes "cmdDel h args s = (Returns (Inr ()), s')"
  shows "Del (etcd_ops ord c (srvStore srv)) srv
    \<lparr>formIps = [], formContainerID = ContainerID args, formIfName = ArgIfName args\<rparr> (etcd s) = (OkJSON (), etcd s')"
proof -
  obtain pns pn e where info: "getPodInfo (getenv h ''CNI_ARGS'') = (pns, pn, e)" by (metis prod_cases3)
  then have "e = None" using assms by (cases e) (auto simp: cmdDel_def andThen_Inr)
  with assms info obtain netConf s1 s2 content where
    ports: "detach_port h args netConf pns pn s = (Returns (Inr ()), s1)"
    and post: "httpPost h ''http://unix/del'' [(''containerID'', ContainerID args), (''ifName'', ArgIfName args)] s1 =
      (Inr (200, content), s2)"
    and rest: "clean_netns h args s2 = (Returns (Inr ()), s')"
    by (auto simp: cmdDel_def andThen_Inr split: if_splits)
  have "keeps etcd (detach_port h args netConf pns pn)"
    by (auto simp: detach_port_def intro!: keeps_intros)
  from keepsD [OF this ports] have "etcd s1 = etcd s" .
  moreover have "keeps etcd (delete_link h name)" for name
    using links(4) by (auto simp: keeps_def delete_link_def done_with_def fails_def split: prod.splits sum.splits)
      (metis snd_conv)+
  then have "keeps etcd (clean_netns h args)"
    by (auto simp: clean_netns_def intro!: keeps_intros frames)
  from keepsD [OF this rest] have "etcd s' = etcd s2" .
  ultimately show ?thesis using del_call [OF post] by simp
qed

lemma cmdDel_no_port:
  assumes "loadNetConf h (StdinData args) = Inr (conf, version)" "Netns args \<noteq> []"
    "getPodInfo (getenv h ''CNI_ARGS'') = (pns, pn, None)" "findPort h (BridgeName conf) (Netns args) pns pn s = (r, t)"
    "\<not> (\<exists>port. r = Returns (Inr port))"
  shows "etcd (snd (cmdDel h args s)) = etcd s \<and> fst (cmdDel h args s) \<noteq> Returns (Inr ())"
proof -
  have "etcd t = etcd s" using keepsD [OF keeps_ports(2) assms(4)] .
  then show ?thesis using assms
    by (auto simp: cmdDel_def detach_port_def andThen_def split: outcome.splits sum.splits)
qed

end

section \<open>A machine that runs the handlers\<close>

definition lan_range :: range where
  "lan_range = \<lparr>RangeStart = [192, 168, 50, 241], RangeEnd = [192, 168, 50, 254],
     Subnet = \<lparr>IP = [192, 168, 50, 0], Mask = [255, 255, 255, 0]\<rparr>, Gateway = [192, 168, 50, 1]\<rparr>"

definition lan_server :: ipam_server where
  "lan_server = \<lparr>allocs = [NewIPAllocator [lan_range] 0], ipamConf = loaded_conf, srvStore = sample_store\<rparr>"

abbreviation lan_ops :: "gomap store_ops" where
  "lan_ops \<equiv> etcd_ops (\<lambda>m. m) memory_client (srvStore lan_server)"

definition no_result :: ipam_result where
  "no_result = \<lparr>IPs = [], ResultRoutes = [], ResultDNS = empty_dns\<rparr>"

fun read_result :: "json_doc chunk list \<Rightarrow> go_error + ipam_result" where
  "read_result (Encoded (ResultDoc r) # _) = Inr r"
| "read_result (Encoded _ # _) = Inr no_result"
| "read_result _ = Inl (ErrNew ''unexpected end of JSON input'')"

abbreviation lan_post where
  "lan_post \<equiv> over_socket (mux Inr (\<lambda>m. m) memory_client (\<lambda>m. m) (Inl ErrKeyNotExists) lan_server)"

definition lan_host :: "(gomap, json_doc chunk list) host" where
  "lan_host =
     \<lparr>decodeConf = \<lambda>n _. Inr n, decodeResult = read_result,
      decodePorts = \<lambda>out. Inr (if out = [] then [] else [[out]]),
      getenv = \<lambda>_. ''K8S_POD_NAMESPACE=default;K8S_POD_NAME=web'',
      linkByName = \<lambda>name s. (Inr \<lparr>LinkName = name, HardwareAddr = ''02:42:AC:11:00:03''\<rparr>, s),
      linkSetUp = \<lambda>_ s. (Inr (), s), getNS = \<lambda>path s. (Inr path, s), enterNS = \<lambda>_ s. (Inr (), s),
      leaveNS = \<lambda>_ s. s,
      makeVeth = \<lambda>name mtu s. (Inr (\<lparr>LinkName = ''veth0'', HardwareAddr = []\<rparr>, \<lparr>LinkName = name, HardwareAddr = []\<rparr>), s),
      ovs_vsctl = \<lambda>cs s. ((if hd cs = ''--format=json'' \<and> map_of s ''no port'' = None then ''veth0'' else [], None), s),
      randInt = \<lambda>s. (9, s), httpPost = lan_post,
      interfaceByName = \<lambda>name s. (Inr \<lparr>LinkName = name, HardwareAddr = []\<rparr>, s),
      configureIface = \<lambda>_ _ s. (Inr (), s), gratuitousArp = \<lambda>_ _ s. (Inr (), s),
      delLink = \<lambda>_ s. (Inl ErrLinkNotFound, s), printResult = \<lambda>_ _ s. (Inr (), s)\<rparr>"

lemma read_form_params [simp]:
  "read_form [(''ips'', ips), (''containerID'', cid), (''ifName'', ifn)] =
    \<lparr>formIps = ips, formContainerID = cid, formIfName = ifn\<rparr>"
  "read_form [(''containerID'', cid), (''ifName'', ifn)] =
    \<lparr>formIps = [], formContainerID = cid, formIfName = ifn\<rparr>"
  by (simp_all add: read_form_def form_get_def)

lemma read_result_add:
  assumes "lan_post ''http://unix/add'' ps s = (Inr (200, Inr body), s')" "read_result body = Inr ans"
  shows "Add lan_ops (\<lambda>m. m) (Inl ErrKeyNotExists) lan_server (read_form ps) s = Some (Returns (OkJSON ans), s')"
proof -
  have "\<forall>x. \<exists>d. (Inr :: json_doc \<Rightarrow> go_error + json_doc) x = Inr d" "body \<noteq> []" using assms(2) by auto
  from socket_add [OF assms(1) this] assms(2) show ?thesis by force
qed

interpretation lan: daemon_host lan_host "\<lambda>s. s" memory_client "\<lambda>m. m" "\<lambda>m. m" "Inl ErrKeyNotExists" lan_server
  by unfold_locales (auto simp: lan_host_def dest!: read_result_add socket_del)

definition lan_args :: cmd_args where
  "lan_args = \<lparr>ContainerID = ''cont'', Netns = ''/proc/7/ns/net'', ArgIfName = ''eth0'', StdinData = []\<rparr>"

definition lan_added :: gomap where
  "lan_added = [(''/n/a/192.168.50.250'', etcd_owner ''cont'' ''eth0''), (''/n/a/last_reserved_ip.0'', ''192.168.50.250'')]"

lemma lan_cmdAdd: "cmdAdd lan_host lan_args [] = (Returns (Inr ()), lan_added)"
  by code_simp

lemma lan_cmdDel: "cmdDel lan_host lan_args lan_added = (Returns (Inr ()), [(''/n/a/last_reserved_ip.0'', ''192.168.50.250'')])"
  by code_simp

section \<open>The pod's name in the arguments\<close>

lemma HasPrefix_append: "HasPrefix s (p @ q) \<Longrightarrow> HasPrefix s p"
  by (auto simp: HasPrefix_iff)

lemma ContainsStr_prefix: "ContainsStr s (p @ q) \<Longrightarrow> ContainsStr s p"
  by (induction s) (auto dest: HasPrefix_append)

lemma pod_info_other: "\<not> ContainsStr arg ''K8S_POD_NAME'' \<Longrightarrow> pod_info_step arg info = info"
  using ContainsStr_prefix [of arg "''K8S_POD_NAME''" "''SPACE''"] by (auto simp: pod_info_step_def)

lemma pod_info_others: "list_all (\<lambda>arg. \<not> ContainsStr arg ''K8S_POD_NAME'') args \<Longrightarrow> fold pod_info_step args info = info"
  by (induction args arbitrary: info) (simp_all add: pod_info_other)

lemma pod_info_namespace: "pod_info_step (''K8S_POD_NAMESPACE='' @ ns) info = (ns, snd info)"
  using TrimPrefix_append [of "''K8S_POD_NAMESPACE=''" ns] by (simp add: pod_info_step_def)

lemma pod_info_name:
  "\<not> ContainsStr name ''K8S_POD_NAMESPACE'' \<Longrightarrow> pod_info_step (''K8S_POD_NAME='' @ name) info = (fst info, name)"
  using TrimPrefix_append [of "''K8S_POD_NAME=''" name] by (simp add: pod_info_step_def)

section \<open>Properties\<close>

lemma ip_String_no_comma: "CHR '','' \<notin> set (ip_String a)"
  using ip_String_chars [of "CHR '',''" a] by (auto simp: text_char_def addr_char_def hex_val_def code_def)

text \<open>
  C1. A successful \<open>cmdAdd\<close>, on a server with well-formed ranges, prints a result with at least one address. The addresses it prints were free,
  are different from each other, and are held afterwards for the container and interface of the call;
  nothing else changed in what is held, as no one else writes to etcd during the command. The address that the plugin asked for is one of them: the one that
  \<open>getAvailableIP\<close> makes of the number drawn in this run, after the pod was attached.
\<close>

theorem cmdAdd_ok:
  assumes "daemon_host h etcd c ord ordR resolv srv" "quiet_kv c I view" "map_order ord"
    "\<forall>m. set (ordR m) = set m" "I (etcd s)" "wf_server srv" "cmdAdd h args s = (Returns (Inr ()), s')"
    "held = etcd_held (view (etcd s)) (keyPrefix (srvStore srv))"
  shows "\<exists>netConf version att s1 r s2 res t. loadNetConf h (StdinData args) = Inr (netConf, version) \<and>
    attach_pod h args netConf s = (Returns (Inr att), s1) \<and> randInt h s1 = (r, s2) \<and>
    printResult h res version t = (Inr (), s') \<and> ResIPs res \<noteq> [] \<and>
    fresh held (map config_text (ResIPs res)) \<and>
    etcd_held (view (etcd s')) (keyPrefix (srvStore srv)) =
      grants (map config_text (ResIPs res)) (etcd_owner (ContainerID args) (ArgIfName args)) held \<and>
    config_text (getAvailableIP r) \<in> set (map config_text (ResIPs res))"
proof -
  obtain netConf version att s1 r s2 res0 res t where
    draw: "loadNetConf h (StdinData args) = Inr (netConf, version)" "attach_pod h args netConf s = (Returns (Inr att), s1)"
      "randInt h s1 = (r, s2)"
    and add: "Add (etcd_ops ord c (srvStore srv)) ordR resolv srv
      \<lparr>formIps = config_text (getAvailableIP r), formContainerID = ContainerID args, formIfName = ArgIfName args\<rparr>
      (etcd s) = Some (Returns (OkJSON res0), etcd s')"
    and texts: "map config_text (ResIPs res) = map config_text (IPs res0)" "ResIPs res \<noteq> []"
    and prints: "printResult h res version t = (Inr (), s')"
    using daemon_host.cmdAdd_add [OF assms(1,7)] by blast
  let ?w = "config_text (getAvailableIP r)"
  have w: "?w = ip_String [192, 168, word_of_nat 50, word_of_nat (r mod (255 - 241) + 241)]"
    by (simp add: config_text_def getAvailableIP_def)
  have "CHR '','' \<notin> set ?w" unfolding w by (rule ip_String_no_comma)
  then have "?w \<in> set (Split ?w CHR '','')" by (simp add: Split_no_sep)
  with Add_requested [OF add assms(4)] have "canon (ParseIP ?w) \<in> (\<lambda>conf. IP (Address conf)) ` set (IPs res0)"
    by simp
  moreover have "canon (ParseIP ?w) = [192, 168, word_of_nat 50, word_of_nat (r mod (255 - 241) + 241)]"
    unfolding w by (simp add: ParseIP_String4 canon_def del: ip_String_To4)
  ultimately have "?w \<in> set (map config_text (ResIPs res))"
    unfolding texts(1) w by (force simp: config_text_def)
  moreover note exclusive_store.Add_ok [OF quiet_node.exclusive_laws [OF quiet_nodeI [OF assms(2,3)]] add assms(5,6)]
  ultimately show ?thesis
    using texts prints draw unfolding assms(8)
    by (intro exI [of _ netConf] exI [of _ version] exI [of _ att] exI [of _ s1] exI [of _ r] exI [of _ s2]
        exI [of _ res] exI [of _ t]) simp
qed

theorem cmdAdd_ok_witness:
  "\<exists>res version t. printResult lan_host res version t = (Inr (), lan_added) \<and>
     ip_String [192, 168, 50, 250] \<in> set (map config_text (ResIPs res)) \<and>
     etcd_held (map_of lan_added) (keyPrefix (srvStore lan_server)) =
       grants (map config_text (ResIPs res)) (etcd_owner ''cont'' ''eth0'')
         (etcd_held (map_of []) (keyPrefix (srvStore lan_server)))"
proof -
  have e: "memory_inv []" "wf_server lan_server" "ContainerID lan_args = ''cont''" "ArgIfName lan_args = ''eth0''"
    by code_simp+
  have draw: "randInt lan_host s = (r, s') \<Longrightarrow> config_text (getAvailableIP r) = ip_String [192, 168, 50, 250]" for s r s'
    by (simp add: lan_host_def config_text_def getAvailableIP_def)
  show ?thesis
    using cmdAdd_ok [OF lan.daemon_host_axioms memory_server_laws(1,3) _ e(1,2) lan_cmdAdd refl] draw
    unfolding e(3,4) by metis
qed

text \<open>
  C34. For a container that holds at most as many addresses as the server has allocators, \<open>Del\<close> takes one for each:
  after a successful \<open>cmdDel\<close> it holds no address, and what is held is what was held before without the addresses of the
  container. (A container that was given more by several ADDs keeps the rest. Listing and deleting the keys of etcd
  does not fail, and the container's value is recognised and stored under addresses only.)
\<close>

theorem cmdDel_ok:
  assumes "daemon_host h etcd c ord ordR resolv srv" "deleting_kv c I view" "map_order ord"
    "own_id (ContainerID args) (ArgIfName args)" "p = keyPrefix (srvStore srv)"
    "I (etcd s)" "clean p (ContainerID args) (ArgIfName args) (view (etcd s))"
    "mine = owned (etcd_releases (ContainerID args) (ArgIfName args)) (etcd_held (view (etcd s)) p)"
    "finite mine" "card mine \<le> length (allocs srv)" "cmdDel h args s = (Returns (Inr ()), s')"
  shows "etcd_held (view (etcd s')) p = (\<lambda>k. if k \<in> mine then None else etcd_held (view (etcd s)) p k)"
proof -
  note laws = owner_node.laws [OF owner_nodeI [OF assms(2-4)], of "srvStore srv"]
  show ?thesis
    using owner_store.Del_mine [OF laws daemon_host.cmdDel_del [OF assms(1,11)]] assms(6-10)
    unfolding assms(5,8) by simp
qed

lemma lan_added_map:
  "map_of lan_added = Map.empty(last_key ''/n/a'' ''0'' \<mapsto> ip_String [192, 168, 50, 250],
     ip_key ''/n/a'' [192, 168, 50, 250] \<mapsto> etcd_owner ''cont'' ''eth0'')"
proof -
  have "last_key ''/n/a'' ''0'' = ''/n/a/last_reserved_ip.0''" "ip_String [192, 168, 50, 250] = ''192.168.50.250''"
    "ip_key ''/n/a'' [192, 168, 50, 250] = ''/n/a/192.168.50.250''" by code_simp+
  then show ?thesis by (simp add: lan_added_def)
qed

theorem cmdDel_ok_witness:
  "etcd_held (map_of [(''/n/a/last_reserved_ip.0'', ''192.168.50.250'')]) ''/n/a'' (ip_String [192, 168, 50, 250]) = None"
proof -
  have e: "memory_inv lan_added" "''/n/a'' = keyPrefix (srvStore lan_server)" "ContainerID lan_args = ''cont''"
    "ArgIfName lan_args = ''eth0''" "length (allocs lan_server) = 1" by code_simp+
  have cl: "clean ''/n/a'' ''cont'' ''eth0'' (map_of lan_added)"
    unfolding lan_added_map by (intro clean_ip_key clean_last_key own_id_sample no_content(3))
  have "etcd_releases ''cont'' ''eth0'' (etcd_owner ''cont'' ''eth0'')"
    using own_id_sample by (simp add: own_id_def)
  then have mine: "{ip_String [192, 168, 50, 250]} =
      owned (etcd_releases ''cont'' ''eth0'') (etcd_held (map_of lan_added) ''/n/a'')"
    by (auto simp: lan_added_map no_content in_owned split: if_splits)
  have "finite {ip_String [192, 168, 50, 250]}" "card {ip_String [192, 168, 50, 250]} \<le> length (allocs lan_server)"
    using e(5) by simp_all
  from cmdDel_ok [OF lan.daemon_host_axioms memory_server_laws(2,3), of lan_args, unfolded e(3,4),
      OF own_id_sample e(2,1) cl mine this lan_cmdDel, THEN fun_cong, of "ip_String [192, 168, 50, 250]"]
  show ?thesis by (simp add: fun_upd_def)
qed

lemma Del_form:
  "formContainerID req = formContainerID req' \<Longrightarrow> formIfName req = formIfName req' \<Longrightarrow>
    Del ops srv req = Del ops srv req'"
  by (simp add: Del_def fun_eq_iff)

text \<open>
  C15. DEL undoes ADD: for a container that held nothing, it holds an address after a successful ADD, and
  after a successful DEL the addresses held are those before both, whatever else happened to the machine
  between the two commands as long as etcd's content did not change. (Listing and deleting the keys of etcd
  does not fail, and the container's value is recognised and stored under addresses only.)
\<close>

theorem cmdAdd_cmdDel:
  assumes "daemon_host h etcd c ord ordR resolv srv" "deleting_kv c I view" "map_order ord"
    "own_id (ContainerID args) (ArgIfName args)" "wf_server srv" "allocs srv \<noteq> []" "p = keyPrefix (srvStore srv)"
    "mine = etcd_releases (ContainerID args) (ArgIfName args)"
    "I (etcd s)" "clean p (ContainerID args) (ArgIfName args) (view (etcd s))" "owned mine (etcd_held (view (etcd s)) p) = {}"
    "cmdAdd h args s = (Returns (Inr ()), s1)" "etcd s2 = etcd s1" "cmdDel h args s2 = (Returns (Inr ()), s3)"
  shows "owned mine (etcd_held (view (etcd s1)) p) \<noteq> {} \<and> etcd_held (view (etcd s3)) p = etcd_held (view (etcd s)) p"
proof -
  note laws = owner_node.laws [OF owner_nodeI [OF assms(2-4)], of "srvStore srv"]
  note own = owner_store.own_released [OF laws]
  let ?ops = "etcd_ops ord c (srvStore srv)"
  obtain ips res where add: "Add ?ops ordR resolv srv
      \<lparr>formIps = ips, formContainerID = ContainerID args, formIfName = ArgIfName args\<rparr> (etcd s) =
      Some (Returns (OkJSON res), etcd s1)" (is "Add _ _ _ _ ?req _ = _")
    using daemon_host.cmdAdd_add [OF assms(1,12)] by blast
  have i: "I (etcd s) \<and> clean (keyPrefix (srvStore srv)) (ContainerID args) (ArgIfName args) (view (etcd s))"
    using assms(7,9,10) by simp
  have del: "Del ?ops srv ?req (etcd s1) = (OkJSON (), etcd s3)"
    using daemon_host.cmdDel_del [OF assms(1,14)] unfolding assms(13)
    by (simp add: Del_form [of ?req "\<lparr>formIps = [], formContainerID = ContainerID args, formIfName = ArgIfName args\<rparr>"])
  obtain k where k: "I (etcd s1) \<and> clean (keyPrefix (srvStore srv)) (ContainerID args) (ArgIfName args) (view (etcd s1))"
      "etcd_held (view (etcd s1)) (keyPrefix (srvStore srv)) k = Some (etcd_owner (ContainerID args) (ArgIfName args))"
    by (rule owner_store.Add_granted [OF laws add i assms(5) _ _ assms(6)]) simp_all
  then have "k \<in> owned mine (etcd_held (view (etcd s1)) p)" using own by (simp add: in_owned assms(7,8))
  moreover have "etcd_held (view (etcd s3)) p = etcd_held (view (etcd s)) p"
    using owner_store.Add_Del [OF laws add i assms(5) _ _ _ k(1) refl del] assms(11) unfolding assms(7,8) by simp
  ultimately show ?thesis by blast
qed

theorem cmdAdd_cmdDel_witness:
  "owned (etcd_releases ''cont'' ''eth0'') (etcd_held (map_of lan_added) ''/n/a'') \<noteq> {} \<and>
   etcd_held (map_of [(''/n/a/last_reserved_ip.0'', ''192.168.50.250'')]) ''/n/a'' = etcd_held (map_of []) ''/n/a''"
proof -
  have e: "memory_inv []" "wf_server lan_server" "allocs lan_server \<noteq> []" "''/n/a'' = keyPrefix (srvStore lan_server)"
    "ContainerID lan_args = ''cont''" "ArgIfName lan_args = ''eth0''" by code_simp+
  have empty: "clean ''/n/a'' ''cont'' ''eth0'' (map_of [])" "owned mine (etcd_held (map_of []) ''/n/a'') = {}" for mine
    by (simp_all add: no_content)
  show ?thesis
    using cmdAdd_cmdDel [OF lan.daemon_host_axioms memory_server_laws(2,3), of lan_args, unfolded e(5,6),
        OF own_id_sample e(2-4) refl e(1) empty lan_cmdAdd refl lan_cmdDel] .
qed

text \<open>
  C35. When the container's OVS port is not found, \<open>cmdDel\<close> returns an error before it asks the daemon: the
  addresses of the container stay held, whatever the daemon and its store do.
\<close>

theorem cmdDel_keeps_address:
  assumes "daemon_host h etcd c ord ordR resolv srv" "loadNetConf h (StdinData args) = Inr (conf, version)"
    "Netns args \<noteq> []" "getPodInfo (getenv h ''CNI_ARGS'') = (pns, pn, None)"
    "findPort h (BridgeName conf) (Netns args) pns pn s = (Returns (Inl e), t)"
  shows "etcd (snd (cmdDel h args s)) = etcd s \<and> fst (cmdDel h args s) \<noteq> Returns (Inr ())"
  using daemon_host.cmdDel_no_port [OF assms] by blast

theorem cmdDel_keeps_address_witness:
  "snd (cmdDel lan_host lan_args ((''no port'', []) # lan_added)) = (''no port'', []) # lan_added"
proof -
  let ?conf = "\<lparr>PluginVersion = [], PluginDNS = empty_dns, BridgeName = defaultBridgeName, IsGW = False, IsDefaultGW = False\<rparr>"
  have e: "loadNetConf lan_host (StdinData lan_args) = Inr (?conf, [])" "Netns lan_args \<noteq> []"
    "getPodInfo (getenv lan_host ''CNI_ARGS'') = (''default'', ''web'', None)"
    "findPort lan_host (BridgeName ?conf) (Netns lan_args) ''default'' ''web'' ((''no port'', []) # lan_added) =
      (Returns (Inl (Errorf ''OVS port for %s/%s was not found, OVS DB data: %v, output: %q'' [''default'', ''web'', []])),
       (''no port'', []) # lan_added)" by code_simp+
  show ?thesis using cmdDel_keeps_address [OF lan.daemon_host_axioms e] by simp
qed

text \<open>
  The address the plugin asks for is one of the fourteen 192.168.50.241 to 192.168.50.254, whatever the
  random number, and its text is parsed back to the same four bytes.
\<close>

theorem getAvailableIP_bounds:
  "take 3 (IP (Address (getAvailableIP r))) = [192, 168, 50] \<and> length (IP (Address (getAvailableIP r))) = 4 \<and>
   241 \<le> unat (IP (Address (getAvailableIP r)) ! 3) \<and> unat (IP (Address (getAvailableIP r)) ! 3) \<le> 254 \<and>
   To4 (ParseIP (config_text (getAvailableIP r))) = IP (Address (getAvailableIP r)) \<and>
   card (range (\<lambda>r. config_text (getAvailableIP r))) \<le> 14"
proof -
  let ?a = "\<lambda>r. IP (Address (getAvailableIP r))"
  have a: "?a r = [192, 168, 50, word_of_nat (r mod 14 + 241)]" for r by (simp add: getAvailableIP_def)
  have m: "r mod 14 < 14" for r :: nat by simp
  have b: "unat (word_of_nat (r mod 14 + 241) :: byte) = r mod 14 + 241" "r mod 14 + 241 \<le> 254" for r :: nat
  proof -
    from m [of r] have "r mod 14 + 241 < 256" by linarith
    then show "unat (word_of_nat (r mod 14 + 241) :: byte) = r mod 14 + 241" by (rule unat_byte_of_nat)
    from m [of r] show "r mod 14 + 241 \<le> 254" by linarith
  qed
  have "To4 (ParseIP (config_text (getAvailableIP r))) = ?a r"
    using To4_ParseIP_String [of "?a r"] by (simp add: config_text_def a)
  moreover have "card (range (\<lambda>r. config_text (getAvailableIP r))) \<le> 14"
  proof -
    let ?f = "\<lambda>n. ip_String [192, 168, 50, word_of_nat (n + 241)]"
    have "range (\<lambda>r. config_text (getAvailableIP r)) \<subseteq> ?f ` {..<14 :: nat}"
      unfolding config_text_def a using m by blast
    then have "card (range (\<lambda>r. config_text (getAvailableIP r))) \<le> card (?f ` {..<14 :: nat})"
      by (rule card_mono [rotated]) simp
    also have "\<dots> \<le> card {..<14 :: nat}" by (rule card_image_le) simp
    finally show ?thesis by simp
  qed
  moreover have "?a r ! 3 = word_of_nat (r mod 14 + 241)" by (simp only: a) simp
  ultimately show ?thesis using b [of r] by (simp only:) (simp add: a)
qed

text \<open>
  From an argument string in which the entries of the pod's namespace and name stand in this order
  among entries that do not mention them, \<open>getPodInfo\<close> reads back the namespace and the name.
\<close>

theorem getPodInfo_roundtrip:
  assumes "list_all (\<lambda>arg. \<not> ContainsStr arg ''K8S_POD_NAME'') (before @ between @ after)"
    "list_all (\<lambda>arg. CHR '';'' \<notin> set arg) (ns # name # before @ between @ after)"
    "\<not> ContainsStr name ''K8S_POD_NAMESPACE''"
  shows "getPodInfo (Join (before @ [''K8S_POD_NAMESPACE='' @ ns] @ between @ [''K8S_POD_NAME='' @ name] @ after) '';'') =
    (ns, name, None)"
proof -
  let ?ws = "before @ [''K8S_POD_NAMESPACE='' @ ns] @ between @ [''K8S_POD_NAME='' @ name] @ after"
  have split: "Split (Join ?ws '';'') CHR '';'' = ?ws"
    using assms(2) by (intro Split_Join) auto
  have "fold pod_info_step ?ws ([], []) = (ns, name)"
    using assms(1) pod_info_namespace [of ns] pod_info_name [OF assms(3)]
    by (simp add: pod_info_others del: append_Cons)
  moreover have "Join ?ws '';'' \<noteq> []"
  proof
    assume "Join ?ws '';'' = []"
    with split have "?ws = [[]]" by simp
    then show False by (cases before) auto
  qed
  ultimately show ?thesis unfolding getPodInfo_def split by simp
qed

theorem getPodInfo_roundtrip_witness:
  "getPodInfo ''IgnoreUnknown=1;K8S_POD_NAMESPACE=default;K8S_POD_NAME=web-0;K8S_POD_INFRA_CONTAINER_ID=7f'' =
   (''default'', ''web-0'', None)"
proof -
  have e: "list_all (\<lambda>arg. \<not> ContainsStr arg ''K8S_POD_NAME'') ([''IgnoreUnknown=1''] @ [] @ [''K8S_POD_INFRA_CONTAINER_ID=7f''])"
    "list_all (\<lambda>arg. CHR '';'' \<notin> set arg)
       (''default'' # ''web-0'' # [''IgnoreUnknown=1''] @ [] @ [''K8S_POD_INFRA_CONTAINER_ID=7f''])"
    "\<not> ContainsStr ''web-0'' ''K8S_POD_NAMESPACE''"
    "Join ([''IgnoreUnknown=1''] @ [''K8S_POD_NAMESPACE='' @ ''default''] @ [] @ [''K8S_POD_NAME='' @ ''web-0''] @
        [''K8S_POD_INFRA_CONTAINER_ID=7f'']) '';'' =
      ''IgnoreUnknown=1;K8S_POD_NAMESPACE=default;K8S_POD_NAME=web-0;K8S_POD_INFRA_CONTAINER_ID=7f''"
    by code_simp+
  from getPodInfo_roundtrip [OF e(1-3)] show ?thesis unfolding e(4) .
qed

end
