(* ===== verification/Kubeovsd.thy ===== *)
theory Kubeovsd
  imports CniProps
begin

text \<open>
  The start of the node's daemon (\<open>cmd/kubeovsd/main.go\<close>) and \<open>IpamServer.Run\<close> (\<open>pkg/daemon/handler.go\<close>).
  The files, \<open>ovs-vsctl\<close>, netlink and the sockets of the node are the parameter \<open>machine\<close> over a state
  \<open>'s\<close>. \<open>main\<close> logs an error and exits with status 1: that is an error of the whole, with the logged text.
  \<open>startup\<close> is everything before the server runs.
\<close>

record kubeovsd_conf =
  NIC :: string
  ClusterCIDR :: string
  EtcdEndpoints :: "string list"
  IpamRangeStart :: string
  IpamRangeEnd :: string
  IpamSubnetIP :: string
  IpamSubnetMask :: string
  IpamGateway :: string

record 's machine =
  openFile :: "string \<Rightarrow> 's \<Rightarrow> (go_error + string) \<times> 's"
  readAll :: "string \<Rightarrow> 's \<Rightarrow> (go_error + string) \<times> 's"
  unmarshal :: "string \<Rightarrow> go_error + kubeovsd_conf"
  writeFile :: "string \<Rightarrow> string \<Rightarrow> nat \<Rightarrow> 's \<Rightarrow> (go_error + unit) \<times> 's"
  ovs :: "string list \<Rightarrow> 's \<Rightarrow> (string \<times> go_error option) \<times> 's"
  findLink :: "string \<Rightarrow> 's \<Rightarrow> (go_error + nlink) \<times> 's"
  setUp :: "nlink \<Rightarrow> 's \<Rightarrow> (go_error + unit) \<times> 's"
  addrList :: "nlink \<Rightarrow> 's \<Rightarrow> (go_error + ipnet list) \<times> 's"
  addrDel :: "nlink \<Rightarrow> ipnet \<Rightarrow> 's \<Rightarrow> (go_error + unit) \<times> 's"
  addrAdd :: "nlink \<Rightarrow> ipnet \<Rightarrow> 's \<Rightarrow> (go_error + unit) \<times> 's"
  routeReplace :: "nlink \<Rightarrow> ipnet \<Rightarrow> 's \<Rightarrow> (go_error + unit) \<times> 's"
  newClient :: "'s \<Rightarrow> (go_error + unit) \<times> 's"
  newSession :: "'s \<Rightarrow> (go_error + unit) \<times> 's"
  stat :: "string \<Rightarrow> 's \<Rightarrow> go_error option \<times> 's"
  mkdirAll :: "string \<Rightarrow> 's \<Rightarrow> (go_error + unit) \<times> 's"
  unlinkFile :: "string \<Rightarrow> 's \<Rightarrow> (go_error + unit) \<times> 's"
  listen :: "string \<Rightarrow> 's \<Rightarrow> (go_error + unit) \<times> 's"
  serve :: "ipam_server \<Rightarrow> 's \<Rightarrow> (go_error + unit) \<times> 's"

section \<open>The parts of the start\<close>

definition cniConfigPath :: string where
  "cniConfigPath = ''/etc/cni/net.d/10-kubeovsl2.conf''"

definition bridgeName :: string where
  "bridgeName = ''kubeovs-br''"

definition run_ovs :: "'s machine \<Rightarrow> string list \<Rightarrow> string \<Rightarrow> string list \<Rightarrow> ('s, unit) act" where
  "run_ovs m command fmt args s =
     (case ovs m command s of
        ((out, Some err), s') \<Rightarrow> fails (Wrapf fmt (args @ [out]) err) s'
      | ((out, None), s') \<Rightarrow> done_with () s')"

definition setupOVSBridgeIfNotExists :: "'s machine \<Rightarrow> ('s, unit) act" where
  "setupOVSBridgeIfNotExists m =
     andThen (run_ovs m [''--may-exist'', ''add-br'', bridgeName]
         ''failed to setup OVS bridge %q, err: %v, output: %q'' [bridgeName]) (\<lambda>_.
     andThen (wrapping ''could not lookup %q: %v'' [bridgeName] (call (findLink m bridgeName))) (\<lambda>br.
       wrapping ''failed to bring bridge %q up: %v'' [bridgeName] (call (setUp m br))))"

definition setupPhysicalPortToBr :: "'s machine \<Rightarrow> string \<Rightarrow> ('s, unit) act" where
  "setupPhysicalPortToBr m defaultNIC =
     andThen (run_ovs m [''--may-exist'', ''add-port'', bridgeName, defaultNIC]
         ''failed to setup cluster-wide port, err: %v, output: %q'' []) (\<lambda>_.
     andThen (wrapping ''could not lookup %q: %v'' [defaultNIC] (call (findLink m defaultNIC))) (\<lambda>physicalPort.
       wrapping ''failed to bring bridge %q up: %v'' [LinkName physicalPort] (call (setUp m physicalPort))))"

definition changeRoute :: "'s machine \<Rightarrow> string \<Rightarrow> nlink \<Rightarrow> ('s, unit) act" where
  "changeRoute m clusterCIDR link =
     (case ParseCIDR clusterCIDR of
        None \<Rightarrow> fails (Errorf ''invalid CIDR address: %s'' [clusterCIDR])
      | Some (_, clusterIPNet) \<Rightarrow> call (routeReplace m link clusterIPNet))"

definition quoted :: "string \<Rightarrow> string" where
  "quoted s = [CHR 0x22] @ s @ [CHR 0x22]"

text \<open>The JSON text of the constant, a line for a field.\<close>

definition cni_conf_text :: string where
  "cni_conf_text =
     (let field = (\<lambda>k v. [CHR 0x09] @ quoted k @ '': '' @ v); newline = [CHR 0x0A] in
      ''{'' @ newline @ field ''name'' (quoted ''kubeovs-l2'') @ '','' @ newline @
        field ''type'' (quoted ''kubeovs-l2'') @ '','' @ newline @
        field ''bridge'' (quoted ''kubeovs-br'') @ '','' @ newline @
        field ''isGateway'' ''false'' @ '','' @ newline @
        field ''isDefaultGateway'' ''false'' @ newline @ ''}'')"

definition installCNIConf :: "'s machine \<Rightarrow> ('s, unit) act" where
  "installCNIConf m = call (writeFile m cniConfigPath cni_conf_text 420)"

section \<open>main\<close>

definition load_config :: "'s machine \<Rightarrow> string \<Rightarrow> ('s, kubeovsd_conf) act" where
  "load_config m configPath =
     andThen (wrapping ''open config file %v error: %v'' [configPath] (call (openFile m configPath))) (\<lambda>f.
     andThen (wrapping ''get config data error: %v'' [] (call (readAll m f))) (\<lambda>data.
       case unmarshal m data of
         Inl err \<Rightarrow> fails (Wrapf ''unmarshal json error: %v'' [] err)
       | Inr conf \<Rightarrow> done_with conf))"

definition list_addresses :: "'s machine \<Rightarrow> nlink \<Rightarrow> ('s, ipnet list) act" where
  "list_addresses m link s = (case addrList m link s of (Inl err, s') \<Rightarrow> done_with [] s' | (Inr addrs, s') \<Rightarrow> done_with addrs s')"

text \<open>The address of the physical interface goes to the bridge.\<close>

definition move_address :: "'s machine \<Rightarrow> string \<Rightarrow> nlink \<Rightarrow> nlink \<Rightarrow> ('s, unit) act" where
  "move_address m defaultNIC physicalLink bridgeLink =
     andThen (list_addresses m physicalLink) (\<lambda>addrs.
       case addrs of
         [] \<Rightarrow> done_with ()
       | addr # _ \<Rightarrow>
           andThen (wrapping ''failed to del physical nic %q ip addr, err: %v'' [defaultNIC] (call (addrDel m physicalLink addr))) (\<lambda>_.
             wrapping ''failed to add bridge %q ip addr, err: %v'' [bridgeName] (call (addrAdd m bridgeLink addr))))"

text \<open>The configuration of the address server: one range, from the texts of the file.\<close>

definition server_conf :: "kubeovsd_conf \<Rightarrow> ipam_conf" where
  "server_conf conf =
     \<lparr>OldRange = None, ConfName = ''kubeovs-net'', ConfType = ''kubeovs-l2'', Routes = [], PrefixKey = [],
      EtcdServer = EtcdEndpoints conf, ResolvConfFile = [],
      Ranges = [[\<lparr>RangeStart = To4 (ParseIP (IpamRangeStart conf)), RangeEnd = To4 (ParseIP (IpamRangeEnd conf)),
        Subnet = \<lparr>IP = To4 (ParseIP (IpamSubnetIP conf)), Mask = To4 (ParseIP (IpamSubnetMask conf))\<rparr>,
        Gateway = To4 (ParseIP (IpamGateway conf))\<rparr>]],
      IPArgs = []\<rparr>"

definition new_server :: "'s machine \<Rightarrow> kubeovsd_conf \<Rightarrow> ('s, ipam_server) act" where
  "new_server m conf s =
     (case newClient m s of
        (Inl e, s') \<Rightarrow> (Returns (NewIpamServer (Inl e) (Inr ()) (server_conf conf)), s')
      | (Inr _, s') \<Rightarrow>
          (case newSession m s' of (session, s'') \<Rightarrow> (Returns (NewIpamServer (Inr ()) session (server_conf conf)), s'')))"

definition startup :: "'s machine \<Rightarrow> string \<Rightarrow> ('s, ipam_server) act" where
  "startup m configPath =
     andThen (load_config m configPath) (\<lambda>conf.
     andThen (wrapping ''failed to intall CNI: %v'' [] (installCNIConf m)) (\<lambda>_.
     andThen (wrapping ''failed to setup OVS bridge: %v'' [] (setupOVSBridgeIfNotExists m)) (\<lambda>_.
     andThen (wrapping ''failed to add physical NIC to OVS bridge: %v'' [] (setupPhysicalPortToBr m (NIC conf))) (\<lambda>_.
     andThen (wrapping ''failed to get bridge %q, err: %v'' [bridgeName] (call (findLink m bridgeName))) (\<lambda>bridgeLink.
     andThen (wrapping ''failed to get physical nic %q, err: %v'' [NIC conf] (call (findLink m (NIC conf)))) (\<lambda>physicalLink.
     andThen (move_address m (NIC conf) physicalLink bridgeLink) (\<lambda>_.
     andThen (wrapping ''failed to set bridge %q up, err: %v'' [bridgeName] (call (setUp m bridgeLink))) (\<lambda>_.
     andThen (wrapping ''failed to change route, cidr: %v, link: %v'' [ClusterCIDR conf, LinkName bridgeLink]
         (changeRoute m (ClusterCIDR conf) bridgeLink)) (\<lambda>_.
       wrapping ''new ipam server error: %v'' [] (new_server m conf))))))))))"

text \<open>The part of \<open>startup\<close> between the configuration and the addresses, with the two links it finds.\<close>

definition find_links :: "'s machine \<Rightarrow> kubeovsd_conf \<Rightarrow> ('s, nlink \<times> nlink) act" where
  "find_links m conf =
     andThen (wrapping ''failed to intall CNI: %v'' [] (installCNIConf m)) (\<lambda>_.
     andThen (wrapping ''failed to setup OVS bridge: %v'' [] (setupOVSBridgeIfNotExists m)) (\<lambda>_.
     andThen (wrapping ''failed to add physical NIC to OVS bridge: %v'' [] (setupPhysicalPortToBr m (NIC conf))) (\<lambda>_.
     andThen (wrapping ''failed to get bridge %q, err: %v'' [bridgeName] (call (findLink m bridgeName))) (\<lambda>bridgeLink.
     andThen (wrapping ''failed to get physical nic %q, err: %v'' [NIC conf] (call (findLink m (NIC conf)))) (\<lambda>physicalLink.
       done_with (bridgeLink, physicalLink))))))"

section \<open>The server\<close>

definition DefaultKubeOVSDirectory :: string where
  "DefaultKubeOVSDirectory = ''/var/run/kubeovs/''"

definition GenerateSocketPath :: string where
  "GenerateSocketPath = DefaultKubeOVSDirectory @ ''kubeovs.sock''"

definition ErrNotExist :: go_error where
  "ErrNotExist = ErrNew ''file does not exist''"

definition make_directory :: "'s machine \<Rightarrow> ('s, unit) act" where
  "make_directory m s =
     (case stat m DefaultKubeOVSDirectory s of
        (err, s') \<Rightarrow>
          if err = Some ErrNotExist
          then wrapping ''mkdir %v error: %v'' [DefaultKubeOVSDirectory] (call (mkdirAll m DefaultKubeOVSDirectory)) s'
          else done_with () s')"

definition Run :: "'s machine \<Rightarrow> ipam_server \<Rightarrow> ('s, unit) act" where
  "Run m srv =
     andThen (make_directory m) (\<lambda>_.
     andThen (\<lambda>s. done_with () (snd (unlinkFile m GenerateSocketPath s))) (\<lambda>_.
     andThen (wrapping ''listen unix socket %v error: %v'' [GenerateSocketPath] (call (listen m GenerateSocketPath))) (\<lambda>_.
       wrapping ''start ipam server error: %v'' [] (call (serve m srv)))))"

definition kubeovsd_main :: "'s machine \<Rightarrow> string \<Rightarrow> ('s, unit) act" where
  "kubeovsd_main m configPath =
     andThen (startup m configPath) (\<lambda>srv. wrapping ''run ipam server error: %v'' [] (Run m srv))"

section \<open>Addresses of links\<close>

text \<open>
  What may have happened to the addresses: the first address of the interface went to the bridge, or it was
  only taken from the interface. \<open>reads\<close>: listing the addresses does not fail.
\<close>

definition moved :: "string \<Rightarrow> (string \<Rightarrow> ipnet list) \<Rightarrow> (string \<Rightarrow> ipnet list) \<Rightarrow> bool" where
  "moved nic f g \<longleftrightarrow> (\<exists>a rest. f nic = a # rest \<and>
     g = (let h = f(nic := rest) in h(bridgeName := h bridgeName @ [a])))"

definition lost :: "string \<Rightarrow> (string \<Rightarrow> ipnet list) \<Rightarrow> (string \<Rightarrow> ipnet list) \<Rightarrow> bool" where
  "lost nic f g \<longleftrightarrow> (\<exists>a rest. f nic = a # rest \<and> g = f(nic := rest))"

definition address_cases ::
    "string \<Rightarrow> bool \<Rightarrow> (string \<Rightarrow> ipnet list) \<Rightarrow> (string \<Rightarrow> ipnet list) \<Rightarrow> (go_error + 'a) outcome \<Rightarrow> bool" where
  "address_cases nic reads f g r \<longleftrightarrow> r \<noteq> Panics \<and>
     (\<forall>x. r = Returns (Inr x) \<longrightarrow> moved nic f g \<or> g = f \<and> (reads \<longrightarrow> f nic = [])) \<and>
     (\<forall>e. r = Returns (Inl e) \<longrightarrow> g = f \<or> moved nic f g \<or> lost nic f g)"

text \<open>What a start that succeeds did to the addresses, by the answer to its call of \<open>AddrList\<close>.\<close>

definition list_cases :: "string \<Rightarrow> (string \<Rightarrow> ipnet list) \<Rightarrow> (string \<Rightarrow> ipnet list) \<Rightarrow> go_error + ipnet list \<Rightarrow> bool" where
  "list_cases nic f g l \<longleftrightarrow>
     (case l of Inl e \<Rightarrow> g = f | Inr [] \<Rightarrow> g = f \<and> f nic = [] | Inr (a # rest) \<Rightarrow> moved nic f g)"

text \<open>Netlink as \<open>main\<close> relies on it: \<open>addrs s n\<close> is the list of the addresses of the link \<open>n\<close>.\<close>

lemma nic_lost: "f nic = a # rest \<Longrightarrow> lost nic f (f(nic := rest))"
  by (auto simp: lost_def)

lemma nic_moved: "f nic = a # rest \<Longrightarrow> h = f(nic := rest) \<Longrightarrow> moved nic f (h(bridgeName := h bridgeName @ [a]))"
  unfolding moved_def Let_def by blast

locale link_addresses =
  fixes m :: "'s machine" and addrs :: "'s \<Rightarrow> string \<Rightarrow> ipnet list"
  assumes find_link: "findLink m name s = (Inr link, t) \<Longrightarrow> LinkName link = name"
    and links: "addrs (snd (findLink m name s)) = addrs s" "addrs (snd (setUp m l s)) = addrs s"
    and files: "addrs (snd (openFile m path s)) = addrs s" "addrs (snd (readAll m data s)) = addrs s"
      "addrs (snd (writeFile m path data mode s)) = addrs s"
    and others: "addrs (snd (ovs m command s)) = addrs s" "addrs (snd (routeReplace m l n s)) = addrs s"
      "addrs (snd (newClient m s)) = addrs s" "addrs (snd (newSession m s)) = addrs s"
    and list_frame: "addrs (snd (addrList m l s)) = addrs s"
    and list_ok: "addrList m l s = (Inr as, t) \<Longrightarrow> as = addrs s (LinkName l)"
    and del_ok: "addrDel m l a s = (Inr (), t) \<Longrightarrow> addrs t = (addrs s)(LinkName l := remove1 a (addrs s (LinkName l)))"
    and del_failed: "addrDel m l a s = (Inl err, t) \<Longrightarrow> addrs t = addrs s"
    and add_ok: "addrAdd m l a s = (Inr (), t) \<Longrightarrow> addrs t = (addrs s)(LinkName l := addrs s (LinkName l) @ [a])"
    and add_failed: "addrAdd m l a s = (Inl err, t) \<Longrightarrow> addrs t = addrs s"
begin

lemmas address_frames = links files others list_frame

definition safe :: "string \<Rightarrow> ('s, 'a) act \<Rightarrow> bool" where
  "safe nic act \<longleftrightarrow>
     (\<forall>s r t. act s = (r, t) \<longrightarrow>
        address_cases nic (\<forall>l s. \<not> isl (fst (addrList m l s))) (addrs s) (addrs t) r)"

lemma safeD:
  "safe nic act \<Longrightarrow> act s = (r, t) \<Longrightarrow>
   address_cases nic (\<forall>l s. \<not> isl (fst (addrList m l s))) (addrs s) (addrs t) r"
  by (simp add: safe_def)

text \<open>A piece that keeps the addresses and does not panic.\<close>

definition quiet :: "('s, 'a) act \<Rightarrow> bool" where
  "quiet act \<longleftrightarrow> keeps addrs act \<and> (\<forall>s. fst (act s) \<noteq> Panics)"

lemma quiet_andThen: "quiet act \<Longrightarrow> (\<And>x. quiet (k x)) \<Longrightarrow> quiet (andThen act k)"
  by (auto simp: quiet_def keeps_andThen) (auto simp: andThen_def split: prod.splits outcome.splits sum.splits, metis fst_conv)

lemma quiet_wrapping: "quiet act \<Longrightarrow> quiet (wrapping fmt as act)"
  by (auto simp: quiet_def keeps_wrapping) (auto simp: wrapping_def split: prod.splits outcome.splits sum.splits, metis fst_conv)

lemma quiet_call: "(\<And>s. addrs (snd (op s)) = addrs s) \<Longrightarrow> quiet (call op)"
  by (simp add: quiet_def keeps_call) (simp add: call_def split: prod.splits)

lemma quiet_done: "quiet (done_with x)" "quiet (fails e)"
  by (simp_all add: quiet_def keeps_done_with keeps_fails) (simp_all add: done_with_def fails_def)

lemmas quiet_intros = quiet_andThen quiet_wrapping quiet_call quiet_done address_frames

lemma quiet_run_ovs: "quiet (run_ovs m command fmt as)"
proof -
  have "addrs t = addrs s" if "ovs m command s = (r, t)" for s r t using others(1) that by (metis snd_conv)
  then show ?thesis
    by (auto simp: quiet_def keeps_def run_ovs_def fails_def done_with_def split: prod.splits option.splits)
qed

lemma quiet_parts:
  "quiet (setupOVSBridgeIfNotExists m)" "quiet (setupPhysicalPortToBr m nic)" "quiet (changeRoute m cidr link)"
  "quiet (installCNIConf m)" "quiet (load_config m path)"
  unfolding setupOVSBridgeIfNotExists_def setupPhysicalPortToBr_def changeRoute_def installCNIConf_def load_config_def
  by (intro quiet_intros quiet_run_ovs | split option.split sum.split prod.split | intro conjI allI impI)+

lemma quiet_new_server: "quiet (new_server m conf)"
proof -
  have "addrs t = addrs s" if "newClient m s = (r, t)" for s r t using others(3) that by (metis snd_conv)
  moreover have "addrs t = addrs s" if "newSession m s = (r, t)" for s r t using others(4) that by (metis snd_conv)
  ultimately show ?thesis
    by (auto simp: quiet_def keeps_def new_server_def split: prod.splits sum.splits)
qed

lemma quiet_list_addresses: "quiet (list_addresses m l)"
proof -
  have "addrs t = addrs s" if "addrList m l s = (r, t)" for s r t using list_frame that by (metis snd_conv)
  then show ?thesis
    by (auto simp: quiet_def keeps_def list_addresses_def done_with_def split: prod.splits sum.splits)
qed

lemma quietD: "quiet act \<Longrightarrow> act s = (r, t) \<Longrightarrow> addrs t = addrs s \<and> r \<noteq> Panics"
  by (metis quiet_def keeps_def fst_conv snd_conv)

lemma safe_after:
  assumes "quiet act" "\<And>x s t. act s = (Returns (Inr x), t) \<Longrightarrow> safe nic (k x)"
  shows "safe nic (andThen act k)"
  unfolding safe_def
proof (intro allI impI)
  fix s r t assume a: "andThen act k s = (r, t)"
  obtain r1 u where u: "act s = (r1, u)" by fastforce
  note q = quietD [OF assms(1) u]
  show "address_cases nic (\<forall>l s. \<not> isl (fst (addrList m l s))) (addrs s) (addrs t) r"
  proof (cases "\<exists>x. r1 = Returns (Inr x)")
    case True
    then obtain x where x: "r1 = Returns (Inr x)" by blast
    with a u have "k x u = (r, t)" by (simp add: andThen_def)
    moreover have "safe nic (k x)" using assms(2) u x by blast
    ultimately have "address_cases nic (\<forall>l s. \<not> isl (fst (addrList m l s))) (addrs u) (addrs t) r"
      unfolding safe_def by blast
    then show ?thesis using q by simp
  next
    case False
    with q obtain e where "r1 = Returns (Inl e)" by (metis outcome.exhaust sum.exhaust)
    with a u q show ?thesis by (auto simp: andThen_def address_cases_def)
  qed
qed

lemma safe_before:
  assumes "safe nic act" "\<And>x. quiet (k x)"
  shows "safe nic (andThen act k)"
  unfolding safe_def
proof (intro allI impI)
  fix s r t assume a: "andThen act k s = (r, t)"
  obtain r1 u where u: "act s = (r1, u)" by fastforce
  with assms(1) have c: "address_cases nic (\<forall>l s. \<not> isl (fst (addrList m l s))) (addrs s) (addrs u) r1" by (simp add: safe_def)
  show "address_cases nic (\<forall>l s. \<not> isl (fst (addrList m l s))) (addrs s) (addrs t) r"
  proof (cases "\<exists>x. r1 = Returns (Inr x)")
    case True
    then obtain x where x: "r1 = Returns (Inr x)" by blast
    with a u have "k x u = (r, t)" by (simp add: andThen_def)
    from quietD [OF assms(2) this] have "addrs t = addrs u" "r \<noteq> Panics" by auto
    with c x show ?thesis by (auto simp: address_cases_def)
  next
    case False
    with c obtain e where "r1 = Returns (Inl e)" unfolding address_cases_def by (metis outcome.exhaust sum.exhaust)
    with a u c show ?thesis by (auto simp: andThen_def address_cases_def)
  qed
qed

lemma safe_move_address:
  assumes "LinkName p = nic" "LinkName b = bridgeName"
  shows "safe nic (move_address m nic p b)"
  unfolding safe_def
proof (intro allI impI)
  fix s r t assume a: "move_address m nic p b s = (r, t)"
  let ?reads = "\<forall>l s. \<not> isl (fst (addrList m l s))"
  obtain l u where l: "addrList m p s = (l, u)" by fastforce
  then have u: "addrs u = addrs s" using list_frame by (metis snd_conv)
  show "address_cases nic ?reads (addrs s) (addrs t) r"
  proof (cases l)
    case (Inl e)
    then have "\<not> ?reads" using l by (metis fst_conv sum.disc(1))
    with a l u Inl show ?thesis
      by (auto simp: move_address_def list_addresses_def andThen_def done_with_def address_cases_def)
  next
    case (Inr as)
    then have as: "as = addrs s nic" using list_ok l assms(1) by blast
    show ?thesis
    proof (cases as)
      case Nil
      with a l u Inr as show ?thesis
        by (auto simp: move_address_def list_addresses_def andThen_def done_with_def address_cases_def)
    next
      case (Cons x rest)
      then have nic: "addrs s nic = x # rest" using as by simp
      obtain d v where d: "addrDel m p x u = (d, v)" by fastforce
      show ?thesis
      proof (cases d)
        case (Inl e)
        with a l u Inr Cons d del_failed [of p x u e v] show ?thesis
          by (auto simp: move_address_def list_addresses_def andThen_def done_with_def wrapping_def call_def address_cases_def)
      next
        case del: (Inr y)
        then have v: "addrs v = (addrs s)(nic := rest)" using del_ok [of p x u v] d u nic assms(1) by simp
        obtain c w where c: "addrAdd m b x v = (c, w)" by fastforce
        then have "r = (case c of Inl e \<Rightarrow> Returns (Inl (Wrapf ''failed to add bridge %q ip addr, err: %v'' [bridgeName] e))
            | Inr z \<Rightarrow> Returns (Inr z))" "t = w"
          using a l Inr Cons d del
          by (auto simp: move_address_def list_addresses_def andThen_def done_with_def wrapping_def call_def split: sum.splits)
        then show ?thesis
          using nic_moved [of "addrs s" nic x rest "addrs v", OF nic v] nic_lost [of "addrs s" nic x rest, OF nic] c v add_ok [of b x v w] add_failed [of b x v _ w] assms(2)
          by (cases c) (simp_all add: address_cases_def)
      qed
    qed
  qed
qed

lemma safe_startup:
  assumes "load_config m path s = (Returns (Inr conf), s0)" "startup m path s = (r, t)"
  shows "address_cases (NIC conf) (\<forall>l s. \<not> isl (fst (addrList m l s))) (addrs s) (addrs t) r"
proof -
  let ?rest = "\<lambda>conf. 
    andThen (wrapping ''failed to intall CNI: %v'' [] (installCNIConf m)) (\<lambda>_.
    andThen (wrapping ''failed to setup OVS bridge: %v'' [] (setupOVSBridgeIfNotExists m)) (\<lambda>_.
    andThen (wrapping ''failed to add physical NIC to OVS bridge: %v'' [] (setupPhysicalPortToBr m (NIC conf))) (\<lambda>_.
    andThen (wrapping ''failed to get bridge %q, err: %v'' [bridgeName] (call (findLink m bridgeName))) (\<lambda>bridgeLink.
    andThen (wrapping ''failed to get physical nic %q, err: %v'' [NIC conf] (call (findLink m (NIC conf)))) (\<lambda>physicalLink.
    andThen (move_address m (NIC conf) physicalLink bridgeLink) (\<lambda>_.
    andThen (wrapping ''failed to set bridge %q up, err: %v'' [bridgeName] (call (setUp m bridgeLink))) (\<lambda>_.
    andThen (wrapping ''failed to change route, cidr: %v, link: %v'' [ClusterCIDR conf, LinkName bridgeLink]
         (changeRoute m (ClusterCIDR conf) bridgeLink)) (\<lambda>_.
       wrapping ''new ipam server error: %v'' [] (new_server m conf)))))))))"
  have tail: "safe (NIC conf) (andThen (move_address m (NIC conf) p b) (\<lambda>_.
      andThen (wrapping ''failed to set bridge %q up, err: %v'' [bridgeName] (call (setUp m b))) (\<lambda>_.
      andThen (wrapping ''failed to change route, cidr: %v, link: %v'' [ClusterCIDR conf, LinkName b]
           (changeRoute m (ClusterCIDR conf) b)) (\<lambda>_.
         wrapping ''new ipam server error: %v'' [] (new_server m conf)))))"
    if "LinkName p = NIC conf" "LinkName b = bridgeName" for p b
    by (rule safe_before [OF safe_move_address [OF that]])
      (intro quiet_andThen quiet_wrapping quiet_parts quiet_new_server quiet_call links)
  note links_found = quiet_wrapping [OF quiet_call [OF links(1)]]
  have "safe (NIC conf) (?rest conf)"
    by (rule safe_after [OF quiet_wrapping [OF quiet_parts(4)]], rule safe_after [OF quiet_wrapping [OF quiet_parts(1)]],
        rule safe_after [OF quiet_wrapping [OF quiet_parts(2)]], rule safe_after [OF links_found],
        rule safe_after [OF links_found], rule tail) (auto dest: find_link)
  moreover have "?rest conf s0 = (r, t)" using assms by (simp add: startup_def andThen_def)
  ultimately have "address_cases (NIC conf) (\<forall>l s. \<not> isl (fst (addrList m l s))) (addrs s0) (addrs t) r"
    by (rule safeD)
  then show ?thesis using quietD [OF quiet_parts(5) assms(1)] by simp
qed

text \<open>A start that succeeds.\<close>

lemma move_address_done:
  assumes "move_address m nic p b u = (Returns (Inr ()), v)" "LinkName p = nic" "LinkName b = bridgeName"
  shows "list_cases nic (addrs u) (addrs v) (fst (addrList m p u))"
proof -
  obtain l u' where l: "addrList m p u = (l, u')" by fastforce
  then have u: "addrs u' = addrs u" using list_frame by (metis snd_conv)
  show ?thesis
  proof (cases l)
    case (Inl e)
    with assms(1) l u show ?thesis
      by (simp add: list_cases_def move_address_def list_addresses_def andThen_def done_with_def)
  next
    case (Inr as)
    then have as: "addrs u nic = as" using list_ok [of p u as u'] l assms(2) by simp
    show ?thesis
    proof (cases as)
      case Nil
      with assms(1) l u Inr as show ?thesis
        by (simp add: list_cases_def move_address_def list_addresses_def andThen_def done_with_def)
    next
      case (Cons x rest)
      then obtain w where w: "addrDel m p x u' = (Inr (), w)" "addrAdd m b x w = (Inr (), v)"
        using assms(1) l Inr by (auto simp: move_address_def list_addresses_def andThen_Inr done_with_def)
      have "addrs w = (addrs u)(nic := rest)" using del_ok [OF w(1)] u as Cons assms(2) by simp
      then have "moved nic (addrs u) (addrs v)"
        using add_ok [OF w(2)] nic_moved [of "addrs u" nic x rest "addrs w"] as Cons assms(3) by simp
      then show ?thesis using l Inr Cons by (simp add: list_cases_def)
    qed
  qed
qed

lemma startup_done:
  assumes "load_config m path s = (Returns (Inr conf), s0)" "startup m path s = (Returns (Inr srv), t)"
  shows "\<exists>b p u. find_links m conf s0 = (Returns (Inr (b, p)), u) \<and> LinkName p = NIC conf \<and>
    list_cases (NIC conf) (addrs s) (addrs t) (fst (addrList m p u))"
proof -
  have "\<exists>b p u v. find_links m conf s0 = (Returns (Inr (b, p)), u) \<and> LinkName b = bridgeName \<and> LinkName p = NIC conf \<and>
      move_address m (NIC conf) p b u = (Returns (Inr ()), v) \<and>
      andThen (wrapping ''failed to set bridge %q up, err: %v'' [bridgeName] (call (setUp m b))) (\<lambda>_.
      andThen (wrapping ''failed to change route, cidr: %v, link: %v'' [ClusterCIDR conf, LinkName b]
           (changeRoute m (ClusterCIDR conf) b)) (\<lambda>_.
         wrapping ''new ipam server error: %v'' [] (new_server m conf))) v = (Returns (Inr srv), t)"
    using assms find_link unfolding startup_def find_links_def andThen_Inr by fastforce
  then obtain b p u v where run: "find_links m conf s0 = (Returns (Inr (b, p)), u)" "LinkName b = bridgeName"
      "LinkName p = NIC conf" "move_address m (NIC conf) p b u = (Returns (Inr ()), v)"
      "andThen (wrapping ''failed to set bridge %q up, err: %v'' [bridgeName] (call (setUp m b))) (\<lambda>_.
      andThen (wrapping ''failed to change route, cidr: %v, link: %v'' [ClusterCIDR conf, LinkName b]
           (changeRoute m (ClusterCIDR conf) b)) (\<lambda>_.
         wrapping ''new ipam server error: %v'' [] (new_server m conf))) v = (Returns (Inr srv), t)"
    by blast
  have "quiet (andThen (wrapping ''failed to set bridge %q up, err: %v'' [bridgeName] (call (setUp m b))) (\<lambda>_.
      andThen (wrapping ''failed to change route, cidr: %v, link: %v'' [ClusterCIDR conf, LinkName b]
           (changeRoute m (ClusterCIDR conf) b)) (\<lambda>_.
         wrapping ''new ipam server error: %v'' [] (new_server m conf))))"
    by (intro quiet_andThen quiet_wrapping quiet_parts quiet_new_server quiet_call links)
  from quietD [OF this run(5)] have "addrs t = addrs v" by simp
  moreover have "quiet (find_links m conf)"
    unfolding find_links_def by (intro quiet_andThen quiet_wrapping quiet_parts quiet_call quiet_done links)
  from quietD [OF this run(1)] quietD [OF quiet_parts(5) assms(1)] have "addrs u = addrs s" by simp
  ultimately show ?thesis using move_address_done [OF run(4,3,2)] run(1,3) by auto
qed

end

section \<open>A node\<close>

definition node_conf :: kubeovsd_conf where
  "node_conf = \<lparr>NIC = ''enp0s8'', ClusterCIDR = ''192.168.50.0/24'', EtcdEndpoints = [],
     IpamRangeStart = ip_String [192, 168, 50, 241], IpamRangeEnd = ip_String [192, 168, 50, 254],
     IpamSubnetIP = ip_String [192, 168, 50, 0], IpamSubnetMask = ip_String [255, 255, 255, 0],
     IpamGateway = ip_String [192, 168, 50, 1]\<rparr>"

type_synonym links = "string \<Rightarrow> ipnet list"

definition node_machine :: "bool \<Rightarrow> links machine" where
  "node_machine broken =
     \<lparr>openFile = \<lambda>path s. (Inr path, s), readAll = \<lambda>_ s. (Inr [], s), unmarshal = \<lambda>_. Inr node_conf,
      writeFile = \<lambda>_ _ _ s. (Inr (), s), ovs = \<lambda>_ s. (([], None), s),
      findLink = \<lambda>name s. (Inr \<lparr>LinkName = name, HardwareAddr = []\<rparr>, s), setUp = \<lambda>_ s. (Inr (), s),
      addrList = \<lambda>l s. (Inr (s (LinkName l)), s),
      addrDel = \<lambda>l a s. (Inr (), s(LinkName l := remove1 a (s (LinkName l)))),
      addrAdd = \<lambda>l a s. if broken then (Inl (ErrNew ''file exists''), s)
        else (Inr (), s(LinkName l := s (LinkName l) @ [a])),
      routeReplace = \<lambda>_ _ s. (Inr (), s), newClient = \<lambda>s. (Inr (), s), newSession = \<lambda>s. (Inr (), s),
      stat = \<lambda>_ s. (None, s), mkdirAll = \<lambda>_ s. (Inr (), s), unlinkFile = \<lambda>_ s. (Inr (), s),
      listen = \<lambda>_ s. (Inr (), s), serve = \<lambda>_ s. (Inl (ErrNew ''closed''), s)\<rparr>"

interpretation node: link_addresses "node_machine broken" "\<lambda>s. s" for broken
  by unfold_locales (auto simp: node_machine_def split: if_splits)

definition node_links :: links where
  "node_links = (\<lambda>_. [])(''enp0s8'' := [\<lparr>IP = [192, 168, 50, 9], Mask = [255, 255, 255, 0]\<rparr>])"

lemma node_config: "load_config (node_machine broken) path s = (Returns (Inr node_conf), s)"
  by (simp add: load_config_def node_machine_def andThen_def wrapping_def call_def done_with_def)

lemma startup_new_server:
  assumes "load_config m path s = (Returns (Inr conf), s0)" "startup m path s = (Returns (Inr srv), t)"
  shows "NewIpamServer (Inr ()) (Inr ()) (server_conf conf) = Inr srv"
proof -
  obtain u where "new_server m conf u = (Returns (Inr srv), t)"
    using assms by (auto simp: startup_def andThen_Inr)
  then show ?thesis
    by (auto simp: new_server_def NewIpamServer_def New_def NewEtcdLock_def split: prod.splits sum.splits)
qed

lemmas node_calls =
  startup_def andThen_def wrapping_def call_def done_with_def fails_def load_config_def installCNIConf_def
  setupOVSBridgeIfNotExists_def setupPhysicalPortToBr_def run_ovs_def move_address_def list_addresses_def
  changeRoute_def new_server_def node_machine_def

lemma node_startup:
  "\<exists>srv. startup (node_machine False) path node_links =
     (Returns (Inr srv), node_links(''enp0s8'' := [], bridgeName := [\<lparr>IP = [192, 168, 50, 9], Mask = [255, 255, 255, 0]\<rparr>]))"
  "\<exists>e. startup (node_machine True) path node_links = (Returns (Inl e), node_links(''enp0s8'' := []))"
proof -
  have "case ParseCIDR (ClusterCIDR node_conf) of None \<Rightarrow> False | Some p \<Rightarrow> True" by code_simp
  then obtain x n where cidr: "ParseCIDR (ClusterCIDR node_conf) = Some (x, n)" by (auto split: option.splits)
  obtain srv where srv: "NewIpamServer (Inr ()) (Inr ()) (server_conf node_conf) = Inr srv"
    by (auto simp: NewIpamServer_def New_def NewEtcdLock_def range_loop_eq)
  have nic: "NIC node_conf = ''enp0s8''" "bridgeName = ''kubeovs-br''" by (simp_all add: node_conf_def bridgeName_def)
  show "\<exists>srv. startup (node_machine False) path node_links =
     (Returns (Inr srv), node_links(''enp0s8'' := [], bridgeName := [\<lparr>IP = [192, 168, 50, 9], Mask = [255, 255, 255, 0]\<rparr>]))"
    by (simp add: node_calls cidr srv nic node_links_def)
  show "\<exists>e. startup (node_machine True) path node_links = (Returns (Inl e), node_links(''enp0s8'' := []))"
    by (simp add: node_calls nic node_links_def)
qed

section \<open>Properties\<close>

text \<open>
  C13. What the start of the daemon does to the addresses of the node, whatever call fails. Before a start succeeds
  it has found the two links and asked for the addresses of the physical interface: if that call failed, which
  \<open>main\<close> only warns of, or if there was none, all addresses are as before; otherwise the first address of the
  interface was moved to the bridge. A start that fails leaves the addresses, or has moved the address, or has taken it
  from the interface without giving it to the bridge. \<open>f\<close> and \<open>g\<close> are the addresses before and after.
\<close>

theorem startup_addresses:
  assumes "link_addresses m addrs" "load_config m path s = (Returns (Inr conf), s0)" "startup m path s = (r, t)"
    "f = addrs s" "g = addrs t"
  shows "case r of
      Panics \<Rightarrow> False
    | Returns (Inr srv) \<Rightarrow> \<exists>bridgeLink physicalLink u.
        find_links m conf s0 = (Returns (Inr (bridgeLink, physicalLink)), u) \<and> LinkName physicalLink = NIC conf \<and>
        (case fst (addrList m physicalLink u) of
           Inl e \<Rightarrow> g = f
         | Inr [] \<Rightarrow> g = f \<and> f (NIC conf) = []
         | Inr (a # rest) \<Rightarrow> moved (NIC conf) f g)
    | Returns (Inl e) \<Rightarrow> g = f \<or> moved (NIC conf) f g \<or> lost (NIC conf) f g"
proof (cases "\<exists>srv. r = Returns (Inr srv)")
  case True
  then obtain srv where r: "r = Returns (Inr srv)" by blast
  show ?thesis
    using link_addresses.startup_done [OF assms(1,2) assms(3) [unfolded r]]
    unfolding assms(4,5) r outcome.case sum.case list_cases_def .
next
  case False
  with link_addresses.safe_startup [OF assms(1-3)] assms(4,5) show ?thesis
    by (auto simp: address_cases_def split: outcome.split sum.split)
qed

lemma node_links_found:
  "find_links (node_machine broken) node_conf s =
     (Returns (Inr (\<lparr>LinkName = bridgeName, HardwareAddr = []\<rparr>, \<lparr>LinkName = ''enp0s8'', HardwareAddr = []\<rparr>)), s)"
proof -
  have "NIC node_conf = ''enp0s8''" by (simp add: node_conf_def)
  then show ?thesis by (simp add: find_links_def node_calls)
qed

theorem startup_addresses_witness:
  "moved ''enp0s8'' node_links (node_links(''enp0s8'' := [], bridgeName := [\<lparr>IP = [192, 168, 50, 9], Mask = [255, 255, 255, 0]\<rparr>]))"
proof -
  obtain srv where run: "startup (node_machine False) [] node_links =
     (Returns (Inr srv), node_links(''enp0s8'' := [], bridgeName := [\<lparr>IP = [192, 168, 50, 9], Mask = [255, 255, 255, 0]\<rparr>]))"
    using node_startup(1) by blast
  have "NIC node_conf = ''enp0s8''" "fst (addrList (node_machine False) \<lparr>LinkName = ''enp0s8'', HardwareAddr = []\<rparr> node_links) =
      Inr [\<lparr>IP = [192, 168, 50, 9], Mask = [255, 255, 255, 0]\<rparr>]"
    by (simp_all add: node_conf_def node_links_def node_machine_def)
  with startup_addresses [OF node.link_addresses_axioms node_config run refl refl] show ?thesis
    by (simp add: node_links_found)
qed

text \<open>
  C36. An address that a failed start took from the physical interface is not restored: a later start of the
  daemon, on any machine and with any outcome, changes no address when the interface has none, since it
  takes the address to be on the bridge already.
\<close>

theorem startup_not_repeated:
  assumes "link_addresses m addrs" "load_config m path s = (Returns (Inr conf), s0)" "startup m path s = (r, t)"
    "addrs s (NIC conf) = []"
  shows "addrs t = addrs s \<and> r \<noteq> Panics"
  using link_addresses.safe_startup [OF assms(1-3)] assms(4)
  by (cases r; cases "case r of Panics \<Rightarrow> undefined | Returns x \<Rightarrow> x") (auto simp: address_cases_def moved_def lost_def)

theorem startup_not_repeated_witness:
  "\<exists>e. startup (node_machine True) [] node_links = (Returns (Inl e), node_links(''enp0s8'' := [])) \<and>
     snd (startup (node_machine False) [] (node_links(''enp0s8'' := []))) = node_links(''enp0s8'' := [])"
proof -
  have "(node_links(''enp0s8'' := [])) (NIC node_conf) = []" by (simp add: node_conf_def)
  moreover obtain r t where run: "startup (node_machine False) [] (node_links(''enp0s8'' := [])) = (r, t)" by fastforce
  ultimately have "t = node_links(''enp0s8'' := [])"
    using startup_not_repeated [OF node.link_addresses_axioms node_config run] by simp
  with run node_startup(2) show ?thesis by simp
qed

text \<open>
  C37. The server a start makes has one allocator, for exactly the range whose texts the configuration has,
  unchecked; if that range is well formed, the server is, and the addresses it serves are those from the
  start to the end of the range.
\<close>

theorem startup_server:
  assumes "load_config m path s = (Returns (Inr conf), s0)" "startup m path s = (Returns (Inr srv), t)"
    "IpamRangeStart conf = ip_String a" "IpamRangeEnd conf = ip_String b" "IpamSubnetIP conf = ip_String net"
    "IpamSubnetMask conf = ip_String msk" "IpamGateway conf = ip_String gw"
    "list_all (\<lambda>x. length x = 4) [a, b, net, msk, gw]"
    "r = \<lparr>RangeStart = a, RangeEnd = b, Subnet = \<lparr>IP = net, Mask = msk\<rparr>, Gateway = gw\<rparr>"
  shows "allocs srv = [NewIPAllocator [r] 0] \<and> keyPrefix (srvStore srv) = ''/kubeovsio/networks/kubeovs-net'' \<and>
    (wf_range 4 r \<longrightarrow> wf_server srv \<and> (\<forall>x. RangeSet_Contains (Rangeset (hd (allocs srv))) x \<longleftrightarrow> in_range 4 r x))"
proof -
  have four: "To4 (ParseIP (ip_String x)) = x" if "length x = 4" for x
    unfolding ParseIP_String4 [OF that] using that by simp
  have "NewIpamServer (Inr ()) (Inr ()) (server_conf conf) = Inr srv"
    using startup_new_server [OF assms(1,2)] .
  moreover have "Ranges (server_conf conf) = [[r]]" "ConfName (server_conf conf) = ''kubeovs-net''" "PrefixKey (server_conf conf) = []"
    using assms(3-9) four by (simp_all add: server_conf_def)
  ultimately have "allocs srv = [NewIPAllocator [r] 0]" "keyPrefix (srvStore srv) = ''/kubeovsio/networks/kubeovs-net''"
    by (auto simp: NewIpamServer_def range_loop_eq New_def NewEtcdLock_def defaultKeyPrefix_def)
  then show ?thesis
    by (auto simp: wf_server_def wf_set_def NewIPAllocator_def RangeSet_Contains_iff Range_Contains_wf)
qed

theorem startup_server_witness:
  "\<exists>srv t. startup (node_machine False) [] node_links = (Returns (Inr srv), t) \<and> wf_server srv \<and>
     RangeSet_Contains (Rangeset (hd (allocs srv))) [192, 168, 50, 250]"
proof -
  let ?r = "\<lparr>RangeStart = [192, 168, 50, 241], RangeEnd = [192, 168, 50, 254],
    Subnet = \<lparr>IP = [192, 168, 50, 0], Mask = [255, 255, 255, 0]\<rparr>, Gateway = [192, 168, 50, 1]\<rparr>"
  obtain srv t where run: "startup (node_machine False) [] node_links = (Returns (Inr srv), t)"
    using node_startup(1) by blast
  have texts: "IpamRangeStart node_conf = ip_String [192, 168, 50, 241]" "IpamRangeEnd node_conf = ip_String [192, 168, 50, 254]"
    "IpamSubnetIP node_conf = ip_String [192, 168, 50, 0]" "IpamSubnetMask node_conf = ip_String [255, 255, 255, 0]"
    "IpamGateway node_conf = ip_String [192, 168, 50, 1]"
    by (simp_all only: node_conf_def kubeovsd_conf.simps)
  have "wf_range 4 ?r" "in_range 4 ?r [192, 168, 50, 250]" by code_simp+
  with startup_server [OF node_config run texts _ refl] run show ?thesis by auto
qed

end
