(* ===== verification/Controller.thy ===== *)
theory Controller
  imports GoPrelude
begin

text \<open>
  The pod controller (\<open>pkg/controller/controller.go\<close>, \<open>pod.go\<close>) and the work queue it puts keys into
  (\<open>vendor/k8s.io/client-go/util/workqueue\<close>). The queue's methods run under its mutex, one step each; the
  delay of a rate-limited item is a set of the items that wait, from which \<open>fire\<close> takes one. The handlers of
  the repository are stubs that return nil. The locale \<open>key_queue\<close> is what the controller needs of a queue.
\<close>

section \<open>The work queue\<close>

datatype item = Key string | OtherItem nat

record work_queue =
  queue :: "item list"
  dirty :: "item set"
  processing :: "item set"
  shuttingDown :: bool
  failures :: "item \<Rightarrow> nat"
  delayed :: "item set"

definition newQueue :: work_queue where
  "newQueue = \<lparr>queue = [], dirty = {}, processing = {}, shuttingDown = False, failures = (\<lambda>_. 0), delayed = {}\<rparr>"

definition wq_Add :: "item \<Rightarrow> work_queue \<Rightarrow> work_queue" where
  "wq_Add x q =
     (if shuttingDown q then q
      else if x \<in> dirty q then q
      else
        (let q = q\<lparr>dirty := insert x (dirty q)\<rparr> in
         if x \<in> processing q then q else q\<lparr>queue := queue q @ [x]\<rparr>))"

text \<open>\<open>None\<close> while the call waits; an item, or none for \<open>shutdown\<close>.\<close>

definition wq_Get :: "work_queue \<Rightarrow> (item option \<times> work_queue) option" where
  "wq_Get q =
     (case queue q of
        [] \<Rightarrow> if shuttingDown q then Some (None, q) else None
      | x # rest \<Rightarrow>
          Some (Some x, q\<lparr>queue := rest, processing := insert x (processing q), dirty := dirty q - {x}\<rparr>))"

definition wq_Done :: "item \<Rightarrow> work_queue \<Rightarrow> work_queue" where
  "wq_Done x q =
     (let q = q\<lparr>processing := processing q - {x}\<rparr> in
      if x \<in> dirty q then q\<lparr>queue := queue q @ [x]\<rparr> else q)"

definition wq_ShutDown :: "work_queue \<Rightarrow> work_queue" where
  "wq_ShutDown q = q\<lparr>shuttingDown := True\<rparr>"

definition AddRateLimited :: "item \<Rightarrow> work_queue \<Rightarrow> work_queue" where
  "AddRateLimited x q =
     (let q = q\<lparr>failures := (failures q)(x := Suc (failures q x))\<rparr> in
      if shuttingDown q then q else q\<lparr>delayed := insert x (delayed q)\<rparr>)"

definition Forget :: "item \<Rightarrow> work_queue \<Rightarrow> work_queue" where
  "Forget x q = q\<lparr>failures := (failures q)(x := 0)\<rparr>"

definition fire :: "item \<Rightarrow> work_queue \<Rightarrow> work_queue" where
  "fire x q = wq_Add x (q\<lparr>delayed := delayed q - {x}\<rparr>)"

section \<open>Pods and events\<close>

record pod =
  Namespace :: string
  PodName :: string
  PodPhase :: string
  Reason :: string
  RestartPolicy :: string
  NodeName :: string
  ResourceVersion :: string
  Annotations :: "string \<rightharpoonup> string"

text \<open>The object of an event; \<open>cache.ExplicitKey\<close>, and everything without object metadata.\<close>

datatype kube_obj = PodObj pod | ExplicitKey string | NoMeta

definition MetaNamespaceKeyFunc :: "kube_obj \<Rightarrow> go_error + string" where
  "MetaNamespaceKeyFunc obj =
     (case obj of
        ExplicitKey key \<Rightarrow> Inr key
      | NoMeta \<Rightarrow> Inl (Wrapf ''object has no meta: %v'' [] (ErrNew ''object does not implement the Object interfaces''))
      | PodObj p \<Rightarrow> Inr (if Namespace p \<noteq> [] then Namespace p @ ''/'' @ PodName p else PodName p))"

definition AllocatedAnnotation :: string where
  "AllocatedAnnotation = ''kubeovs.io/allocated''"

definition isPodAlive :: "pod \<Rightarrow> bool" where
  "isPodAlive p =
     (if PodPhase p = ''Succeeded'' \<and> RestartPolicy p \<noteq> ''Always'' then False
      else if PodPhase p = ''Failed'' \<and> RestartPolicy p = ''Never'' then False
      else if PodPhase p = ''Failed'' \<and> Reason p = ''Evicted'' then False
      else True)"

record controller =
  addPodQueue :: work_queue
  updatePodQueue :: work_queue
  deletePodQueue :: work_queue

definition NewController :: controller where
  "NewController = \<lparr>addPodQueue = newQueue, updatePodQueue = newQueue, deletePodQueue = newQueue\<rparr>"

definition add_to_delete :: "string \<Rightarrow> controller \<Rightarrow> controller" where
  "add_to_delete key c = c\<lparr>deletePodQueue := wq_Add (Key key) (deletePodQueue c)\<rparr>"

definition enqueueAddPod :: "kube_obj \<Rightarrow> controller \<Rightarrow> controller outcome" where
  "enqueueAddPod obj c =
     (case MetaNamespaceKeyFunc obj of
        Inl err \<Rightarrow> Returns c
      | Inr key \<Rightarrow>
          (case obj of
             PodObj p \<Rightarrow>
               if \<not> isPodAlive p then Returns (add_to_delete key c)
               else Returns (c\<lparr>addPodQueue := wq_Add (Key key) (addPodQueue c)\<rparr>)
           | _ \<Rightarrow> Panics))"

definition enqueueDeletePod :: "kube_obj \<Rightarrow> controller \<Rightarrow> controller outcome" where
  "enqueueDeletePod obj c =
     (case MetaNamespaceKeyFunc obj of
        Inl err \<Rightarrow> Returns c
      | Inr key \<Rightarrow> Returns (add_to_delete key c))"

definition annotation :: "pod \<Rightarrow> string \<Rightarrow> string" where
  "annotation p k = (case Annotations p k of None \<Rightarrow> [] | Some v \<Rightarrow> v)"

definition enqueueUpdatePod :: "kube_obj \<Rightarrow> kube_obj \<Rightarrow> controller \<Rightarrow> controller outcome" where
  "enqueueUpdatePod oldObj newObj c =
     (case (oldObj, newObj) of
        (PodObj oldPod, PodObj newPod) \<Rightarrow>
          if ResourceVersion oldPod = ResourceVersion newPod then Returns c
          else
            (case MetaNamespaceKeyFunc newObj of
               Inl err \<Rightarrow> Returns c
             | Inr key \<Rightarrow>
                 if \<not> isPodAlive newPod then Returns (add_to_delete key c)
                 else if annotation newPod AllocatedAnnotation = ''true'' \<and> NodeName newPod \<noteq> []
                 then Returns (c\<lparr>updatePodQueue := wq_Add (Key key) (updatePodQueue c)\<rparr>)
                 else Returns c)
      | _ \<Rightarrow> Panics)"

section \<open>Workers\<close>

definition handleAddPod :: "string \<Rightarrow> go_error option" where "handleAddPod key = None"
definition handleDeletePod :: "string \<Rightarrow> go_error option" where "handleDeletePod key = None"
definition handleUpdatePod :: "string \<Rightarrow> go_error option" where "handleUpdatePod key = None"

text \<open>The function literal between \<open>Get\<close> and the deferred \<open>Done\<close>, with its error.\<close>

definition sync_item :: "(string \<Rightarrow> go_error option) \<Rightarrow> item \<Rightarrow> work_queue \<Rightarrow> go_error option \<times> work_queue" where
  "sync_item handle obj q =
     (case obj of
        OtherItem n \<Rightarrow> (None, Forget obj q)
      | Key key \<Rightarrow>
          (case handle key of
             Some err \<Rightarrow> (Some (Wrapf ''error syncing '%s': %s, requeuing'' [key] err), AddRateLimited obj q)
           | None \<Rightarrow> (None, Forget obj q)))"

text \<open>The three \<open>processNext...WorkItem\<close> differ in the queue and the handler; \<open>None\<close> while \<open>Get\<close> waits.\<close>

definition process_next :: "(string \<Rightarrow> go_error option) \<Rightarrow> work_queue \<Rightarrow> (bool \<times> work_queue) option" where
  "process_next handle q =
     (case wq_Get q of
        None \<Rightarrow> None
      | Some (None, q') \<Rightarrow> Some (False, q')
      | Some (Some obj, q') \<Rightarrow> (case sync_item handle obj q' of (err, q'') \<Rightarrow> Some (True, wq_Done obj q'')))"

definition processNextAddPodWorkItem :: "controller \<Rightarrow> (bool \<times> controller) option" where
  "processNextAddPodWorkItem c =
     map_option (\<lambda>(b, q). (b, c\<lparr>addPodQueue := q\<rparr>)) (process_next handleAddPod (addPodQueue c))"

definition processNextDeletePodWorkItem :: "controller \<Rightarrow> (bool \<times> controller) option" where
  "processNextDeletePodWorkItem c =
     map_option (\<lambda>(b, q). (b, c\<lparr>deletePodQueue := q\<rparr>)) (process_next handleDeletePod (deletePodQueue c))"

definition processNextUpdatePodWorkItem :: "controller \<Rightarrow> (bool \<times> controller) option" where
  "processNextUpdatePodWorkItem c =
     map_option (\<lambda>(b, q). (b, c\<lparr>updatePodQueue := q\<rparr>)) (process_next handleUpdatePod (updatePodQueue c))"

text \<open>The bodies of the workers are empty: no worker calls the functions above.\<close>

definition runAddPodWorker :: "controller \<Rightarrow> controller" where "runAddPodWorker c = c"
definition runDeletePodWorker :: "controller \<Rightarrow> controller" where "runDeletePodWorker c = c"
definition runUpdatePodWorker :: "controller \<Rightarrow> controller" where "runUpdatePodWorker c = c"

section \<open>What the controller needs of a queue\<close>

text \<open>
  \<open>todo\<close> are the items that have been added and not been taken since, \<open>busy\<close> those that a worker has.
\<close>

locale key_queue =
  fixes ok :: "'q \<Rightarrow> bool" and add :: "item \<Rightarrow> 'q \<Rightarrow> 'q" and get :: "'q \<Rightarrow> (item option \<times> 'q) option"
    and finish :: "item \<Rightarrow> 'q \<Rightarrow> 'q" and todo :: "'q \<Rightarrow> item set" and busy :: "'q \<Rightarrow> item set" and closed :: "'q \<Rightarrow> bool"
  assumes add_ok: "ok q \<Longrightarrow> ok (add x q) \<and> busy (add x q) = busy q \<and> closed (add x q) = closed q \<and>
      todo (add x q) = (if closed q then todo q else insert x (todo q))"
    and finish_ok: "ok q \<Longrightarrow> x \<in> busy q \<Longrightarrow> ok (finish x q) \<and> busy (finish x q) = busy q - {x} \<and>
      todo (finish x q) = todo q \<and> closed (finish x q) = closed q"
    and get_item: "ok q \<Longrightarrow> get q = Some (Some x, q') \<Longrightarrow>
      ok q' \<and> x \<in> todo q \<and> x \<notin> busy q \<and> todo q' = todo q - {x} \<and> busy q' = insert x (busy q) \<and> closed q' = closed q"
    and get_closed: "ok q \<Longrightarrow> get q = Some (None, q') \<Longrightarrow> q' = q \<and> closed q \<and> todo q \<subseteq> busy q"
    and get_waits: "ok q \<Longrightarrow> get q = None \<Longrightarrow> \<not> closed q \<and> todo q \<subseteq> busy q"
begin

text \<open>An idle queue gives out what there is to do.\<close>

lemma get_idle: "ok q \<Longrightarrow> busy q = {} \<Longrightarrow> todo q \<noteq> {} \<Longrightarrow> \<exists>x q'. get q = Some (Some x, q')"
  using get_closed get_waits by (metis bot.extremum_uniqueI not_None_eq surj_pair)

text \<open>What was to do stays so until a worker gets it, and a worker gets nothing that another one has.\<close>

lemma todo_add: "ok q \<Longrightarrow> x \<in> todo q \<Longrightarrow> x \<in> todo (add y q)"
  using add_ok [of q y] by auto

lemma todo_get: "ok q \<Longrightarrow> get q = Some (Some y, q') \<Longrightarrow> x \<in> todo q \<Longrightarrow> x \<in> todo q' \<or> x = y \<and> x \<in> busy q'"
  using get_item [of q y q'] by auto

end

definition wq_ok :: "work_queue \<Rightarrow> bool" where
  "wq_ok q \<longleftrightarrow> distinct (queue q) \<and> set (queue q) = dirty q - processing q"

interpretation wq: key_queue wq_ok wq_Add wq_Get wq_Done dirty processing shuttingDown
proof
  fix q x assume "wq_ok q"
  then show "wq_ok (wq_Add x q) \<and> processing (wq_Add x q) = processing q \<and> shuttingDown (wq_Add x q) = shuttingDown q \<and>
      dirty (wq_Add x q) = (if shuttingDown q then dirty q else insert x (dirty q))"
    by (auto simp: wq_ok_def wq_Add_def Let_def)
next
  fix q x assume "wq_ok q" "x \<in> processing q"
  then show "wq_ok (wq_Done x q) \<and> processing (wq_Done x q) = processing q - {x} \<and>
      dirty (wq_Done x q) = dirty q \<and> shuttingDown (wq_Done x q) = shuttingDown q"
    by (auto simp: wq_ok_def wq_Done_def Let_def)
next
  fix q x q' assume q: "wq_ok q" "wq_Get q = Some (Some x, q')"
  then obtain rest where r: "queue q = x # rest"
    "q' = q\<lparr>queue := rest, processing := insert x (processing q), dirty := dirty q - {x}\<rparr>"
    by (auto simp: wq_Get_def split: list.splits if_splits)
  then have "insert x (set rest) = dirty q - processing q" "x \<notin> set rest" "distinct rest"
    using q(1) by (simp_all add: wq_ok_def)
  moreover from this have "set rest = dirty q - {x} - insert x (processing q)" by blast
  ultimately show "wq_ok q' \<and> x \<in> dirty q \<and> x \<notin> processing q \<and> dirty q' = dirty q - {x} \<and>
      processing q' = insert x (processing q) \<and> shuttingDown q' = shuttingDown q"
    unfolding r(2) wq_ok_def by auto
next
  fix q q' assume "wq_ok q" "wq_Get q = Some (None, q')"
  then show "q' = q \<and> shuttingDown q \<and> dirty q \<subseteq> processing q"
    by (auto simp: wq_ok_def wq_Get_def split: list.splits if_splits)
next
  fix q assume "wq_ok q" "wq_Get q = None"
  then show "\<not> shuttingDown q \<and> dirty q \<subseteq> processing q"
    by (auto simp: wq_ok_def wq_Get_def split: list.splits if_splits)
qed

lemma fire_ok: "wq_ok q \<Longrightarrow> wq_ok (fire x q) \<and> dirty q \<subseteq> dirty (fire x q)"
  using wq.add_ok [of "q\<lparr>delayed := delayed q - {x}\<rparr>" x] by (auto simp: fire_def wq_ok_def)

lemma sync_item_frame:
  "sync_item handle x q = (err, q') \<Longrightarrow> queue q' = queue q \<and> dirty q' = dirty q \<and> processing q' = processing q \<and>
   shuttingDown q' = shuttingDown q"
  by (auto simp: sync_item_def Forget_def AddRateLimited_def Let_def split: item.splits option.splits if_splits)

section \<open>A queue with workers\<close>

text \<open>
  The steps of event handlers, of any number of workers and of the timer, each under the mutex: a worker
  gets an item, later handles it, later is done with it.
\<close>

inductive wq_step :: "(string \<Rightarrow> go_error option) \<Rightarrow> work_queue \<Rightarrow> work_queue \<Rightarrow> bool" for handle where
  event: "wq_step handle q (wq_Add (Key key) q)"
| get: "wq_Get q = Some (Some x, q') \<Longrightarrow> wq_step handle q q'"
| sync: "x \<in> processing q \<Longrightarrow> sync_item handle x q = (err, q') \<Longrightarrow> wq_step handle q q'"
| finish: "x \<in> processing q \<Longrightarrow> wq_step handle q (wq_Done x q)"
| timer: "x \<in> delayed q \<Longrightarrow> wq_step handle q (fire x q)"
| shutdown: "wq_step handle q (wq_ShutDown q)"

lemma wq_step_ok:
  assumes "wq_step handle q q'" "wq_ok q"
  shows "wq_ok q' \<and> (\<forall>x \<in> dirty q. x \<in> dirty q' \<or> wq_Get q = Some (Some x, q'))"
  using assms
proof cases
  case (event key)
  then show ?thesis using wq.add_ok [OF assms(2), of "Key key"] by auto
next
  case (get x)
  then show ?thesis using wq.get_item [OF assms(2), of x q'] by auto
next
  case (sync x err)
  then show ?thesis using sync_item_frame [of handle x q err q'] assms(2) by (simp add: wq_ok_def)
next
  case (finish x)
  then show ?thesis using wq.finish_ok [OF assms(2), of x] by auto
next
  case (timer x)
  then show ?thesis using fire_ok [OF assms(2), of x] by auto
next
  case shutdown
  then show ?thesis using assms(2) by (simp add: wq_ok_def wq_ShutDown_def)
qed

lemma wq_run_ok: "(wq_step handle)\<^sup>*\<^sup>* newQueue q \<Longrightarrow> wq_ok q"
  by (induction rule: rtranclp_induct) (auto dest: wq_step_ok simp: wq_ok_def newQueue_def)

text \<open>A worker keeps an item until it is done with it; a delayed one stays so until the timer puts it back.\<close>

lemma wq_step_busy:
  assumes "wq_step handle q q'" "wq_ok q" "x \<in> processing q"
  shows "x \<in> processing q' \<or> q' = wq_Done x q"
  using assms(1)
proof cases
  case (event key)
  then show ?thesis using wq.add_ok [OF assms(2), of "Key key"] assms(3) by simp
next
  case (get y)
  then show ?thesis using wq.get_item [OF assms(2), of y q'] assms(3) by simp
next
  case (sync y err)
  then show ?thesis using sync_item_frame [of handle y q err q'] assms(3) by simp
next
  case (finish y)
  then show ?thesis using wq.finish_ok [OF assms(2), of y] assms(3) by auto
next
  case (timer y)
  then show ?thesis using assms(3) by (simp add: fire_def wq_Add_def Let_def)
next
  case shutdown
  then show ?thesis using assms(3) by (simp add: wq_ShutDown_def)
qed

definition retried :: "item \<Rightarrow> work_queue \<Rightarrow> bool" where
  "retried x q \<longleftrightarrow> x \<in> delayed q \<or> x \<in> dirty q \<or> shuttingDown q"

lemma wq_step_delayed: "wq_step handle q q' \<Longrightarrow> x \<in> delayed q \<Longrightarrow> retried x q'"
  unfolding retried_def
  by (erule wq_step.cases)
    (auto simp: wq_Add_def wq_Get_def wq_Done_def wq_ShutDown_def fire_def sync_item_def AddRateLimited_def Forget_def Let_def
      split: list.splits item.splits option.splits if_splits)

lemma wq_step_shut: "wq_step handle q q' \<Longrightarrow> shuttingDown q \<Longrightarrow> shuttingDown q'"
  by (erule wq_step.cases)
    (auto simp: wq_Add_def wq_Get_def wq_Done_def wq_ShutDown_def fire_def sync_item_def AddRateLimited_def Forget_def Let_def
      split: list.splits item.splits option.splits if_splits)

text \<open>The steps in which no worker gets \<open>x\<close>.\<close>

definition other_step :: "(string \<Rightarrow> go_error option) \<Rightarrow> item \<Rightarrow> work_queue \<Rightarrow> work_queue \<Rightarrow> bool" where
  "other_step handle x q q' \<longleftrightarrow> wq_step handle q q' \<and> wq_Get q \<noteq> Some (Some x, q')"

lemma dirty_kept: "(other_step handle x)\<^sup>*\<^sup>* q q' \<Longrightarrow> wq_ok q \<Longrightarrow> x \<in> dirty q \<Longrightarrow> wq_ok q' \<and> x \<in> dirty q'"
  by (induction rule: rtranclp_induct) (auto simp: other_step_def dest: wq_step_ok)

lemma retry_kept: "(other_step handle x)\<^sup>*\<^sup>* q q' \<Longrightarrow> wq_ok q \<Longrightarrow> retried x q \<Longrightarrow> wq_ok q' \<and> retried x q'"
proof (induction rule: rtranclp_induct)
  case (step q1 q2)
  then have s: "wq_step handle q1 q2" "wq_Get q1 \<noteq> Some (Some x, q2)" "wq_ok q1" "retried x q1"
    by (auto simp: other_step_def)
  then show ?case
    using wq_step_ok [OF s(1) s(3)] wq_step_delayed [OF s(1), of x] wq_step_shut [OF s(1)] by (auto simp: retried_def)
qed simp

text \<open>Calls of \<open>Get\<close> alone bring the workers to every item that is in the queue.\<close>

lemma queued_got: "x \<in> set (queue q) \<Longrightarrow> \<exists>q1 q2. (wq_step handle)\<^sup>*\<^sup>* q q1 \<and> wq_Get q1 = Some (Some x, q2)"
proof (induction "queue q" arbitrary: q)
  case (Cons y ys)
  let ?q = "q\<lparr>queue := ys, processing := insert y (processing q), dirty := dirty q - {y}\<rparr>"
  have q: "queue q = y # ys" using Cons(2) by simp
  have get: "wq_Get q = Some (Some y, ?q)" by (simp add: wq_Get_def q)
  have rest: "ys = queue ?q" by simp
  show ?case
  proof (cases "x = y")
    case False
    then have "x \<in> set (queue ?q)" using Cons(3) q by simp
    then obtain q1 q2 where q1: "(wq_step handle)\<^sup>*\<^sup>* ?q q1" "wq_Get q1 = Some (Some x, q2)" using Cons(1) [OF rest] by blast
    then show ?thesis using converse_rtranclp_into_rtranclp [OF wq_step.get [OF get] q1(1)] by blast
  qed (use get in blast)
qed simp

lemma got_out: "wq_ok q \<Longrightarrow> wq_Get q = Some (Some x, q') \<Longrightarrow> x \<notin> set (queue q')"
  by (auto simp: wq_Get_def wq_ok_def split: list.splits if_splits)

section \<open>Properties\<close>

text \<open>
  C12. No key that an event adds is lost, and no key is worked on twice at a time. Let the queue be in a state
  that events, workers, retries and a shutdown can reach, and not shut down. (1) A key that an event adds then,
  whether or not it is waiting or being worked on already, is to be done in every later state until a worker
  gets it: it is in the queue, or its former event is being worked on and \<open>Done\<close> of that puts it in the queue;
  and from every such state the workers can get it. One \<open>Get\<close> may answer several events of a key. (2) A key whose
  handler failed waits for its retry or is to be done in every later state, until a worker gets it again or the
  queue is shut down, and the timer of the retry puts it in the queue. (3) A worker gets no key that
  another one works on, and one that is worked on stays so until \<open>Done\<close> of that key. The claim is about keys: an event
  whose object has none is dropped before (\<open>pod.go:60\<close>).
\<close>

theorem queue_no_loss:
  assumes "(wq_step handle)\<^sup>*\<^sup>* newQueue q" "\<not> shuttingDown q"
  shows "(\<forall>q'. (other_step handle (Key key))\<^sup>*\<^sup>* (wq_Add (Key key) q) q' \<longrightarrow>
      Key key \<in> dirty q' \<and>
      (Key key \<in> set (queue q') \<or> Key key \<in> processing q' \<and> Key key \<in> set (queue (wq_Done (Key key) q'))) \<and>
      (\<exists>q1 q2. (wq_step handle)\<^sup>*\<^sup>* q' q1 \<and> wq_Get q1 = Some (Some (Key key), q2))) \<and>
    (\<forall>err q'. handle key = Some err \<and> (other_step handle (Key key))\<^sup>*\<^sup>* (snd (sync_item handle (Key key) q)) q' \<and>
        \<not> shuttingDown q' \<longrightarrow>
      Key key \<in> dirty q' \<or> Key key \<in> delayed q' \<and> Key key \<in> dirty (fire (Key key) q')) \<and>
    (\<forall>x q'. wq_Get q = Some (Some x, q') \<longrightarrow> x \<notin> processing q \<and> x \<in> processing q' \<and> x \<notin> set (queue q')) \<and>
    (\<forall>x q'. x \<in> processing q \<and> wq_step handle q q' \<longrightarrow> x \<in> processing q' \<or> q' = wq_Done x q)"
    (is "?added \<and> ?failed \<and> ?got \<and> ?busy")
proof (intro conjI)
  note ok = wq_run_ok [OF assms(1)]
  show ?added
  proof (intro allI impI)
    fix q' assume "(other_step handle (Key key))\<^sup>*\<^sup>* (wq_Add (Key key) q) q'"
    then have q': "wq_ok q'" "Key key \<in> dirty q'" using dirty_kept wq.add_ok [OF ok, of "Key key"] assms(2) by auto
    then have d: "Key key \<in> set (queue q') \<or> Key key \<in> processing q' \<and> Key key \<in> set (queue (wq_Done (Key key) q'))"
      by (auto simp: wq_ok_def wq_Done_def Let_def)
    have "\<exists>q1 q2. (wq_step handle)\<^sup>*\<^sup>* q' q1 \<and> wq_Get q1 = Some (Some (Key key), q2)"
      using d queued_got [of "Key key" q'] queued_got [of "Key key" "wq_Done (Key key) q'"]
      by (meson converse_rtranclp_into_rtranclp wq_step.finish)
    with q' d show "Key key \<in> dirty q' \<and>
      (Key key \<in> set (queue q') \<or> Key key \<in> processing q' \<and> Key key \<in> set (queue (wq_Done (Key key) q'))) \<and>
      (\<exists>q1 q2. (wq_step handle)\<^sup>*\<^sup>* q' q1 \<and> wq_Get q1 = Some (Some (Key key), q2))" by blast
  qed
  show ?failed
  proof (intro allI impI, elim conjE)
    fix err q' assume err: "handle key = Some err" "\<not> shuttingDown q'"
      and run: "(other_step handle (Key key))\<^sup>*\<^sup>* (snd (sync_item handle (Key key) q)) q'"
    let ?q = "snd (sync_item handle (Key key) q)"
    have "wq_ok ?q" using sync_item_frame [of handle "Key key" q "fst (sync_item handle (Key key) q)" ?q] ok
      by (simp add: wq_ok_def)
    moreover have "retried (Key key) ?q" using err(1) assms(2) by (simp add: retried_def sync_item_def AddRateLimited_def Let_def)
    ultimately have "retried (Key key) q'" using retry_kept [OF run] by blast
    then show "Key key \<in> dirty q' \<or> Key key \<in> delayed q' \<and> Key key \<in> dirty (fire (Key key) q')"
      using err(2) by (auto simp: retried_def fire_def wq_Add_def Let_def)
  qed
  show ?got using wq.get_item [OF ok] got_out [OF ok] by blast
  show ?busy using wq_step_busy [OF _ ok] by blast
qed

definition working :: work_queue where
  "working = newQueue\<lparr>processing := {Key ''d/web''}\<rparr>"

theorem queue_no_loss_witness:
  "Key ''d/web'' \<in> processing working \<and> Key ''d/web'' \<in> set (queue (wq_Done (Key ''d/web'') (wq_Add (Key ''d/web'') working)))"
proof -
  let ?x = "Key ''d/web''" and ?h = handleAddPod
  let ?q1 = "newQueue\<lparr>queue := [?x], dirty := {?x}\<rparr>"
  have "wq_step ?h newQueue ?q1" using wq_step.event [of ?h newQueue "''d/web''"] by (simp add: wq_Add_def newQueue_def)
  moreover have "wq_step ?h ?q1 working" by (rule wq_step.get [of _ ?x]) (simp add: wq_Get_def newQueue_def working_def)
  ultimately have run: "(wq_step ?h)\<^sup>*\<^sup>* newQueue working" by (meson r_into_rtranclp rtranclp_trans)
  have open_queue: "\<not> shuttingDown working" and busy: "?x \<in> processing working" by (simp_all add: working_def newQueue_def)
  have "queue (wq_Add ?x working) = []" by (simp add: wq_Add_def working_def newQueue_def)
  then show ?thesis using queue_no_loss [OF run open_queue, of "''d/web''"] busy by auto
qed

text \<open>
  Where the key of a pod's event goes, if the queues are not shut down: the key of a pod that no longer
  runs goes to the queue of deletions; of an added pod that runs, to the queue of additions; of a changed
  pod that runs, to the queue of updates if it has been given an address and a node, and nowhere
  otherwise. All other queues stay as they are.
\<close>

theorem events_dispatched:
  assumes "enqueueAddPod (PodObj p) c = Returns c1" "enqueueUpdatePod (PodObj old) (PodObj p) c = Returns c2"
    "ResourceVersion old \<noteq> ResourceVersion p" "MetaNamespaceKeyFunc (PodObj p) = Inr key"
    "\<not> shuttingDown (addPodQueue c)" "\<not> shuttingDown (updatePodQueue c)" "\<not> shuttingDown (deletePodQueue c)"
    "wq_ok (addPodQueue c)" "wq_ok (updatePodQueue c)" "wq_ok (deletePodQueue c)"
  shows "dirty (addPodQueue c1) = dirty (addPodQueue c) \<union> (if isPodAlive p then {Key key} else {}) \<and>
    dirty (deletePodQueue c1) = dirty (deletePodQueue c) \<union> (if isPodAlive p then {} else {Key key}) \<and>
    dirty (deletePodQueue c2) = dirty (deletePodQueue c) \<union> (if isPodAlive p then {} else {Key key}) \<and>
    dirty (updatePodQueue c2) = dirty (updatePodQueue c) \<union>
      (if isPodAlive p \<and> annotation p AllocatedAnnotation = ''true'' \<and> NodeName p \<noteq> [] then {Key key} else {}) \<and>
    updatePodQueue c1 = updatePodQueue c \<and> addPodQueue c2 = addPodQueue c"
  using assms(1-7) wq.add_ok [OF assms(8), of "Key key"] wq.add_ok [OF assms(9), of "Key key"]
    wq.add_ok [OF assms(10), of "Key key"]
  by (auto simp: enqueueAddPod_def enqueueUpdatePod_def add_to_delete_def split: if_splits)

definition evicted :: pod where
  "evicted = \<lparr>Namespace = ''d'', PodName = ''web'', PodPhase = ''Failed'', Reason = ''Evicted'', RestartPolicy = ''Always'',
     NodeName = ''n1'', ResourceVersion = ''2'', Annotations = Map.empty\<rparr>"

lemma evicted_version: "ResourceVersion evicted = ''2''" by (simp add: evicted_def)

theorem events_dispatched_witness:
  "\<exists>c1 c2. enqueueAddPod (PodObj evicted) NewController = Returns c1 \<and>
     enqueueUpdatePod (PodObj (evicted\<lparr>ResourceVersion := ''1''\<rparr>)) (PodObj evicted) NewController = Returns c2 \<and>
     dirty (deletePodQueue c1) = {Key ''d/web''} \<and> dirty (deletePodQueue c2) = {Key ''d/web''} \<and> dirty (addPodQueue c1) = {}"
proof -
  have e: "MetaNamespaceKeyFunc (PodObj evicted) = Inr ''d/web''" "\<not> isPodAlive evicted"
    by (simp_all add: MetaNamespaceKeyFunc_def isPodAlive_def evicted_def)
  obtain c1 c2 where c: "enqueueAddPod (PodObj evicted) NewController = Returns c1"
    "enqueueUpdatePod (PodObj (evicted\<lparr>ResourceVersion := ''1''\<rparr>)) (PodObj evicted) NewController = Returns c2"
    by (simp add: enqueueAddPod_def enqueueUpdatePod_def e) (simp add: e evicted_version)
  have q: "\<not> shuttingDown newQueue" "wq_ok newQueue" "dirty newQueue = {}"
    "addPodQueue NewController = newQueue" "updatePodQueue NewController = newQueue" "deletePodQueue NewController = newQueue"
    "ResourceVersion (evicted\<lparr>ResourceVersion := ''1''\<rparr>) \<noteq> ResourceVersion evicted"
    by (simp_all add: newQueue_def wq_ok_def NewController_def evicted_def)
  have "dirty (deletePodQueue c1) = {Key ''d/web''} \<and> dirty (deletePodQueue c2) = {Key ''d/web''} \<and> dirty (addPodQueue c1) = {}"
    using events_dispatched [OF c q(7) e(1)] q(1-6) e(2) by simp
  with c show ?thesis by blast
qed

end
