(* ===== verification/Spec2Isabelle.thy ===== *)
theory Spec2Isabelle
  imports ServerClaims Subnet CniGateways EtcdLease Kubeovsd Controller
begin

text \<open>
  Address management of kubeovs-l2, a Kubernetes network on Open vSwitch.

  The program. On every node runs the daemon kubeovsd (\<open>cmd/kubeovsd\<close>). At its start it makes the OVS
  bridge, moves the node's address and route to it, and builds an address server (\<open>pkg/daemon\<close>) from its
  configuration. The server answers \<open>/add\<close>, \<open>/del\<close> and \<open>/check\<close> on a unix socket. It has one allocator for
  each range set (\<open>pkg/ipametcd/backend/allocator\<close>), and all of them share a store in etcd
  (\<open>backend/etcd\<close>), where the key of an address has the container and the interface as its value; the
  store's lock is an etcd mutex that all daemons of the cluster contend for. The container runtime calls
  the CNI plugin (\<open>cmd/cni\<close>), whose ADD and DEL wire up the pod and ask the daemon for an address or give
  one back. Apart from these stand an older in-memory allocator (\<open>pkg/ipam\<close>) and a controller that puts pod
  events into work queues (\<open>pkg/controller\<close>).

  Conventions. A Go struct is a record with its field names, a method a function of the same name
  (with the type before it where two clash: \<open>Range_Contains\<close>, \<open>etcd_Reserve\<close>), a byte \<open>8 word\<close>, a
  \<open>uint32\<close> \<open>32 word\<close>, a \<open>net.IP\<close> a list of bytes with \<open>[]\<close> for nil. A pair of result and error is
  \<open>go_error + 'a\<close>; a call that can panic has the type \<open>outcome\<close>, and one that can run for ever is
  \<open>None\<close> then. State is passed on explicitly, also through failing branches. What the program gets from
  outside is a parameter: the etcd client (\<open>kv_client\<close>), the order in which Go visits a map (\<open>ord\<close>), the
  JSON decoder and encoder, files, netlink and \<open>ovs-vsctl\<close> (\<open>host\<close>, \<open>machine\<close>), random numbers,
  \<open>sort.Sort\<close>. What the code relies on there is a locale: \<open>etcd_kv\<close>, \<open>reliable_kv\<close>, \<open>quiet_kv\<close>,
  \<open>deleting_kv\<close> (an etcd client, with the guarantees it may give), \<open>daemon_host\<close>, \<open>link_addresses\<close>.

  Shared vocabulary. \<open>GoPrelude\<close> (errors, outcomes, big-endian numbers, decimal and hexadecimal text),
  \<open>GoStrings\<close> (\<open>strings\<close>, \<open>strconv\<close>), \<open>GoNet\<close> and \<open>GoNetText\<close> (\<open>net.IP\<close>, masks, \<open>ParseIP\<close>, \<open>ParseCIDR\<close> and
  printing, with the round trips), \<open>CidrUtil\<close> (the vendored \<open>plugins/pkg/ip/cidr.go\<close>).

  Allocation over etcd. \<open>AllocRange\<close> models \<open>range.go\<close> and \<open>range_set.go\<close>: what \<open>Canonicalize\<close> accepts
  (\<open>wf_range\<close>), that \<open>Contains\<close> is membership in an interval and that \<open>Overlaps\<close> is exact. \<open>Store\<close> is the
  interface \<open>backend.Store\<close>, a record of operations, with the locales \<open>backend_store\<close> and \<open>reliable_store\<close>;
  \<open>FakeStore\<close> (\<open>fake_store.go\<close>) and \<open>EtcdStore\<close> (\<open>backend.go\<close>, \<open>lock.go\<close>) provide it. \<open>RangeIter\<close> and
  \<open>Allocator\<close> model \<open>allocator.go\<close>; inside the locales they show which address \<open>Get\<close> returns and when it
  returns. \<open>Next\<close> and \<open>get_loop\<close> are partial functions, since the loop of the code need not end: over one
  range, or from a fresh start, it ends because every round visits an address not visited before, and
  \<open>etcd_Get_never_returns\<close> is a case where it does not. \<open>AllocTrace\<close> has the histories of \<open>Get\<close> and \<open>Release\<close> as
  a step relation. \<open>EtcdIpam\<close> states the properties of the allocator over etcd.

  Configuration and server. \<open>IpamConfig\<close> is \<open>config.go\<close> with the argument strings of the vendored
  \<open>args.go\<close>; \<open>ResolvConf\<close> the parser of \<open>daemon/util.go\<close>; \<open>IpamServer\<close> the handlers of \<open>handler.go\<close>.
  \<open>ServerProps\<close> proves their behaviour in the locales \<open>exclusive_store\<close> and \<open>owner_store\<close>, \<open>EtcdServer\<close>
  shows that the etcd store satisfies these, and \<open>ServerClaims\<close> states the properties: what is handed out,
  that a failed \<open>Add\<close> takes nothing if the container held nothing, that \<open>Del\<close> gives back exactly what the container
  holds if that are at most as many addresses as there are allocators. They assume that listing and deleting the keys
  of etcd does not fail (\<open>deleting_kv\<close>), and that the container's value is recognised (\<open>own_id\<close>) and stored under
  addresses only (\<open>clean\<close>). \<open>HttpAnswers\<close> has what a client of the socket sees of an answer, failures of the JSON
  encoder included.

  Several requests at once. \<open>EtcdMutex\<close> models the mutex of the vendored etcd client as a step relation
  \<open>lock_step\<close> of any number of requests of any number of daemons, each step one call to etcd, around bodies
  that satisfy the locale \<open>rpc_body\<close>; the invariant is \<open>lock_ok\<close>. \<open>EtcdRequests\<close> has the calls of \<open>Reserve\<close> and
  \<open>ReleaseByID\<close> as bodies and interprets the locale; \<open>EtcdGets\<close> interprets it again for the whole of \<open>Get\<close>
  and \<open>Release\<close> of \<open>allocator.go\<close>, everything between \<open>store.Lock\<close> and \<open>store.Unlock\<close>. The interleaved system
  refines running the calls of \<open>Allocator\<close> one after the other (\<open>allocator_call\<close>, \<open>in_turn\<close>); over single
  ranges of at most m addresses k requests end within \<open>k * (2 * k + 4 * m + 10)\<close> steps, because the loop of a
  \<open>Get\<close> has at most m rounds of four steps; and no two calls for containers that no request releases are granted the
  same address. All this is for daemons that work on one request at a time and whose \<open>Lock\<close> does not fail, the first two
  parameters of \<open>lock_step\<close>, which the code does not ensure: two calls of one daemon share a key and can be granted the
  same address. \<open>EtcdLease\<close> adds the expiry of leases (\<open>lease_step\<close>, with the same parameters): harmless for sessions
  whose requests are done, while a lease that expires in use lets two daemons be granted the same address.

  The plugin, the daemon, the controller. \<open>CniPlugin\<close> models \<open>plugin.go\<close> in full; \<open>CniProps\<close> composes it with
  the handlers and the store, for commands during which no one else writes to etcd: a successful ADD prints addresses
  that were free and are held, the one it asked for among them, and DEL gives them back. \<open>CniGateways\<close> has the gateway computation. \<open>Kubeovsd\<close> is \<open>main.go\<close> up to the running server and
  shows what a start does to the addresses of the node, whatever call fails, the listing of the addresses
  included, of which \<open>main\<close> only warns. \<open>Controller\<close> has the work queue of client-go and the event handlers of \<open>pod.go\<close>:
  while the queue is not shut down, a key that an event adds stays to be done until a worker gets it, a key whose
  handler failed is tried again, and no key is worked on twice at a time. An event without a key is dropped.

  The package \<open>pkg/ipam\<close>. \<open>IpamAddr\<close> (addresses as strings, MAC addresses), \<open>IpamRanges\<close> (lists of ranges:
  what cutting and merging does to the set of addresses) and \<open>Subnet\<close> (the allocator; its invariant
  \<open>subnet_ok\<close> holds along every history in which no static request takes the last address of a longer
  range, from a subnet whose excluded addresses lie below the last one of the pool; the properties are about such
  histories, and \<open>Subnet_collision\<close> shows why the first condition is needed).

  Not modelled. Log output; \<open>cmd/cni/main.go\<close>, which hands the commands to the CNI library; the Kubernetes
  wiring of the controller's constructor (client, informers, event broadcaster; the three worker functions
  of \<open>pod.go\<close> have empty bodies); an \<open>Unlock\<close> whose call to etcd fails; the inside of JSON, etcd, netlink and OVS, which are the parameters above; transport
  failures of the daemon's socket in \<open>over_socket\<close>.
\<close>

end
